theory Spec2Isabelle
  imports Main "HOL-Library.Word" "HOL-Library.Multiset"
begin

section \<open>Graph store\<close>

text \<open>
  The Go struct \<^verbatim>\<open>Graph { Vertices int; AdjList [][]int }\<close>.  Vertex ids are Go
  \<^verbatim>\<open>int\<close>s; the sizes involved are bounded by an \<^verbatim>\<open>int16\<close>, so no arithmetic on them
  can overflow and they are modelled as unbounded integers.
\<close>

record Graph =
  Vertices :: int
  AdjList :: "int list list"

text \<open>
  A run of the program either returns or panics (on an index out of range, or on a
  negative length given to \<^verbatim>\<open>make\<close>).  \<open>OutOfFuel\<close> is not an outcome of the program:
  it is the value of a recursive definition whose fuel is used up (see below).
\<close>

datatype error =
    InputOpenError
  | SizeReadError
  | InvalidGraphSize int
  | MatrixReadError int int
  | IndexOutOfRange
  | OutOfFuel
  | NegativeLength

text \<open>Go slice indexing: \<^verbatim>\<open>xs[i]\<close> panics unless \<^verbatim>\<open>0 <= i < len(xs)\<close>.\<close>

definition in_range :: "'a list \<Rightarrow> int \<Rightarrow> bool" where
  "in_range xs i \<longleftrightarrow> 0 \<le> i \<and> i < int (length xs)"

definition NewGraph :: "int \<Rightarrow> Graph" where
  "NewGraph vertices = \<lparr>Vertices = vertices, AdjList = replicate (nat vertices) []\<rparr>"

definition AddEdge :: "Graph \<Rightarrow> int \<Rightarrow> int \<Rightarrow> error + Graph" where
  "AddEdge g u v =
     (if \<not> in_range (AdjList g) u then Inl IndexOutOfRange
      else let adj1 = (AdjList g)[nat u := AdjList g ! nat u @ [v]] in
        if \<not> in_range adj1 v then Inl IndexOutOfRange
        else Inr (g\<lparr>AdjList := adj1[nat v := adj1 ! nat v @ [u]]\<rparr>))"

section \<open>Reading the binary adjacency matrix\<close>

type_synonym byte = "8 word"
type_synonym int16 = "16 word"

text \<open>
  \<^verbatim>\<open>binary.Read(file, binary.LittleEndian, &val)\<close> for an \<^verbatim>\<open>int16\<close>: two bytes are
  consumed, the first is the low byte; with fewer than two bytes left the read fails.
\<close>

definition le_int16 :: "byte \<Rightarrow> byte \<Rightarrow> int16" where
  "le_int16 b0 b1 = word_of_int (uint b0 + 256 * uint b1)"

fun read_int16 :: "byte list \<Rightarrow> (int16 \<times> byte list) option" where
  "read_int16 (b0 # b1 # rest) = Some (le_int16 b0 b1, rest)"
| "read_int16 _ = None"

text \<open>
  The inner loop \<^verbatim>\<open>for j := 0; j < size; j++\<close> of the matrix reader, as a recursion on
  the number of cells still to read in row \<open>i\<close>; \<open>j\<close> is the column being read.
\<close>

fun read_row :: "int \<Rightarrow> int \<Rightarrow> nat \<Rightarrow> byte list \<Rightarrow> error + (int list \<times> byte list)" where
  "read_row i j 0 bs = Inr ([], bs)"
| "read_row i j (Suc k) bs =
     (case read_int16 bs of
        None \<Rightarrow> Inl (MatrixReadError i j)
      | Some (val, bs') \<Rightarrow>
          (case read_row i (j + 1) k bs' of
             Inl e \<Rightarrow> Inl e
           | Inr (vals, bs'') \<Rightarrow> Inr (sint val # vals, bs'')))"

text \<open>The outer loop \<^verbatim>\<open>for i := 0; i < size; i++\<close>, on the number of rows still to read.\<close>

fun read_rows :: "nat \<Rightarrow> int \<Rightarrow> nat \<Rightarrow> byte list \<Rightarrow> error + int list list" where
  "read_rows sz i 0 bs = Inr []"
| "read_rows sz i (Suc k) bs =
     (case read_row i 0 sz bs of
        Inl e \<Rightarrow> Inl e
      | Inr (row, bs') \<Rightarrow>
          (case read_rows sz (i + 1) k bs' of
             Inl e \<Rightarrow> Inl e
           | Inr rows \<Rightarrow> Inr (row # rows)))"

text \<open>
  The conversion loops: for every \<open>i\<close>, for every \<open>j\<close>, an edge is added when
  \<^verbatim>\<open>adjMatrix[i][j] != 0 && i < j\<close>.
\<close>

fun build_row :: "int list list \<Rightarrow> int \<Rightarrow> int list \<Rightarrow> Graph \<Rightarrow> error + Graph" where
  "build_row m i [] g = Inr g"
| "build_row m i (j # js) g =
     (if m ! nat i ! nat j \<noteq> 0 \<and> i < j
      then (case AddEdge g i j of Inl e \<Rightarrow> Inl e | Inr g' \<Rightarrow> build_row m i js g')
      else build_row m i js g)"

fun build_rows :: "int list list \<Rightarrow> int \<Rightarrow> int list \<Rightarrow> Graph \<Rightarrow> error + Graph" where
  "build_rows m sz [] g = Inr g"
| "build_rows m sz (i # is) g =
     (case build_row m i (map int [0..<nat sz]) g of
        Inl e \<Rightarrow> Inl e
      | Inr g' \<Rightarrow> build_rows m sz is g')"

text \<open>
  \<^verbatim>\<open>ReadGraph\<close>.  The file system is a partial map from names to contents; a name
  without contents cannot be opened.
\<close>

definition ReadGraph :: "(string \<Rightarrow> byte list option) \<Rightarrow> string \<Rightarrow> error + Graph" where
  "ReadGraph fs filename =
     (case fs filename of
        None \<Rightarrow> Inl InputOpenError
      | Some bs \<Rightarrow>
          (case read_int16 bs of
             None \<Rightarrow> Inl SizeReadError
           | Some (sz, bs') \<Rightarrow>
               if sint sz \<le> 0 then Inl (InvalidGraphSize (sint sz))
               else
                 (case read_rows (nat (sint sz)) 0 (nat (sint sz)) bs' of
                    Inl e \<Rightarrow> Inl e
                  | Inr adjMatrix \<Rightarrow>
                      build_rows adjMatrix (sint sz) (map int [0..<nat (sint sz)])
                        (NewGraph (sint sz)))))"

section \<open>Connected components\<close>

text \<open>
  The recursive closures of the three analyses are defined with fuel \<open>d\<close>, which is
  what lets the recursion be written as a total function: an activation with fuel
  \<open>Suc d\<close> runs its body and hands fuel \<open>d\<close> to the activations it starts, and
  an activation with no fuel left yields \<open>OutOfFuel\<close>.  The fuel is a device of the
  model and not a behaviour of the program, whose closures have no bound.  Every
  result below about a whole analysis takes fuel of at least the number of vertices
  and shows that the analysis then returns.

  \<open>cc_dfs\<close> is the closure \<^verbatim>\<open>dfs(u, component)\<close> of \<^verbatim>\<open>ConnectedComponents\<close>, and
  \<open>cc_loop\<close> its loop over the neighbours that are still to be looked at.
\<close>

record cc_state =
  cc_visited :: "bool list"
  cc_component :: "int list"

fun cc_dfs :: "nat \<Rightarrow> Graph \<Rightarrow> int \<Rightarrow> cc_state \<Rightarrow> error + cc_state"
  and cc_loop :: "nat \<Rightarrow> Graph \<Rightarrow> int list \<Rightarrow> cc_state \<Rightarrow> error + cc_state" where
  "cc_dfs 0 g u s = Inl OutOfFuel"
| "cc_dfs (Suc d) g u s =
     (if \<not> in_range (cc_visited s) u then Inl IndexOutOfRange
      else if \<not> in_range (AdjList g) u then Inl IndexOutOfRange
      else cc_loop d g (AdjList g ! nat u)
             (s\<lparr>cc_visited := (cc_visited s)[nat u := True],
                cc_component := cc_component s @ [u]\<rparr>))"
| "cc_loop d g [] s = Inr s"
| "cc_loop d g (v # vs) s =
     (if \<not> in_range (cc_visited s) v then Inl IndexOutOfRange
      else if \<not> cc_visited s ! nat v
        then (case cc_dfs d g v s of Inl e \<Rightarrow> Inl e | Inr s' \<Rightarrow> cc_loop d g vs s')
        else cc_loop d g vs s)"

text \<open>The outer loop over the roots \<open>u = 0, \<dots>, Vertices - 1\<close>.\<close>

fun cc_roots :: "nat \<Rightarrow> Graph \<Rightarrow> int list \<Rightarrow> bool list \<times> int list list \<Rightarrow> error + (bool list \<times> int list list)" where
  "cc_roots d g [] (visited, components) = Inr (visited, components)"
| "cc_roots d g (u # us) (visited, components) =
     (if \<not> in_range visited u then Inl IndexOutOfRange
      else if \<not> visited ! nat u
        then (case cc_dfs d g u \<lparr>cc_visited = visited, cc_component = []\<rparr> of
                Inl e \<Rightarrow> Inl e
              | Inr s \<Rightarrow> cc_roots d g us (cc_visited s, components @ [cc_component s]))
        else cc_roots d g us (visited, components))"

text \<open>\<^verbatim>\<open>make([]bool, g.Vertices)\<close> panics on a negative length.\<close>

definition ConnectedComponents :: "nat \<Rightarrow> Graph \<Rightarrow> error + int list list" where
  "ConnectedComponents d g =
     (if Vertices g < 0 then Inl NegativeLength
      else (case cc_roots d g (map int [0..<nat (Vertices g)])
                   (replicate (nat (Vertices g)) False, []) of
              Inl e \<Rightarrow> Inl e
            | Inr (visited, components) \<Rightarrow> Inr components))"


section \<open>Low-link traversal state\<close>

text \<open>The helper \<^verbatim>\<open>min\<close> of the source.\<close>

definition min_int :: "int \<Rightarrow> int \<Rightarrow> int" where
  "min_int a b = (if a < b then a else b)"

text \<open>
  The arrays and the clock that \<^verbatim>\<open>ArticulationPointsAndBridges\<close> and
  \<^verbatim>\<open>BiconnectedComponents\<close> both allocate.  All four arrays are made with length
  \<^verbatim>\<open>g.Vertices\<close> and are never resized, so one bounds check (against \<open>visited\<close>)
  stands for the check of each of them.
\<close>

record trav =
  visited :: "bool list"
  discovery :: "int list"
  low :: "int list"
  parent :: "int list"
  time :: int

text \<open>The first four statements of both closures: mark, stamp, advance the clock.\<close>

definition enter :: "int \<Rightarrow> 'a trav_scheme \<Rightarrow> 'a trav_scheme" where
  "enter u s =
     s\<lparr>visited := (visited s)[nat u := True],
       discovery := (discovery s)[nat u := time s],
       low := (low s)[nat u := time s],
       time := time s + 1\<rparr>"

section \<open>Articulation points and bridges\<close>

text \<open>
  \<open>ap\<close> is the key set of the Go map \<^verbatim>\<open>ap\<close>; the slice built from it at the end has its
  keys in the unspecified order of a map iteration, so the model returns the set.
\<close>

record ap_state = trav +
  ap :: "int set"
  br :: "(int \<times> int) list"

text \<open>The statements after the recursive call returns from child \<open>v\<close> of \<open>u\<close>.\<close>

definition ap_return :: "int \<Rightarrow> int \<Rightarrow> int \<Rightarrow> ap_state \<Rightarrow> ap_state" where
  "ap_return u v children s =
     (let s1 = s\<lparr>low := (low s)[nat u := min_int (low s ! nat u) (low s ! nat v)]\<rparr>;
          s2 = (if parent s1 ! nat u = - 1 \<and> children > 1 then s1\<lparr>ap := insert u (ap s1)\<rparr> else s1);
          s3 = (if parent s2 ! nat u \<noteq> - 1 \<and> low s2 ! nat v \<ge> discovery s2 ! nat u
                then s2\<lparr>ap := insert u (ap s2)\<rparr> else s2)
      in if low s3 ! nat v > discovery s3 ! nat u then s3\<lparr>br := br s3 @ [(u, v)]\<rparr> else s3)"

fun ap_dfs :: "nat \<Rightarrow> Graph \<Rightarrow> int \<Rightarrow> ap_state \<Rightarrow> error + ap_state"
  and ap_loop :: "nat \<Rightarrow> Graph \<Rightarrow> int \<Rightarrow> int \<Rightarrow> int list \<Rightarrow> ap_state \<Rightarrow> error + ap_state" where
  "ap_dfs 0 g u s = Inl OutOfFuel"
| "ap_dfs (Suc d) g u s =
     (if \<not> in_range (visited s) u then Inl IndexOutOfRange
      else if \<not> in_range (AdjList g) u then Inl IndexOutOfRange
      else ap_loop d g u 0 (AdjList g ! nat u) (enter u s))"
| "ap_loop d g u children [] s = Inr s"
| "ap_loop d g u children (v # vs) s =
     (if \<not> in_range (visited s) v then Inl IndexOutOfRange
      else if \<not> visited s ! nat v
        then (case ap_dfs d g v (s\<lparr>parent := (parent s)[nat v := u]\<rparr>) of
                Inl e \<Rightarrow> Inl e
              | Inr s' \<Rightarrow> ap_loop d g u (children + 1) vs (ap_return u v (children + 1) s'))
      else if v \<noteq> parent s ! nat u
        then ap_loop d g u children vs
               (s\<lparr>low := (low s)[nat u := min_int (low s ! nat u) (discovery s ! nat v)]\<rparr>)
      else ap_loop d g u children vs s)"

fun ap_roots :: "nat \<Rightarrow> Graph \<Rightarrow> int list \<Rightarrow> ap_state \<Rightarrow> error + ap_state" where
  "ap_roots d g [] s = Inr s"
| "ap_roots d g (u # us) s =
     (if \<not> in_range (visited s) u then Inl IndexOutOfRange
      else if \<not> visited s ! nat u
        then (case ap_dfs d g u s of Inl e \<Rightarrow> Inl e | Inr s' \<Rightarrow> ap_roots d g us s')
        else ap_roots d g us s)"

definition ap_init :: "Graph \<Rightarrow> ap_state" where
  "ap_init g =
     \<lparr>visited = replicate (nat (Vertices g)) False,
      discovery = replicate (nat (Vertices g)) 0,
      low = replicate (nat (Vertices g)) 0,
      parent = replicate (nat (Vertices g)) (- 1),
      time = 0, ap = {}, br = []\<rparr>"

definition ArticulationPointsAndBridges :: "nat \<Rightarrow> Graph \<Rightarrow> error + (int set \<times> (int \<times> int) list)" where
  "ArticulationPointsAndBridges d g =
     (if Vertices g < 0 then Inl NegativeLength
      else (case ap_roots d g (map int [0..<nat (Vertices g)]) (ap_init g) of
              Inl e \<Rightarrow> Inl e
            | Inr s \<Rightarrow> Inr (ap s, br s)))"

section \<open>Biconnected components\<close>

text \<open>The edge stack is a Go slice: the top of the stack is the last element.\<close>

record bcc_state = trav +
  stack :: "(int \<times> int) list"
  bcc :: "(int \<times> int) list list"

text \<open>
  The inner \<^verbatim>\<open>for\<close> loop that pops edges into a new component until the stack is empty
  or the edge \<open>(u, v)\<close> has been popped.
\<close>

function pop_component :: "int \<Rightarrow> int \<Rightarrow> (int \<times> int) list \<Rightarrow> (int \<times> int) list
    \<Rightarrow> (int \<times> int) list \<times> (int \<times> int) list" where
  "pop_component u v stk component =
     (if length stk = 0 then (stk, component)
      else let edge = last stk; stk' = butlast stk; component' = component @ [edge]
        in if fst edge = u \<and> snd edge = v then (stk', component')
           else pop_component u v stk' component')"
  by pat_completeness auto
termination
  by (relation "measure (\<lambda>(u, v, stk, component). length stk)") auto

declare pop_component.simps [simp del]

definition bcc_return :: "int \<Rightarrow> int \<Rightarrow> bcc_state \<Rightarrow> bcc_state" where
  "bcc_return u v s =
     (let s1 = s\<lparr>low := (low s)[nat u := min_int (low s ! nat u) (low s ! nat v)]\<rparr>
      in if low s1 ! nat v \<ge> discovery s1 ! nat u
         then (case pop_component u v (stack s1) [] of
                 (stk, component) \<Rightarrow> s1\<lparr>stack := stk, bcc := bcc s1 @ [component]\<rparr>)
         else s1)"

fun bcc_dfs :: "nat \<Rightarrow> Graph \<Rightarrow> int \<Rightarrow> bcc_state \<Rightarrow> error + bcc_state"
  and bcc_loop :: "nat \<Rightarrow> Graph \<Rightarrow> int \<Rightarrow> int list \<Rightarrow> bcc_state \<Rightarrow> error + bcc_state" where
  "bcc_dfs 0 g u s = Inl OutOfFuel"
| "bcc_dfs (Suc d) g u s =
     (if \<not> in_range (visited s) u then Inl IndexOutOfRange
      else if \<not> in_range (AdjList g) u then Inl IndexOutOfRange
      else bcc_loop d g u (AdjList g ! nat u) (enter u s))"
| "bcc_loop d g u [] s = Inr s"
| "bcc_loop d g u (v # vs) s =
     (if \<not> in_range (visited s) v then Inl IndexOutOfRange
      else if \<not> visited s ! nat v
        then (case bcc_dfs d g v (s\<lparr>parent := (parent s)[nat v := u], stack := stack s @ [(u, v)]\<rparr>) of
                Inl e \<Rightarrow> Inl e
              | Inr s' \<Rightarrow> bcc_loop d g u vs (bcc_return u v s'))
      else if v \<noteq> parent s ! nat u \<and> discovery s ! nat v < discovery s ! nat u
        then bcc_loop d g u vs
               (s\<lparr>low := (low s)[nat u := min_int (low s ! nat u) (discovery s ! nat v)],
                  stack := stack s @ [(u, v)]\<rparr>)
      else bcc_loop d g u vs s)"

text \<open>
  The statements after the DFS of a root returns: the residual stack becomes one more
  component and a fresh stack is started.
\<close>

definition bcc_flush :: "bcc_state \<Rightarrow> bcc_state" where
  "bcc_flush s = (if length (stack s) > 0 then s\<lparr>bcc := bcc s @ [stack s], stack := []\<rparr> else s)"

fun bcc_roots :: "nat \<Rightarrow> Graph \<Rightarrow> int list \<Rightarrow> bcc_state \<Rightarrow> error + bcc_state" where
  "bcc_roots d g [] s = Inr s"
| "bcc_roots d g (u # us) s =
     (if \<not> in_range (visited s) u then Inl IndexOutOfRange
      else if \<not> visited s ! nat u
        then (case bcc_dfs d g u s of Inl e \<Rightarrow> Inl e | Inr s' \<Rightarrow> bcc_roots d g us (bcc_flush s'))
        else bcc_roots d g us s)"

definition bcc_init :: "Graph \<Rightarrow> bcc_state" where
  "bcc_init g =
     \<lparr>visited = replicate (nat (Vertices g)) False,
      discovery = replicate (nat (Vertices g)) 0,
      low = replicate (nat (Vertices g)) 0,
      parent = replicate (nat (Vertices g)) (- 1),
      time = 0, stack = [], bcc = []\<rparr>"

definition BiconnectedComponents :: "nat \<Rightarrow> Graph \<Rightarrow> error + (int \<times> int) list list" where
  "BiconnectedComponents d g =
     (if Vertices g < 0 then Inl NegativeLength
      else (case bcc_roots d g (map int [0..<nat (Vertices g)]) (bcc_init g) of
              Inl e \<Rightarrow> Inl e
            | Inr s \<Rightarrow> Inr (bcc s)))"

section \<open>Specification-side views of the input\<close>

text \<open>
  Specification-side views of the input: the \<open>k\<close>-th 16-bit cell of a byte sequence, and
  what the conversion of row \<open>i\<close> over the columns \<open>js\<close> appends to the adjacency list
  of vertex \<open>w\<close>.
\<close>

definition cell_at :: "byte list \<Rightarrow> nat \<Rightarrow> int" where
  "cell_at bs k = sint (le_int16 (bs ! (2 * k)) (bs ! (2 * k + 1)))"

definition row_contrib :: "int list list \<Rightarrow> int \<Rightarrow> int list \<Rightarrow> nat \<Rightarrow> int list" where
  "row_contrib m i js w =
     (if w = nat i then filter (\<lambda>j. m ! nat i ! nat j \<noteq> 0 \<and> i < j) js
      else if int w \<in> set js \<and> m ! nat i ! w \<noteq> 0 \<and> i < int w then [i] else [])"


text \<open>
  The size \<open>N\<close> announced by a file, the number of complete matrix cells that follow it,
  and the matrix entry at row \<open>i\<close>, column \<open>j\<close>.
\<close>

definition file_size :: "byte list \<Rightarrow> int" where
  "file_size bs = sint (le_int16 (bs ! 0) (bs ! 1))"

definition matrix_entry :: "byte list \<Rightarrow> int \<Rightarrow> int \<Rightarrow> int" where
  "matrix_entry bs i j = cell_at (drop 2 bs) (nat i * nat (file_size bs) + nat j)"

definition file_cells :: "byte list \<Rightarrow> nat" where
  "file_cells bs = (length bs - 2) div 2"

text \<open>
  The adjacency invariant of the data model: a positive vertex count, one adjacency
  list per vertex, every stored id a valid index, and symmetry.
\<close>

definition graph_inv :: "Graph \<Rightarrow> bool" where
  "graph_inv g \<longleftrightarrow>
     0 < Vertices g \<and> int (length (AdjList g)) = Vertices g \<and>
     (\<forall>u \<in> set [0..<length (AdjList g)]. \<forall>v \<in> set (AdjList g ! u).
        in_range (AdjList g) v \<and> int u \<in> set (AdjList g ! nat v))"

text \<open>
  What the loader produces in addition: no vertex is its own neighbour and no
  neighbour is listed twice.
\<close>

definition simple_graph :: "Graph \<Rightarrow> bool" where
  "simple_graph g \<longleftrightarrow>
     graph_inv g \<and>
     (\<forall>u \<in> set [0..<length (AdjList g)]. distinct (AdjList g ! u) \<and> int u \<notin> set (AdjList g ! u))"

section \<open>Graph-theoretic notions\<close>

text \<open>
  The directed pairs stored in the adjacency lists, and connection by a path.  Under
  the adjacency invariant the pairs are symmetric.
\<close>

definition adj_rel :: "Graph \<Rightarrow> (int \<times> int) set" where
  "adj_rel g = {(u, v). in_range (AdjList g) u \<and> v \<in> set (AdjList g ! nat u)}"

definition connected :: "Graph \<Rightarrow> int \<Rightarrow> int \<Rightarrow> bool" where
  "connected g u v \<longleftrightarrow> (u, v) \<in> (adj_rel g)\<^sup>*"

text \<open>The set of vertices marked in a \<^verbatim>\<open>visited\<close> array.\<close>

definition marked :: "bool list \<Rightarrow> int set" where
  "marked vis = {v. in_range vis v \<and> vis ! nat v}"

text \<open>
  What one activation of the closure of \<^verbatim>\<open>ConnectedComponents\<close>, or a part of its loop,
  does to the state: it appends the newly marked vertices \<open>new\<close>, each once, and every
  neighbour of a new vertex is marked afterwards.
\<close>

definition cc_post :: "Graph \<Rightarrow> cc_state \<Rightarrow> cc_state \<Rightarrow> int list \<Rightarrow> bool" where
  "cc_post g s s' new \<longleftrightarrow>
     length (cc_visited s') = length (cc_visited s) \<and>
     cc_component s' = cc_component s @ new \<and> distinct new \<and>
     marked (cc_visited s') = marked (cc_visited s) \<union> set new \<and>
     marked (cc_visited s) \<inter> set new = {} \<and>
     (\<forall>w \<in> set new. adj_rel g `` {w} \<subseteq> marked (cc_visited s'))"

text \<open>The invariant of the outer loop of \<^verbatim>\<open>ConnectedComponents\<close>.\<close>

definition cc_inv :: "Graph \<Rightarrow> bool list \<Rightarrow> int list list \<Rightarrow> bool" where
  "cc_inv g vis comps \<longleftrightarrow>
     length vis = length (AdjList g) \<and> distinct (concat comps) \<and>
     set (concat comps) = marked vis \<and> [] \<notin> set comps \<and>
     (\<forall>c \<in> set comps. \<forall>u \<in> set c. \<forall>v. v \<in> set c \<longleftrightarrow> (u, v) \<in> (adj_rel g)\<^sup>*)"

section \<open>Invariants of the low-link traversal\<close>

text \<open>Reading the arrays at a vertex, and the set of marked vertices.\<close>

abbreviation dsc :: "'a trav_scheme \<Rightarrow> int \<Rightarrow> int" where
  "dsc s x \<equiv> discovery s ! nat x"

abbreviation par :: "'a trav_scheme \<Rightarrow> int \<Rightarrow> int" where
  "par s x \<equiv> parent s ! nat x"

abbreviation lw :: "'a trav_scheme \<Rightarrow> int \<Rightarrow> int" where
  "lw s x \<equiv> low s ! nat x"

abbreviation mk :: "'a trav_scheme \<Rightarrow> int set" where
  "mk s \<equiv> marked (visited s)"

text \<open>The vertices marked between two states.\<close>

definition newly :: "'a trav_scheme \<Rightarrow> 'b trav_scheme \<Rightarrow> int set" where
  "newly s s' = mk s' - mk s"

text \<open>
  Invariant of the traversal state at every call boundary: the arrays have the length
  of the adjacency list; discovery times of marked vertices lie below the clock and are
  pairwise different; a marked vertex with a parent was discovered after its parent,
  which is marked and adjacent to it.
\<close>

definition tinv :: "Graph \<Rightarrow> 'a trav_scheme \<Rightarrow> bool" where
  "tinv g s \<longleftrightarrow>
     length (visited s) = length (AdjList g) \<and> length (discovery s) = length (AdjList g) \<and>
     length (low s) = length (AdjList g) \<and> length (parent s) = length (AdjList g) \<and>
     (\<forall>x \<in> mk s. dsc s x < time s) \<and>
     (\<forall>x \<in> mk s. \<forall>y \<in> mk s. dsc s x = dsc s y \<longrightarrow> x = y) \<and>
     (\<forall>x \<in> mk s. par s x \<noteq> - 1 \<longrightarrow>
        par s x \<in> mk s \<and> dsc s (par s x) < dsc s x \<and> (par s x, x) \<in> adj_rel g)"

text \<open>
  What a part of the traversal may change: marks are only added, the clock only
  advances, discovery times and parents of marked vertices stay, parents of vertices
  that are still unmarked stay, and every newly marked vertex is stamped with a time
  from the interval and has all its neighbours marked.
\<close>

definition tframe :: "Graph \<Rightarrow> 'a trav_scheme \<Rightarrow> 'b trav_scheme \<Rightarrow> bool" where
  "tframe g s s' \<longleftrightarrow>
     mk s \<subseteq> mk s' \<and> time s \<le> time s' \<and>
     (\<forall>x \<in> mk s. dsc s' x = dsc s x \<and> par s' x = par s x) \<and>
     (\<forall>x. in_range (AdjList g) x \<and> x \<notin> mk s' \<longrightarrow> par s' x = par s x) \<and>
     (\<forall>w \<in> newly s s'. time s \<le> dsc s' w \<and> adj_rel g `` {w} \<subseteq> mk s')"

text \<open>
  Post-conditions of an activation on vertex \<open>v\<close> and of the loop of \<open>u\<close> over the
  neighbours \<open>vs\<close>: besides the frame, the new vertices form a tree below \<open>v\<close>
  (respectively hang below \<open>u\<close>) and are connected to it inside the new part.
\<close>

definition gpost_dfs :: "Graph \<Rightarrow> int \<Rightarrow> 'a trav_scheme \<Rightarrow> 'b trav_scheme \<Rightarrow> bool" where
  "gpost_dfs g v s s' \<longleftrightarrow>
     tinv g s' \<and> tframe g s s' \<and> v \<in> mk s' \<and> dsc s' v = time s \<and> par s' v = par s v \<and>
     (\<forall>w \<in> newly s s'. w \<noteq> v \<longrightarrow> par s' w \<in> newly s s') \<and>
     (\<forall>w \<in> newly s s'. (v, w) \<in> (Restr (adj_rel g) (newly s s'))\<^sup>*)"

definition gpost_loop :: "Graph \<Rightarrow> int \<Rightarrow> int list \<Rightarrow> 'a trav_scheme \<Rightarrow> 'b trav_scheme \<Rightarrow> bool" where
  "gpost_loop g u vs s s' \<longleftrightarrow>
     tinv g s' \<and> tframe g s s' \<and> set vs \<subseteq> mk s' \<and>
     (\<forall>w \<in> newly s s'. par s' w \<in> newly s s' \<or> (par s' w = u \<and> w \<in> set vs)) \<and>
     (\<forall>w \<in> newly s s'. (u, w) \<in> (Restr (adj_rel g) (insert u (newly s s')))\<^sup>*)"

text \<open>
  The vertices discovered before time \<open>t0\<close> are closed under adjacency (they are the
  trees of the earlier roots).
\<close>

definition oldclosed :: "Graph \<Rightarrow> int \<Rightarrow> 'a trav_scheme \<Rightarrow> bool" where
  "oldclosed g t0 s \<longleftrightarrow>
     (\<forall>x \<in> mk s. dsc s x < t0 \<longrightarrow> (\<forall>y \<in> adj_rel g `` {x}. y \<in> mk s \<and> dsc s y < t0))"

text \<open>
  Low-links and edge stack of \<^verbatim>\<open>BiconnectedComponents\<close> inside the tree of a root that
  was entered at time \<open>t0\<close>: low-links of the tree stay at or above \<open>t0\<close>, and an
  activation only adds edges that start at newly marked vertices on top of the stack
  it was given.
\<close>

definition lpost_dfs :: "int \<Rightarrow> bcc_state \<Rightarrow> bcc_state \<Rightarrow> bool" where
  "lpost_dfs t0 s s' \<longleftrightarrow>
     (\<forall>w \<in> newly s s'. t0 \<le> lw s' w) \<and> (\<forall>x \<in> mk s. lw s' x = lw s x) \<and>
     (\<exists>rest. stack s' = stack s @ rest \<and> (\<forall>e \<in> set rest. fst e \<in> newly s s'))"

definition lpost_loop :: "int \<Rightarrow> int \<Rightarrow> bcc_state \<Rightarrow> bcc_state \<Rightarrow> bool" where
  "lpost_loop t0 u s s' \<longleftrightarrow>
     (\<forall>w \<in> newly s s'. t0 \<le> lw s' w) \<and> t0 \<le> lw s' u \<and>
     (\<forall>x \<in> mk s. x \<noteq> u \<longrightarrow> lw s' x = lw s x) \<and>
     (\<exists>rest. stack s' = stack s @ rest \<and> (\<forall>e \<in> set rest. fst e \<in> insert u (newly s s')))"

text \<open>The invariant of the outer loop of \<^verbatim>\<open>BiconnectedComponents\<close>.\<close>

definition bcc_outer_inv :: "Graph \<Rightarrow> bcc_state \<Rightarrow> bool" where
  "bcc_outer_inv g s \<longleftrightarrow>
     tinv g s \<and> (\<forall>x \<in> mk s. adj_rel g `` {x} \<subseteq> mk s) \<and> stack s = [] \<and>
     (\<forall>x. in_range (AdjList g) x \<and> x \<notin> mk s \<longrightarrow> par s x = - 1)"

text \<open>
  The invariant of the outer loops of the two low-link analyses: the marked vertices
  are closed under adjacency and no unmarked vertex has a parent.
\<close>

definition outer_inv :: "Graph \<Rightarrow> 'a trav_scheme \<Rightarrow> bool" where
  "outer_inv g s \<longleftrightarrow>
     tinv g s \<and> (\<forall>x \<in> mk s. adj_rel g `` {x} \<subseteq> mk s) \<and>
     (\<forall>x. in_range (AdjList g) x \<and> x \<notin> mk s \<longrightarrow> par s x = - 1)"

text \<open>
  All edges that \<^verbatim>\<open>BiconnectedComponents\<close> holds at a moment: those of the closed
  components followed by those on the stack.  Popping moves edges from the second part
  to the first.
\<close>

definition pushed :: "bcc_state \<Rightarrow> (int \<times> int) list" where
  "pushed s = concat (bcc s) @ stack s"

text \<open>
  The pair \<open>(a, b)\<close> is the orientation in which the edge between \<open>a\<close> and \<open>b\<close> is
  pushed: as the tree edge from the parent \<open>a\<close> to \<open>b\<close>, or as a back edge from \<open>a\<close> to
  an earlier discovered \<open>b\<close> that is not the parent of \<open>a\<close>.
\<close>

definition pushes :: "'a trav_scheme \<Rightarrow> int \<Rightarrow> int \<Rightarrow> bool" where
  "pushes s a b \<longleftrightarrow> par s b = a \<or> (dsc s b < dsc s a \<and> par s a \<noteq> b)"

text \<open>
  The pairs pushed by the newly marked vertices, those pushed by \<open>u\<close> for the neighbours
  \<open>vs\<close>, and the post-condition of a part of the traversal: the edges held grow by
  exactly these pairs, each once.
\<close>

definition new_pairs :: "Graph \<Rightarrow> 'a trav_scheme \<Rightarrow> 'b trav_scheme \<Rightarrow> (int \<times> int) set" where
  "new_pairs g s s' = {(a, b). a \<in> newly s s' \<and> (a, b) \<in> adj_rel g \<and> pushes s' a b}"

definition own_pairs :: "int \<Rightarrow> int list \<Rightarrow> 'a trav_scheme \<Rightarrow> (int \<times> int) set" where
  "own_pairs u vs s' = {(a, b). a = u \<and> b \<in> set vs \<and> pushes s' u b}"

definition epost :: "Graph \<Rightarrow> bcc_state \<Rightarrow> bcc_state \<Rightarrow> (int \<times> int) set \<Rightarrow> bool" where
  "epost g s s' X \<longleftrightarrow>
     (\<exists>P. mset (pushed s') = mset (pushed s) + mset P \<and> distinct P \<and>
          set P = new_pairs g s s' \<union> X)"

text \<open>
  Invariant of the outer loop: the edges held are, each once, the pairs of marked
  vertices in their pushed orientation.
\<close>

definition all_pairs :: "Graph \<Rightarrow> 'a trav_scheme \<Rightarrow> (int \<times> int) set" where
  "all_pairs g s = {(a, b). a \<in> mk s \<and> (a, b) \<in> adj_rel g \<and> pushes s a b}"

definition einv :: "Graph \<Rightarrow> bcc_state \<Rightarrow> bool" where
  "einv g s \<longleftrightarrow> (\<exists>P. mset (pushed s) = mset P \<and> distinct P \<and> set P = all_pairs g s)"

section \<open>Notions for articulation points and bridges\<close>

text \<open>
  What the low-link of a vertex is after its activation: the smallest discovery time
  among the vertex itself and the targets of the edges that leave the newly marked
  part towards vertices marked before, the tree edge to the parent apart (\<open>cross\<close>).
  For the loop of \<open>u\<close> over the remaining neighbours \<open>vs\<close> the targets are those
  reached from the newly marked part, other than \<open>u\<close>, and the already marked
  neighbours of \<open>u\<close> still to be inspected, other than its parent (\<open>lcross\<close>).
\<close>

definition cross :: "Graph \<Rightarrow> int \<Rightarrow> ap_state \<Rightarrow> ap_state \<Rightarrow> int set" where
  "cross g v s s' =
     {b. b \<in> mk s \<and> (\<exists>a \<in> newly s s'. (a, b) \<in> adj_rel g \<and> \<not> (a = v \<and> b = par s v))}"

definition lcross :: "Graph \<Rightarrow> int \<Rightarrow> int list \<Rightarrow> ap_state \<Rightarrow> ap_state \<Rightarrow> int set" where
  "lcross g u vs s s' =
     {b. b \<in> mk s \<and> b \<noteq> u \<and> (\<exists>a \<in> newly s s'. (a, b) \<in> adj_rel g)} \<union>
     {b. b \<in> set vs \<and> b \<in> mk s \<and> b \<noteq> par s u}"

definition lowpost_dfs :: "Graph \<Rightarrow> int \<Rightarrow> ap_state \<Rightarrow> ap_state \<Rightarrow> bool" where
  "lowpost_dfs g v s s' \<longleftrightarrow>
     lw s' v \<le> dsc s' v \<and> (\<forall>b \<in> cross g v s s'. lw s' v \<le> dsc s b) \<and>
     (lw s' v = dsc s' v \<or> (\<exists>b \<in> cross g v s s'. lw s' v = dsc s b)) \<and>
     (\<forall>x \<in> mk s. lw s' x = lw s x)"

definition lowpost_loop :: "Graph \<Rightarrow> int \<Rightarrow> int list \<Rightarrow> ap_state \<Rightarrow> ap_state \<Rightarrow> bool" where
  "lowpost_loop g u vs s s' \<longleftrightarrow>
     lw s' u \<le> lw s u \<and> (\<forall>b \<in> lcross g u vs s s'. lw s' u \<le> dsc s b) \<and>
     (lw s' u = lw s u \<or> (\<exists>b \<in> lcross g u vs s s'. lw s' u = dsc s b)) \<and>
     (\<forall>x \<in> mk s. x \<noteq> u \<longrightarrow> lw s' x = lw s x)"

text \<open>
  A marked vertex is open while one of its neighbours is unmarked.  During an
  activation the open vertices are the ancestors on the current tree path: they were
  discovered no later than the parent and are connected to it inside the marked part
  (\<open>anc_ok\<close>, before the call on \<open>v\<close>); inside the loop of \<open>u\<close> the open vertices
  other than \<open>u\<close> are connected to the parent of \<open>u\<close> without passing through \<open>u\<close>
  (\<open>anc_loop\<close>).
\<close>

definition opens :: "Graph \<Rightarrow> 'a trav_scheme \<Rightarrow> int \<Rightarrow> bool" where
  "opens g s x \<longleftrightarrow> x \<in> mk s \<and> (\<exists>y. (x, y) \<in> adj_rel g \<and> y \<notin> mk s)"

definition anc_ok :: "Graph \<Rightarrow> 'a trav_scheme \<Rightarrow> int \<Rightarrow> bool" where
  "anc_ok g s v \<longleftrightarrow>
     (\<forall>x. opens g s x \<longrightarrow>
        par s v \<noteq> - 1 \<and> dsc s x \<le> dsc s (par s v) \<and> (x, par s v) \<in> (Restr (adj_rel g) (mk s))\<^sup>*)"

definition anc_loop :: "Graph \<Rightarrow> 'a trav_scheme \<Rightarrow> int \<Rightarrow> bool" where
  "anc_loop g s u \<longleftrightarrow>
     (\<forall>x. opens g s x \<and> x \<noteq> u \<longrightarrow>
        par s u \<noteq> - 1 \<and> dsc s x < dsc s u \<and> (x, par s u) \<in> (Restr (adj_rel g) (mk s - {u}))\<^sup>*)"

text \<open>
  Removing the edge between \<open>a\<close> and \<open>b\<close> removes both directed pairs.  The edge is a
  bridge when its endpoints are no longer connected without it.  \<open>tree_br s X\<close> are the
  tree edges into the vertices of \<open>X\<close> that pass the test of the program (low-link of
  the child strictly above the discovery time of the parent); \<open>brpost\<close> says that a part
  of the traversal appends exactly these pairs to \<^verbatim>\<open>br\<close>, and that for every edge from
  \<open>A\<close> into \<open>X\<close> being appended is the same as being a bridge.
\<close>

definition without_edge :: "Graph \<Rightarrow> int \<Rightarrow> int \<Rightarrow> (int \<times> int) set" where
  "without_edge g a b = adj_rel g - {(a, b), (b, a)}"

definition bridge :: "Graph \<Rightarrow> int \<Rightarrow> int \<Rightarrow> bool" where
  "bridge g a b \<longleftrightarrow> (a, b) \<notin> (without_edge g a b)\<^sup>*"

definition tree_br :: "ap_state \<Rightarrow> int set \<Rightarrow> (int \<times> int) set" where
  "tree_br s X = {(par s c, c) | c. c \<in> X \<and> dsc s (par s c) < lw s c}"

definition brpost :: "Graph \<Rightarrow> ap_state \<Rightarrow> ap_state \<Rightarrow> int set \<Rightarrow> int set \<Rightarrow> bool" where
  "brpost g s s' A X \<longleftrightarrow>
     (\<exists>B. br s' = br s @ B \<and> set B = tree_br s' X \<and>
        (\<forall>a \<in> A. \<forall>b \<in> X. (a, b) \<in> adj_rel g \<longrightarrow>
           (((a, b) \<in> set B \<or> (b, a) \<in> set B) \<longleftrightarrow> bridge g a b)))"

text \<open>
  The number of connected components of the graph with vertex set \<open>V\<close> and adjacency
  \<open>R\<close>: the number of distinct sets \<open>cls V R x\<close> of vertices reachable from a vertex \<open>x\<close>
  of \<open>V\<close>.
\<close>

definition cls :: "int set \<Rightarrow> (int \<times> int) set \<Rightarrow> int \<Rightarrow> int set" where
  "cls V R x = {y \<in> V. (x, y) \<in> R\<^sup>*}"

definition component_count :: "int set \<Rightarrow> (int \<times> int) set \<Rightarrow> nat" where
  "component_count V R = card (cls V R ` V)"

definition merge_cls :: "int set \<Rightarrow> (int \<times> int) set \<Rightarrow> int set \<Rightarrow> int set" where
  "merge_cls V R C = {y \<in> V. \<exists>x \<in> C. (x, y) \<in> R\<^sup>*}"

text \<open>
  The vertex set of a graph, and the invariant of the loop over the roots for the
  bridges: the list \<^verbatim>\<open>br\<close> holds the tree edges that pass the test, and an edge between
  marked vertices is in the list exactly when it is a bridge.
\<close>

definition vertices :: "Graph \<Rightarrow> int set" where
  "vertices g = {0..<Vertices g}"

definition binv :: "Graph \<Rightarrow> ap_state \<Rightarrow> bool" where
  "binv g s \<longleftrightarrow>
     set (br s) = tree_br s {c \<in> mk s. par s c \<noteq> - 1} \<and>
     (\<forall>a \<in> mk s. \<forall>b \<in> mk s. (a, b) \<in> adj_rel g \<longrightarrow>
        (((a, b) \<in> set (br s) \<or> (b, a) \<in> set (br s)) \<longleftrightarrow> bridge g a b))"

section \<open>Properties of the loader\<close>

lemma in_range_nat: "in_range xs i \<longleftrightarrow> 0 \<le> i \<and> nat i < length xs"
  by (auto simp: in_range_def)

lemma AddEdge_ok:
  assumes "in_range (AdjList g) u" "in_range (AdjList g) v"
  shows "\<exists>g'. AddEdge g u v = Inr g' \<and> Vertices g' = Vertices g \<and> length (AdjList g') = length (AdjList g)
     \<and> (\<forall>w < length (AdjList g). AdjList g' ! w = AdjList g ! w @ (if w = nat u then [v] else []) @ (if w = nat v then [u] else []))"
  using assms by (auto simp: AddEdge_def Let_def in_range_nat nth_list_update)

lemma build_row_ok:
  assumes "in_range (AdjList g) i" "\<forall>j \<in> set js. in_range (AdjList g) j" "distinct js"
  shows "\<exists>g'. build_row m i js g = Inr g' \<and> Vertices g' = Vertices g \<and> length (AdjList g') = length (AdjList g)
     \<and> (\<forall>w < length (AdjList g). AdjList g' ! w = AdjList g ! w @ row_contrib m i js w)"
  using assms
proof (induction js arbitrary: g)
  case Nil
  then show ?case by (simp add: row_contrib_def)
next
  case (Cons j js)
  show ?case
  proof (cases "m ! nat i ! nat j \<noteq> 0 \<and> i < j")
    case True
    from Cons.prems have ri: "in_range (AdjList g) i" and rj: "in_range (AdjList g) j" by auto
    from AddEdge_ok[OF ri rj] obtain g1 where
      g1: "AddEdge g i j = Inr g1" "Vertices g1 = Vertices g" "length (AdjList g1) = length (AdjList g)"
      "\<forall>w < length (AdjList g). AdjList g1 ! w = AdjList g ! w @ (if w = nat i then [j] else []) @ (if w = nat j then [i] else [])"
      by blast
    have "in_range (AdjList g1) i" "\<forall>j \<in> set js. in_range (AdjList g1) j" "distinct js"
      using Cons.prems g1(3) by (auto simp: in_range_def)
    from Cons.IH[OF this] obtain g2 where
      g2: "build_row m i js g1 = Inr g2" "Vertices g2 = Vertices g1" "length (AdjList g2) = length (AdjList g1)"
      "\<forall>w < length (AdjList g1). AdjList g2 ! w = AdjList g1 ! w @ row_contrib m i js w"
      by blast
    have "\<forall>w < length (AdjList g). AdjList g2 ! w = AdjList g ! w @ row_contrib m i (j # js) w"
    proof (intro allI impI)
      fix w assume w: "w < length (AdjList g)"
      have jn: "j \<notin> set js" "0 \<le> j" "0 \<le> i" using Cons.prems by (auto simp: in_range_def)
      show "AdjList g2 ! w = AdjList g ! w @ row_contrib m i (j # js) w"
        using g2(4) g1(3,4) w True jn by (auto simp: row_contrib_def)
    qed
    with g1 g2 True show ?thesis by auto
  next
    case False
    have "in_range (AdjList g) i" "\<forall>j \<in> set js. in_range (AdjList g) j" "distinct js"
      using Cons.prems by auto
    from Cons.IH[OF this] obtain g2 where
      g2: "build_row m i js g = Inr g2" "Vertices g2 = Vertices g" "length (AdjList g2) = length (AdjList g)"
      "\<forall>w < length (AdjList g). AdjList g2 ! w = AdjList g ! w @ row_contrib m i js w"
      by blast
    have jn: "j \<notin> set js" "0 \<le> j" "0 \<le> i" using Cons.prems by (auto simp: in_range_def)
    have "\<forall>w < length (AdjList g). row_contrib m i (j # js) w = row_contrib m i js w"
      using False jn by (auto simp: row_contrib_def)
    with g2 False show ?thesis by auto
  qed
qed

lemma build_rows_ok:
  assumes "\<forall>i \<in> set is. in_range (AdjList g) i" "length (AdjList g) = nat sz"
  shows "\<exists>g'. build_rows m sz is g = Inr g' \<and> Vertices g' = Vertices g \<and> length (AdjList g') = length (AdjList g)
     \<and> (\<forall>w < length (AdjList g). AdjList g' ! w = AdjList g ! w @ concat (map (\<lambda>i. row_contrib m i (map int [0..<nat sz]) w) is))"
  using assms
proof (induction "is" arbitrary: g)
  case Nil
  then show ?case by simp
next
  case (Cons i "is")
  have a: "in_range (AdjList g) i" using Cons.prems by simp
  have b: "\<forall>j \<in> set (map int [0..<nat sz]). in_range (AdjList g) j"
    using Cons.prems(2) by (auto simp: in_range_def)
  have c: "distinct (map int [0..<nat sz])" by (simp add: distinct_map)
  from build_row_ok[OF a b c, of m] obtain g1 where
      g1: "build_row m i (map int [0..<nat sz]) g = Inr g1" "Vertices g1 = Vertices g" "length (AdjList g1) = length (AdjList g)"
      "\<forall>w < length (AdjList g). AdjList g1 ! w = AdjList g ! w @ row_contrib m i (map int [0..<nat sz]) w"
    by blast
  have "\<forall>i \<in> set is. in_range (AdjList g1) i" "length (AdjList g1) = nat sz"
    using Cons.prems g1(3) by (auto simp: in_range_def)
  from Cons.IH[OF this] obtain g2 where
      g2: "build_rows m sz is g1 = Inr g2" "Vertices g2 = Vertices g1" "length (AdjList g2) = length (AdjList g1)"
      "\<forall>w < length (AdjList g1). AdjList g2 ! w = AdjList g1 ! w @ concat (map (\<lambda>i. row_contrib m i (map int [0..<nat sz]) w) is)"
    by blast
  show ?case using g1 g2 by auto
qed

lemma read_int16_Some: "2 \<le> length bs \<Longrightarrow> read_int16 bs = Some (le_int16 (bs ! 0) (bs ! 1), drop 2 bs)"
  by (cases bs; cases "tl bs") auto

lemma read_int16_None: "length bs < 2 \<Longrightarrow> read_int16 bs = None"
  by (cases bs; cases "tl bs") auto

lemma read_row_char:
  "read_row i j k bs =
     (if 2 * k \<le> length bs then Inr (map (cell_at bs) [0..<k], drop (2 * k) bs)
      else Inl (MatrixReadError i (j + int (length bs div 2))))"
proof (induction k arbitrary: j bs)
  case 0
  then show ?case by simp
next
  case (Suc k)
  show ?case
  proof (cases "length bs < 2")
    case True
    then have "length bs div 2 = 0" by simp
    with True show ?thesis by (simp add: read_int16_None)
  next
    case False
    then have l: "2 \<le> length bs" by simp
    have m: "map (cell_at (drop 2 bs)) [0..<k] = map (cell_at bs) [Suc 0..<Suc k]"
      if "2 * Suc k \<le> length bs"
    proof -
      have "map (cell_at bs) [Suc 0..<Suc k] = map (cell_at bs \<circ> Suc) [0..<k]"
        by (simp only: map_Suc_upt[symmetric] map_map)
      moreover have "\<forall>x \<in> set [0..<k]. cell_at (drop 2 bs) x = (cell_at bs \<circ> Suc) x"
        using that by (auto simp: cell_at_def add.commute)
      ultimately show ?thesis by (metis map_cong)
    qed
    have d: "length bs div 2 = Suc ((length bs - 2) div 2)" using l
      by (metis One_nat_def Suc_1 add_diff_inverse_nat div_add_self2 not_less_eq_eq numeral_2_eq_2 plus_1_eq_Suc zero_neq_numeral add.commute le_add_diff_inverse2 Suc_eq_plus1 div_add_self1)
    have u: "map (cell_at bs) [0..<Suc k] = cell_at bs 0 # map (cell_at bs) [Suc 0..<Suc k]"
      by (simp only: upt_conv_Cons[of 0 "Suc k"] zero_less_Suc list.map)
    show ?thesis
    proof (cases "2 * Suc k \<le> length bs")
      case True
      then have "2 * k \<le> length (drop 2 bs)" by simp
      then show ?thesis
        using True l m[OF True] unfolding u
        by (simp add: read_int16_Some Suc.IH cell_at_def)
    next
      case False
      then have "\<not> 2 * k \<le> length (drop 2 bs)" using l by simp
      then show ?thesis
        using False l d by (simp add: read_int16_Some Suc.IH)
    qed
  qed
qed


lemma read_rows_char:
  "0 < sz \<Longrightarrow> read_rows sz i k bs =
     (if 2 * (sz * k) \<le> length bs
      then Inr (map (\<lambda>r. map (\<lambda>c. cell_at bs (r * sz + c)) [0..<sz]) [0..<k])
      else Inl (MatrixReadError (i + int ((length bs div 2) div sz)) (int ((length bs div 2) mod sz))))"
proof (induction k arbitrary: i bs)
  case 0
  then show ?case by simp
next
  case (Suc k)
  note IH = Suc.IH[OF Suc.prems]
  show ?case
  proof (cases "2 * sz \<le> length bs")
    case False
    then have "length bs div 2 < sz" by auto
    moreover have "\<not> 2 * (sz * Suc k) \<le> length bs" using False by auto
    ultimately show ?thesis using False by (simp add: read_row_char)
  next
    case True
    let ?bs' = "drop (2 * sz) bs"
    have row: "read_row i 0 sz bs = Inr (map (cell_at bs) [0..<sz], ?bs')"
      using True by (simp add: read_row_char)
    show ?thesis
    proof (cases "2 * (sz * Suc k) \<le> length bs")
      case T: True
      then have le: "2 * (sz * k) \<le> length ?bs'" by (simp add: algebra_simps)
      have c: "cell_at ?bs' (r * sz + c) = cell_at bs (Suc r * sz + c)" 
        if "r < k" "c < sz" for r c
      proof -
        have "r * sz + c < Suc r * sz" using that(2) by simp
        also have "\<dots> \<le> k * sz" using that(1) by (intro mult_le_mono1) simp
        finally have "r * sz + c < sz * k" by (simp add: mult.commute)
        moreover have "a < b \<Longrightarrow> 2 * b \<le> L \<Longrightarrow> 2 * a + 1 < L" for a b L :: nat by arith
        ultimately have "2 * (r * sz + c) + 1 < length ?bs'" using le by blast
        then show ?thesis by (simp add: cell_at_def algebra_simps)
      qed
      have rest: "map (\<lambda>r. map (\<lambda>c. cell_at ?bs' (r * sz + c)) [0..<sz]) [0..<k]
            = map (\<lambda>r. map (\<lambda>c. cell_at bs (Suc r * sz + c)) [0..<sz]) [0..<k]"
        using c by (intro map_cong refl) auto
      have all: "map (\<lambda>r. map (\<lambda>c. cell_at bs (r * sz + c)) [0..<sz]) [0..<Suc k]
            = map (cell_at bs) [0..<sz] # map (\<lambda>r. map (\<lambda>c. cell_at bs (Suc r * sz + c)) [0..<sz]) [0..<k]"
      proof -
        have "[0..<Suc k] = 0 # map Suc [0..<k]"
          by (simp only: upt_conv_Cons[of 0 "Suc k"] zero_less_Suc map_Suc_upt)
        then show ?thesis by (simp only: list.map map_map o_def mult_0 add_0 if_True)
      qed
      have "read_rows sz i (Suc k) bs = Inr (map (cell_at bs) [0..<sz] # map (\<lambda>r. map (\<lambda>c. cell_at ?bs' (r * sz + c)) [0..<sz]) [0..<k])"
        using le by (simp add: row IH del: upt_Suc)
      then show ?thesis using T unfolding all rest by simp
    next
      case F: False
      then have nle: "\<not> 2 * (sz * k) \<le> length ?bs'" using True by (simp add: algebra_simps)
      have e: "length bs div 2 = (length bs - 2 * sz) div 2 + sz"
      proof -
        have "length bs = (length bs - 2 * sz) + 2 * sz" using True by simp
        then have "length bs div 2 = ((length bs - 2 * sz) + 2 * sz) div 2" by simp
        also have "\<dots> = (length bs - 2 * sz) div 2 + sz" by simp
        finally show ?thesis .
      qed
      have d1: "(length bs div 2) div sz = Suc (((length bs - 2 * sz) div 2) div sz)"
        unfolding e using Suc.prems by (metis Suc_eq_plus1 div_add_self2 neq0_conv)
      have d2: "(length bs div 2) mod sz = ((length bs - 2 * sz) div 2) mod sz"
        unfolding e by simp
      have "read_rows sz i (Suc k) bs = Inl (MatrixReadError (i + 1 + int ((length ?bs' div 2) div sz)) (int ((length ?bs' div 2) mod sz)))"
        using nle by (simp add: row IH del: upt_Suc)
      then show ?thesis using F unfolding d1 d2 by simp
    qed
  qed
qed

lemma ReadGraph_unfold:
  "ReadGraph fs fn =
     (case fs fn of None \<Rightarrow> Inl InputOpenError
      | Some bs \<Rightarrow>
          if length bs < 2 then Inl SizeReadError
          else if file_size bs \<le> 0 then Inl (InvalidGraphSize (file_size bs))
          else if file_cells bs < nat (file_size bs) * nat (file_size bs)
            then Inl (MatrixReadError (int (file_cells bs div nat (file_size bs))) (int (file_cells bs mod nat (file_size bs))))
          else build_rows (map (\<lambda>r. map (\<lambda>c. cell_at (drop 2 bs) (r * nat (file_size bs) + c)) [0..<nat (file_size bs)]) [0..<nat (file_size bs)])
                 (file_size bs) (map int [0..<nat (file_size bs)]) (NewGraph (file_size bs)))"
proof (cases "fs fn")
  case None
  then show ?thesis by (simp add: ReadGraph_def)
next
  case (Some bs)
  show ?thesis
  proof (cases "length bs < 2")
    case True
    then show ?thesis using Some by (simp add: ReadGraph_def read_int16_None)
  next
    case False
    then have l: "2 \<le> length bs" by simp
    obtain w where w: "read_int16 bs = Some (w, drop 2 bs)" "sint w = file_size bs"
      using read_int16_Some[OF l] by (simp add: file_size_def)
    show ?thesis
    proof (cases "file_size bs \<le> 0")
      case True
      then show ?thesis using Some w l by (simp add: ReadGraph_def)
    next
      case F: False
      then have p: "0 < nat (file_size bs)" by simp
      have iff: "2 * (nat (file_size bs) * nat (file_size bs)) \<le> length bs - 2
           \<longleftrightarrow> \<not> file_cells bs < nat (file_size bs) * nat (file_size bs)"
      proof -
        have "2 * a \<le> L \<longleftrightarrow> \<not> L div 2 < a" for a L :: nat by arith
        then show ?thesis unfolding file_cells_def by blast
      qed
      have fc: "(length bs - 2) div 2 = file_cells bs" by (simp add: file_cells_def)
      show ?thesis using Some w F False
        by (simp add: ReadGraph_def read_rows_char[OF p] iff fc del: upt_Suc)
    qed
  qed
qed


lemma distinct_concat_map:
  "distinct xs \<Longrightarrow> (\<forall>x \<in> set xs. distinct (f x)) \<Longrightarrow>
   (\<forall>x \<in> set xs. \<forall>y \<in> set xs. x \<noteq> y \<longrightarrow> set (f x) \<inter> set (f y) = {}) \<Longrightarrow>
   distinct (concat (map f xs))"
  by (induction xs) auto

lemma ReadGraph_Inr:
  assumes "ReadGraph fs fn = Inr g"
  shows "\<exists>bs. fs fn = Some bs \<and> 2 \<le> length bs \<and> 0 < file_size bs
           \<and> nat (file_size bs) * nat (file_size bs) \<le> file_cells bs
           \<and> Vertices g = file_size bs \<and> length (AdjList g) = nat (file_size bs)
           \<and> (\<forall>w < nat (file_size bs). \<forall>v. v \<in> set (AdjList g ! w) \<longleftrightarrow>
                  0 \<le> v \<and> v < file_size bs \<and>
                  (int w < v \<and> matrix_entry bs (int w) v \<noteq> 0 \<or> v < int w \<and> matrix_entry bs v (int w) \<noteq> 0))
           \<and> (\<forall>w < nat (file_size bs). distinct (AdjList g ! w))"
proof -
  from assms obtain bs where bs: "fs fn = Some bs"
    by (auto simp: ReadGraph_def split: option.splits)
  let ?n = "nat (file_size bs)"
  let ?m = "map (\<lambda>r. map (\<lambda>c. cell_at (drop 2 bs) (r * ?n + c)) [0..<?n]) [0..<?n]"
  let ?cols = "map int [0..<?n]"
  from assms bs have c: "2 \<le> length bs" "0 < file_size bs" "?n * ?n \<le> file_cells bs"
    and b: "build_rows ?m (file_size bs) ?cols (NewGraph (file_size bs)) = Inr g"
    unfolding ReadGraph_unfold by (auto split: if_splits)
  have "\<forall>i \<in> set ?cols. in_range (AdjList (NewGraph (file_size bs))) i"
       "length (AdjList (NewGraph (file_size bs))) = nat (file_size bs)"
    by (auto simp: NewGraph_def in_range_def)
  from build_rows_ok[OF this, of ?m] b
  have g: "Vertices g = file_size bs" "length (AdjList g) = ?n"
    and adj: "\<forall>w < ?n. AdjList g ! w = concat (map (\<lambda>i. row_contrib ?m i ?cols w) ?cols)"
    by (auto simp: NewGraph_def)
  have m: "?m ! i ! j = matrix_entry bs (int i) (int j)" if "i < ?n" "j < ?n" for i j
    using that by (simp add: matrix_entry_def)
  have rc: "row_contrib ?m (int i) ?cols w =
      (if w = i then map int (filter (\<lambda>j. matrix_entry bs (int i) (int j) \<noteq> 0 \<and> i < j) [0..<?n])
       else if matrix_entry bs (int i) (int w) \<noteq> 0 \<and> i < w then [int i] else [])"
    if "i < ?n" "w < ?n" for i w
  proof -
    have "filter (\<lambda>j. ?m ! i ! nat j \<noteq> 0 \<and> int i < j) ?cols
        = map int (filter (\<lambda>j. matrix_entry bs (int i) (int j) \<noteq> 0 \<and> i < j) [0..<?n])"
      unfolding filter_map o_def using that(1) by (auto intro!: arg_cong[where f="map int"] filter_cong simp: matrix_entry_def simp del: upt_Suc)
    then show ?thesis using that unfolding row_contrib_def by (auto simp: matrix_entry_def simp del: upt_Suc)
  qed
  have mem: "v \<in> set (AdjList g ! w) \<longleftrightarrow>
                  0 \<le> v \<and> v < file_size bs \<and>
                  (int w < v \<and> matrix_entry bs (int w) v \<noteq> 0 \<or> v < int w \<and> matrix_entry bs v (int w) \<noteq> 0)"
    if w: "w < ?n" for w v
  proof -
    have "v \<in> set (AdjList g ! w) \<longleftrightarrow> (\<exists>i < ?n. v \<in> set (row_contrib ?m (int i) ?cols w))"
      using adj w by (auto simp del: upt_Suc)
    also have "\<dots> \<longleftrightarrow> (\<exists>i < ?n. (if w = i then \<exists>j < ?n. v = int j \<and> matrix_entry bs (int i) (int j) \<noteq> 0 \<and> i < j
               else v = int i \<and> matrix_entry bs (int i) (int w) \<noteq> 0 \<and> i < w))"
      using w by (intro ex_cong1 conj_cong refl) (auto simp: rc simp del: upt_Suc)
    also have "\<dots> \<longleftrightarrow> 0 \<le> v \<and> v < file_size bs \<and>
                  (int w < v \<and> matrix_entry bs (int w) v \<noteq> 0 \<or> v < int w \<and> matrix_entry bs v (int w) \<noteq> 0)"
      (is "?L \<longleftrightarrow> ?R")
    proof
      assume ?L then show ?R using w by (auto split: if_splits)
    next
      assume r: ?R
      then have v: "nat v < ?n" "int (nat v) = v" by auto
      from r show ?L
      proof (elim conjE disjE)
        assume "int w < v" "matrix_entry bs (int w) v \<noteq> 0"
        then have "nat v < ?n \<and> v = int (nat v) \<and> matrix_entry bs (int w) (int (nat v)) \<noteq> 0 \<and> w < nat v"
          using v by auto
        then have "\<exists>j < ?n. v = int j \<and> matrix_entry bs (int w) (int j) \<noteq> 0 \<and> w < j" by blast
        then show ?L using w by (intro exI[of _ w]) simp
      next
        assume "v < int w" "matrix_entry bs v (int w) \<noteq> 0"
        then show ?L using w v by (intro exI[of _ "nat v"]) auto
      qed
    qed
    finally show ?thesis .
  qed
  have dist: "distinct (AdjList g ! w)" if w: "w < ?n" for w
  proof -
    have "distinct (concat (map (\<lambda>i. row_contrib ?m i ?cols w) ?cols))"
    proof (rule distinct_concat_map)
      show "distinct ?cols" by (simp add: distinct_map)
      show "\<forall>x\<in>set ?cols. distinct (row_contrib ?m x ?cols w)"
        using w by (auto simp: rc distinct_map simp del: upt_Suc)
      show "\<forall>x\<in>set ?cols. \<forall>y\<in>set ?cols. x \<noteq> y \<longrightarrow>
          set (row_contrib ?m x ?cols w) \<inter> set (row_contrib ?m y ?cols w) = {}"
        using w by (auto simp: rc simp del: upt_Suc)
    qed
    then show ?thesis using adj w by simp
  qed
  show ?thesis using bs c g mem dist by blast
qed

lemma ReadGraph_simple:
  assumes "ReadGraph fs fn = Inr g"
  shows "simple_graph g"
proof -
  from ReadGraph_Inr[OF assms] obtain bs where
    p: "0 < file_size bs" "Vertices g = file_size bs" "length (AdjList g) = nat (file_size bs)"
    and mem: "\<And>w v. w < nat (file_size bs) \<Longrightarrow> v \<in> set (AdjList g ! w) \<longleftrightarrow>
                  0 \<le> v \<and> v < file_size bs \<and>
                  (int w < v \<and> matrix_entry bs (int w) v \<noteq> 0 \<or> v < int w \<and> matrix_entry bs v (int w) \<noteq> 0)"
    and dist: "\<And>w. w < nat (file_size bs) \<Longrightarrow> distinct (AdjList g ! w)"
    by blast
  have "in_range (AdjList g) v \<and> int u \<in> set (AdjList g ! nat v)"
    if "u < nat (file_size bs)" "v \<in> set (AdjList g ! u)" for u v
  proof -
    from that mem[of u v] have v: "0 \<le> v" "v < file_size bs"
      "int u < v \<and> matrix_entry bs (int u) v \<noteq> 0 \<or> v < int u \<and> matrix_entry bs v (int u) \<noteq> 0" by auto
    then have "nat v < nat (file_size bs)" by auto
    from mem[OF this, of "int u"] v that(1) show ?thesis using p by (auto simp: in_range_def)
  qed
  moreover have "int u \<notin> set (AdjList g ! u)" if "u < nat (file_size bs)" for u
    using mem[OF that, of "int u"] by simp
  ultimately show ?thesis using p dist by (auto simp: simple_graph_def graph_inv_def)
qed

lemma AddEdge_Inr:
  assumes "AddEdge g u v = Inr g'"
  shows "in_range (AdjList g) u" "in_range (AdjList g) v"
  using assms by (auto simp: AddEdge_def Let_def in_range_def split: if_splits)

lemma AddEdge_graph_inv:
  assumes inv: "graph_inv g" and add: "AddEdge g u v = Inr g'"
  shows "graph_inv g'"
proof -
  note r = AddEdge_Inr[OF add]
  from AddEdge_ok[OF r] add have
    g': "Vertices g' = Vertices g" "length (AdjList g') = length (AdjList g)"
    and adj: "\<And>w. w < length (AdjList g) \<Longrightarrow> AdjList g' ! w = AdjList g ! w @ (if w = nat u then [v] else []) @ (if w = nat v then [u] else [])"
    by auto
  have "in_range (AdjList g') x \<and> int w \<in> set (AdjList g' ! nat x)"
    if w: "w < length (AdjList g)" and x: "x \<in> set (AdjList g' ! w)" for w x
  proof -
    from x adj[OF w] consider "x \<in> set (AdjList g ! w)" | "w = nat u" "x = v" | "w = nat v" "x = u"
      by (auto split: if_splits)
    then show ?thesis
    proof cases
      case 1
      with inv w have a: "in_range (AdjList g) x" "int w \<in> set (AdjList g ! nat x)"
        by (auto simp: graph_inv_def)
      then have "nat x < length (AdjList g)" by (simp add: in_range_nat)
      from adj[OF this] a g' show ?thesis by (auto simp: in_range_def)
    next
      case 2
      from r have "nat v < length (AdjList g)" "0 \<le> u" by (auto simp: in_range_nat)
      from adj[OF this(1)] this(2) 2 r g' show ?thesis by (auto simp: in_range_def)
    next
      case 3
      from r have "nat u < length (AdjList g)" "0 \<le> v" by (auto simp: in_range_nat)
      from adj[OF this(1)] this(2) 3 r g' show ?thesis by (auto simp: in_range_def)
    qed
  qed
  then show ?thesis using inv g' by (auto simp: graph_inv_def)
qed

section \<open>Claims about the loader\<close>

text \<open>
  Claim C5.  Every graph that \<open>ReadGraph\<close> returns satisfies the adjacency invariant
  (positive vertex count, symmetric adjacency lists, every stored id in \<open>[0, N)\<close>), and
  every call of \<open>AddEdge\<close> that returns preserves it.
\<close>
theorem adjacency_invariant:
  "(ReadGraph fs fn = Inr g \<longrightarrow> graph_inv g) \<and>
   (graph_inv g \<and> AddEdge g u v = Inr g' \<longrightarrow> graph_inv g')"
  using ReadGraph_simple[of fs fn g] AddEdge_graph_inv[of g u v g']
  by (auto simp: simple_graph_def)

theorem adjacency_invariant_witness:
  "ReadGraph (\<lambda>_. Some [3,0, 0,0,1,0,0,0, 1,0,0,0,1,0, 0,0,1,0,0,0]) ''g.bin''
     = Inr \<lparr>Vertices = 3, AdjList = [[1], [0, 2], [1]]\<rparr> \<and>
   graph_inv \<lparr>Vertices = 3, AdjList = [[1], [0, 2], [1]]\<rparr> \<and>
   AddEdge \<lparr>Vertices = 3, AdjList = [[1], [0, 2], [1]]\<rparr> 0 2
     = Inr \<lparr>Vertices = 3, AdjList = [[1, 2], [0, 2], [1, 0]]\<rparr> \<and>
   graph_inv \<lparr>Vertices = 3, AdjList = [[1, 2], [0, 2], [1, 0]]\<rparr>"
proof -
  let ?fs = "\<lambda>_::string. Some [3,0, 0,0,1,0,0,0, 1,0,0,0,1,0, 0,0,1,0,0,0 :: byte]"
  let ?g = "\<lparr>Vertices = 3, AdjList = [[1], [0, 2], [1]]\<rparr>"
  let ?g' = "\<lparr>Vertices = 3, AdjList = [[1, 2], [0, 2], [1, 0]]\<rparr>"
  have r: "ReadGraph ?fs ''g.bin'' = Inr ?g" by code_simp
  have a: "AddEdge ?g 0 2 = Inr ?g'" by code_simp
  from adjacency_invariant[of ?fs "''g.bin''" ?g 0 2 ?g'] r a show ?thesis by simp
qed

text \<open>
  Claim C6.  \<open>ReadGraph\<close> returns an error, and no graph, exactly when the file cannot
  be opened, or the two bytes of the size cannot be read, or the size is not positive, or
  the stream ends inside the \<open>N \<times> N\<close> matrix; in the last case the error carries the
  row and the column of the first cell that could not be read.  Otherwise it returns
  the graph of \<open>N\<close> vertices whose adj_rel are those of the upper triangle of the matrix.
\<close>
theorem ReadGraph_error_cases:
  "(ReadGraph fs fn = Inl e \<longleftrightarrow>
      (case fs fn of
         None \<Rightarrow> e = InputOpenError
       | Some bs \<Rightarrow>
           if length bs < 2 then e = SizeReadError
           else if file_size bs \<le> 0 then e = InvalidGraphSize (file_size bs)
           else file_cells bs < nat (file_size bs) * nat (file_size bs) \<and>
                e = MatrixReadError (int (file_cells bs div nat (file_size bs)))
                                    (int (file_cells bs mod nat (file_size bs))))) \<and>
   (ReadGraph fs fn = Inr g \<longrightarrow>
      (\<exists>bs. fs fn = Some bs \<and> Vertices g = file_size bs \<and>
            int (length (AdjList g)) = file_size bs \<and>
            (\<forall>i \<in> set [0..<length (AdjList g)]. \<forall>j.
               j \<in> set (AdjList g ! i) \<longleftrightarrow>
                 0 \<le> j \<and> j < file_size bs \<and>
                 (int i < j \<and> matrix_entry bs (int i) j \<noteq> 0 \<or>
                  j < int i \<and> matrix_entry bs j (int i) \<noteq> 0))))"
proof (intro conjI impI)
  show "ReadGraph fs fn = Inl e \<longleftrightarrow>
      (case fs fn of
         None \<Rightarrow> e = InputOpenError
       | Some bs \<Rightarrow>
           if length bs < 2 then e = SizeReadError
           else if file_size bs \<le> 0 then e = InvalidGraphSize (file_size bs)
           else file_cells bs < nat (file_size bs) * nat (file_size bs) \<and>
                e = MatrixReadError (int (file_cells bs div nat (file_size bs)))
                                    (int (file_cells bs mod nat (file_size bs))))"
  proof (cases "fs fn")
    case None
    then show ?thesis by (auto simp: ReadGraph_unfold)
  next
    case (Some bs)
    let ?n = "nat (file_size bs)"
    let ?m = "map (\<lambda>r. map (\<lambda>c. cell_at (drop 2 bs) (r * ?n + c)) [0..<?n]) [0..<?n]"
    have "\<forall>i \<in> set (map int [0..<?n]). in_range (AdjList (NewGraph (file_size bs))) i"
       "length (AdjList (NewGraph (file_size bs))) = nat (file_size bs)"
      by (auto simp: NewGraph_def in_range_def)
    from build_rows_ok[OF this, of ?m]
    obtain g' where "build_rows ?m (file_size bs) (map int [0..<?n]) (NewGraph (file_size bs)) = Inr g'"
      by blast
    then show ?thesis using Some unfolding ReadGraph_unfold by (auto simp del: upt_Suc)
  qed
next
  assume "ReadGraph fs fn = Inr g"
  from ReadGraph_Inr[OF this]
  show "\<exists>bs. fs fn = Some bs \<and> Vertices g = file_size bs \<and>
            int (length (AdjList g)) = file_size bs \<and>
            (\<forall>i \<in> set [0..<length (AdjList g)]. \<forall>j.
               j \<in> set (AdjList g ! i) \<longleftrightarrow>
                 0 \<le> j \<and> j < file_size bs \<and>
                 (int i < j \<and> matrix_entry bs (int i) j \<noteq> 0 \<or>
                  j < int i \<and> matrix_entry bs j (int i) \<noteq> 0))"
    by (elim exE conjE, intro exI conjI) (assumption, simp_all)
qed

theorem ReadGraph_error_cases_witness:
  "ReadGraph (\<lambda>_. Some [2,0, 0,0,1,0, 1,0,0]) ''g.bin'' = Inl (MatrixReadError 1 1) \<and>
   ReadGraph (\<lambda>_. Some [0,128]) ''g.bin'' = Inl (InvalidGraphSize (- 32768)) \<and>
   ReadGraph (\<lambda>_. Some [7]) ''g.bin'' = Inl SizeReadError \<and>
   ReadGraph (\<lambda>_. None) ''g.bin'' = Inl InputOpenError"
proof -
  have fs: "file_size [2,0, 0,0,1,0, 1,0,0] = 2" "file_cells [2,0, 0,0,1,0, 1,0,0] = 3"
    "file_size [0,128] = - 32768"
    by (simp_all add: file_size_def file_cells_def le_int16_def)
  show ?thesis
    using ReadGraph_error_cases[of "\<lambda>_. Some [2,0, 0,0,1,0, 1,0,0]" "''g.bin''" "MatrixReadError 1 1"]
      ReadGraph_error_cases[of "\<lambda>_. Some [0,128]" "''g.bin''" "InvalidGraphSize (- 32768)"]
      ReadGraph_error_cases[of "\<lambda>_. Some [7]" "''g.bin''" "SizeReadError"]
      ReadGraph_error_cases[of "\<lambda>_. None" "''g.bin''" "InputOpenError"]
    by (simp add: fs)
qed

text \<open>
  Claim C7.  In a graph returned by \<open>ReadGraph\<close>, \<open>j\<close> is a neighbour of \<open>i\<close> exactly
  when the matrix entry at the smaller of the two as row and the larger as column is
  nonzero: for \<open>i < j\<close> the edge is present iff entry \<open>(i, j)\<close> is nonzero, and the
  entries on or below the diagonal produce no edge.
\<close>
theorem ReadGraph_edges:
  assumes "fs fn = Some bs" and "ReadGraph fs fn = Inr g" and "0 \<le> i" and "i < Vertices g"
  shows "j \<in> set (AdjList g ! nat i) \<longleftrightarrow>
           0 \<le> j \<and> j < Vertices g \<and>
           (i < j \<and> matrix_entry bs i j \<noteq> 0 \<or> j < i \<and> matrix_entry bs j i \<noteq> 0)"
proof -
  from ReadGraph_Inr[OF assms(2)] assms(1) have
    p: "Vertices g = file_size bs"
    and mem: "\<And>w v. w < nat (file_size bs) \<Longrightarrow> v \<in> set (AdjList g ! w) \<longleftrightarrow>
                  0 \<le> v \<and> v < file_size bs \<and>
                  (int w < v \<and> matrix_entry bs (int w) v \<noteq> 0 \<or> v < int w \<and> matrix_entry bs v (int w) \<noteq> 0)"
    by auto
  have "nat i < nat (file_size bs)" using assms(3,4) p by simp
  from mem[OF this, of j] assms(3) p show ?thesis by simp
qed

theorem ReadGraph_edges_witness:
  "ReadGraph (\<lambda>_. Some [2,0, 1,0,1,0, 0,0,1,0]) ''g.bin'' = Inr \<lparr>Vertices = 2, AdjList = [[1], [0]]\<rparr> \<and>
   matrix_entry [2,0, 1,0,1,0, 0,0,1,0] 0 0 = 1 \<and>
   matrix_entry [2,0, 1,0,1,0, 0,0,1,0] 0 1 = 1 \<and>
   matrix_entry [2,0, 1,0,1,0, 0,0,1,0] 1 0 = 0 \<and>
   (1 \<in> set (AdjList \<lparr>Vertices = 2, AdjList = [[1], [0]]\<rparr> ! nat 0)) \<and>
   (0 \<notin> set (AdjList \<lparr>Vertices = 2, AdjList = [[1], [0]]\<rparr> ! nat 0))"
proof -
  let ?bs = "[2,0, 1,0,1,0, 0,0,1,0] :: byte list"
  let ?g = "\<lparr>Vertices = 2, AdjList = [[1], [0]]\<rparr>"
  have r: "ReadGraph (\<lambda>_. Some ?bs) ''g.bin'' = Inr ?g" by code_simp
  have m: "matrix_entry ?bs 0 0 = 1" "matrix_entry ?bs 0 1 = 1" "matrix_entry ?bs 1 0 = 0"
    by (simp_all add: matrix_entry_def file_size_def cell_at_def le_int16_def)
  from ReadGraph_edges[of "\<lambda>_. Some ?bs" "''g.bin''" ?bs ?g 0 1, OF refl r]
       ReadGraph_edges[of "\<lambda>_. Some ?bs" "''g.bin''" ?bs ?g 0 0, OF refl r]
  show ?thesis using r m by simp
qed

section \<open>Connected components: correctness\<close>

lemma marked_update: "in_range vis u \<Longrightarrow> marked (vis[nat u := True]) = insert u (marked vis)"
  by (auto simp: marked_def in_range_def nth_list_update nat_eq_iff)

lemma graph_invD:
  assumes "graph_inv g" "in_range (AdjList g) u" "v \<in> set (AdjList g ! nat u)"
  shows "in_range (AdjList g) v" "u \<in> set (AdjList g ! nat v)"
proof -
  from assms(2) have "nat u \<in> set [0..<length (AdjList g)]" "int (nat u) = u"
    by (auto simp: in_range_def)
  with assms(1,3) show "in_range (AdjList g) v" "u \<in> set (AdjList g ! nat v)"
    unfolding graph_inv_def by metis+
qed

lemma adj_rel_in_range: "graph_inv g \<Longrightarrow> (u, v) \<in> adj_rel g \<Longrightarrow> in_range (AdjList g) u \<and> in_range (AdjList g) v"
  using graph_invD(1) by (auto simp: adj_rel_def)

lemma adj_rel_sym: "graph_inv g \<Longrightarrow> (u, v) \<in> adj_rel g \<Longrightarrow> (v, u) \<in> adj_rel g"
  using graph_invD by (auto simp: adj_rel_def)

lemma adj_rel_adj: "in_range (AdjList g) u \<Longrightarrow> adj_rel g `` {u} = set (AdjList g ! nat u)"
  by (auto simp: adj_rel_def)

lemma cc_post_trans:
  "cc_post g s s1 new1 \<Longrightarrow> cc_post g s1 s' new2 \<Longrightarrow> cc_post g s s' (new1 @ new2)"
proof -
  assume a: "cc_post g s s1 new1" and b: "cc_post g s1 s' new2"
  from a have a1: "length (cc_visited s1) = length (cc_visited s)"
    and a2: "cc_component s1 = cc_component s @ new1" and a3: "distinct new1"
    and a4: "marked (cc_visited s1) = marked (cc_visited s) \<union> set new1"
    and a5: "marked (cc_visited s) \<inter> set new1 = {}"
    and a6: "\<forall>w \<in> set new1. adj_rel g `` {w} \<subseteq> marked (cc_visited s1)"
    unfolding cc_post_def by blast+
  from b have b1: "length (cc_visited s') = length (cc_visited s1)"
    and b2: "cc_component s' = cc_component s1 @ new2" and b3: "distinct new2"
    and b4: "marked (cc_visited s') = marked (cc_visited s1) \<union> set new2"
    and b5: "marked (cc_visited s1) \<inter> set new2 = {}"
    and b6: "\<forall>w \<in> set new2. adj_rel g `` {w} \<subseteq> marked (cc_visited s')"
    unfolding cc_post_def by blast+
  show ?thesis unfolding cc_post_def
  proof (intro conjI)
    show "length (cc_visited s') = length (cc_visited s)" using a1 b1 by simp
    show "cc_component s' = cc_component s @ new1 @ new2" using a2 b2 by simp
    show "distinct (new1 @ new2)" using a3 b3 a4 b5 by auto
    show "marked (cc_visited s') = marked (cc_visited s) \<union> set (new1 @ new2)" using a4 b4 by auto
    show "marked (cc_visited s) \<inter> set (new1 @ new2) = {}" using a5 b5 a4 by auto
    show "\<forall>w\<in>set (new1 @ new2). adj_rel g `` {w} \<subseteq> marked (cc_visited s')"
      using a6 b6 b4 by auto
  qed
qed

lemma cc_dfs_loop_post:
  shows "cc_dfs d g u s = Inr s' \<Longrightarrow> length (cc_visited s) = length (AdjList g) \<Longrightarrow> u \<notin> marked (cc_visited s) \<Longrightarrow>
           \<exists>new. cc_post g s s' new \<and> u \<in> set new \<and> (\<forall>w \<in> set new. (u, w) \<in> (adj_rel g)\<^sup>*)"
    and "cc_loop d g vs s = Inr s' \<Longrightarrow> length (cc_visited s) = length (AdjList g) \<Longrightarrow>
           \<exists>new. cc_post g s s' new \<and> set vs \<subseteq> marked (cc_visited s') \<and>
                 (\<forall>w \<in> set new. \<exists>v \<in> set vs. (v, w) \<in> (adj_rel g)\<^sup>*)"
proof (induction d g u s and d g vs s arbitrary: s' and s' rule: cc_dfs_cc_loop.induct)
  case (1 g u s)
  then show ?case by simp
next
  case (2 d g u s)
  let ?s1 = "s\<lparr>cc_visited := (cc_visited s)[nat u := True], cc_component := cc_component s @ [u]\<rparr>"
  from "2.prems"(1) have r: "in_range (cc_visited s) u" "in_range (AdjList g) u"
    and l: "cc_loop d g (AdjList g ! nat u) ?s1 = Inr s'"
    by (auto split: if_splits)
  have len: "length (cc_visited ?s1) = length (AdjList g)" using "2.prems"(2) by simp
  from "2.IH"[OF _ _ l len] r obtain new where
    p: "cc_post g ?s1 s' new" and sub: "set (AdjList g ! nat u) \<subseteq> marked (cc_visited s')"
    and reach: "\<forall>w \<in> set new. \<exists>v \<in> set (AdjList g ! nat u). (v, w) \<in> (adj_rel g)\<^sup>*"
    by auto
  have m1: "marked ((cc_visited s)[nat u := True]) = insert u (marked (cc_visited s))"
    using r by (simp add: marked_update)
  have "cc_post g s s' (u # new)"
    unfolding cc_post_def
  proof (intro conjI)
    show "\<forall>w\<in>set (u # new). adj_rel g `` {w} \<subseteq> marked (cc_visited s')"
    proof -
      from p have "\<forall>w \<in> set new. adj_rel g `` {w} \<subseteq> marked (cc_visited s')"
        unfolding cc_post_def by blast
      moreover have "adj_rel g `` {u} \<subseteq> marked (cc_visited s')"
        using sub r by (simp only: adj_rel_adj)
      ultimately show ?thesis by simp
    qed
  qed (use p "2.prems"(3) in \<open>auto simp: cc_post_def m1\<close>)
  moreover have "\<forall>w \<in> set (u # new). (u, w) \<in> (adj_rel g)\<^sup>*"
  proof
    fix w assume "w \<in> set (u # new)"
    then consider "w = u" | "w \<in> set new" by auto
    then show "(u, w) \<in> (adj_rel g)\<^sup>*"
    proof cases
      case 1 then show ?thesis by simp
    next
      case 2
      with reach obtain v where "v \<in> set (AdjList g ! nat u)" "(v, w) \<in> (adj_rel g)\<^sup>*" by blast
      moreover then have "(u, v) \<in> adj_rel g" using r by (simp add: adj_rel_def)
      ultimately show ?thesis by (meson converse_rtrancl_into_rtrancl)
    qed
  qed
  ultimately show ?case by (intro exI[of _ "u # new"]) simp
next
  case (3 d g s)
  then show ?case by (auto simp: cc_post_def)
next
  case (4 d g v vs s)
  from "4.prems"(1) have r: "in_range (cc_visited s) v" by (auto split: if_splits)
  show ?case
  proof (cases "cc_visited s ! nat v")
    case True
    with "4.prems"(1) r have l: "cc_loop d g vs s = Inr s'" by simp
    from "4.IH"(3)[OF _ _ l "4.prems"(2)] r True obtain new where
      p: "cc_post g s s' new" "set vs \<subseteq> marked (cc_visited s')"
       "\<forall>w \<in> set new. \<exists>v \<in> set vs. (v, w) \<in> (adj_rel g)\<^sup>*" by auto
    have "v \<in> marked (cc_visited s')" using p(1) r True by (auto simp: cc_post_def marked_def)
    with p show ?thesis by (intro exI[of _ new]) auto
  next
    case False
    with "4.prems"(1) r obtain s1 where
      d: "cc_dfs d g v s = Inr s1" and l: "cc_loop d g vs s1 = Inr s'"
      by (auto split: sum.splits)
    have nv: "v \<notin> marked (cc_visited s)" using False by (simp add: marked_def)
    from "4.IH"(1)[OF _ _ d "4.prems"(2) nv] r False obtain new1 where
      p1: "cc_post g s s1 new1" "v \<in> set new1" "\<forall>w \<in> set new1. (v, w) \<in> (adj_rel g)\<^sup>*" by auto
    have len: "length (cc_visited s1) = length (AdjList g)" using p1(1) "4.prems"(2) by (simp add: cc_post_def)
    from "4.IH"(2)[OF _ _ d l len] r False obtain new2 where
      p2: "cc_post g s1 s' new2" "set vs \<subseteq> marked (cc_visited s')"
        "\<forall>w \<in> set new2. \<exists>v \<in> set vs. (v, w) \<in> (adj_rel g)\<^sup>*" by auto
    have "cc_post g s s' (new1 @ new2)"
      using p1(1) p2(1) by (rule cc_post_trans)
    moreover have "set (v # vs) \<subseteq> marked (cc_visited s')"
      using p1(1,2) p2(1,2) unfolding cc_post_def by auto
    moreover have "\<forall>w \<in> set (new1 @ new2). \<exists>x \<in> set (v # vs). (x, w) \<in> (adj_rel g)\<^sup>*"
      using p1(3) p2(3) by auto
    ultimately show ?thesis by blast
  qed
qed

lemma marked_range: "marked vis \<subseteq> {0..<int (length vis)}"
  by (auto simp: marked_def in_range_def)

lemma cc_progress:
  shows "graph_inv g \<Longrightarrow> length (cc_visited s) = length (AdjList g) \<Longrightarrow> in_range (AdjList g) u \<Longrightarrow>
         u \<notin> marked (cc_visited s) \<Longrightarrow>
         card ({0..<int (length (AdjList g))} - marked (cc_visited s)) \<le> d \<Longrightarrow>
         \<exists>s'. cc_dfs d g u s = Inr s'"
    and "graph_inv g \<Longrightarrow> length (cc_visited s) = length (AdjList g) \<Longrightarrow> \<forall>v \<in> set vs. in_range (AdjList g) v \<Longrightarrow>
         card ({0..<int (length (AdjList g))} - marked (cc_visited s)) \<le> d \<Longrightarrow>
         \<exists>s'. cc_loop d g vs s = Inr s'"
proof (induction d g u s and d g vs s rule: cc_dfs_cc_loop.induct)
  case (1 g u s)
  have "u \<in> {0..<int (length (AdjList g))} - marked (cc_visited s)"
    using "1.prems"(3,4) by (auto simp: in_range_def)
  moreover have "finite ({0..<int (length (AdjList g))} - marked (cc_visited s))" by simp
  ultimately have "card ({0..<int (length (AdjList g))} - marked (cc_visited s)) \<noteq> 0"
    by (metis card_eq_0_iff empty_iff)
  with "1.prems"(5) show ?case by simp
next
  case (2 d g u s)
  note inv = "2.prems"(1)
  let ?s1 = "s\<lparr>cc_visited := (cc_visited s)[nat u := True], cc_component := cc_component s @ [u]\<rparr>"
  let ?S = "{0..<int (length (AdjList g))}"
  have r: "in_range (cc_visited s) u" "in_range (AdjList g) u"
    using "2.prems"(2,3) by (auto simp: in_range_def)
  have m1: "marked (cc_visited ?s1) = insert u (marked (cc_visited s))"
    using r by (simp add: marked_update)
  have uin: "u \<in> ?S - marked (cc_visited s)"
    using "2.prems"(3,4) by (auto simp: in_range_def)
  have "?S - marked (cc_visited ?s1) = (?S - marked (cc_visited s)) - {u}"
    unfolding m1 by auto
  then have "card (?S - marked (cc_visited ?s1)) = card (?S - marked (cc_visited s)) - 1"
    using uin by (simp add: card_Diff_singleton)
  moreover have "card (?S - marked (cc_visited s)) \<noteq> 0"
    using uin by (metis card_eq_0_iff empty_iff finite_Diff finite_atLeastLessThan_int)
  ultimately have c: "card (?S - marked (cc_visited ?s1)) \<le> d" using "2.prems"(5) by simp
  have len: "length (cc_visited ?s1) = length (AdjList g)" using "2.prems"(2) by simp
  have adj: "\<forall>v \<in> set (AdjList g ! nat u). in_range (AdjList g) v"
    using graph_invD(1)[OF inv r(2)] by blast
  from "2.IH"[OF _ _ inv len adj c] r obtain s' where "cc_loop d g (AdjList g ! nat u) ?s1 = Inr s'"
    by auto
  then show ?case using r by simp
next
  case (3 d g s)
  then show ?case by simp
next
  case (4 d g v vs s)
  note inv = "4.prems"(1)
  have r: "in_range (cc_visited s) v" "in_range (AdjList g) v"
    using "4.prems"(2,3) by (auto simp: in_range_def)
  show ?case
  proof (cases "cc_visited s ! nat v")
    case True
    from "4.IH"(3)[OF _ _ inv "4.prems"(2) _ "4.prems"(4)] r True "4.prems"(3)
    show ?thesis by simp
  next
    case False
    then have nv: "v \<notin> marked (cc_visited s)" by (simp add: marked_def)
    from "4.IH"(1)[OF _ _ inv "4.prems"(2) r(2) nv "4.prems"(4)] r False
    obtain s1 where d: "cc_dfs d g v s = Inr s1" by auto
    from cc_dfs_loop_post(1)[OF d "4.prems"(2) nv] obtain new where
      p: "cc_post g s s1 new" by blast
    then have len: "length (cc_visited s1) = length (AdjList g)"
      and sub: "marked (cc_visited s) \<subseteq> marked (cc_visited s1)"
      using "4.prems"(2) by (auto simp: cc_post_def)
    have "card ({0..<int (length (AdjList g))} - marked (cc_visited s1))
            \<le> card ({0..<int (length (AdjList g))} - marked (cc_visited s))"
      using sub by (intro card_mono) auto
    with "4.prems"(4) have c: "card ({0..<int (length (AdjList g))} - marked (cc_visited s1)) \<le> d"
      by simp
    from "4.IH"(2)[OF _ _ d inv len _ c] r False "4.prems"(3)
    obtain s' where "cc_loop d g vs s1 = Inr s'" by auto
    then show ?thesis using d r False by simp
  qed
qed

lemma sym_adj_rel: "graph_inv g \<Longrightarrow> sym (adj_rel g)"
  by (auto intro!: symI adj_rel_sym)

lemma reach_sym:
  assumes "graph_inv g" and "(a, b) \<in> (adj_rel g)\<^sup>*"
  shows "(b, a) \<in> (adj_rel g)\<^sup>*"
  using assms sym_rtrancl[OF sym_adj_rel] by (meson symD)

lemma closed_reach:
  assumes "(u, v) \<in> E\<^sup>*" "u \<in> S" "\<forall>w \<in> S. E `` {w} \<subseteq> S"
  shows "v \<in> S"
  using assms by (induction rule: rtrancl_induct) auto

lemma cc_inv_closed:
  assumes "cc_inv g vis comps" "w \<in> marked vis" "(w, x) \<in> (adj_rel g)\<^sup>*"
  shows "x \<in> marked vis"
proof -
  from assms(1,2) obtain c where c: "c \<in> set comps" "w \<in> set c"
    unfolding cc_inv_def by (metis UN_E set_concat)
  with assms(1,3) have "x \<in> set c" unfolding cc_inv_def by blast
  with c(1) assms(1) show ?thesis unfolding cc_inv_def by auto
qed

lemma cc_roots_ok:
  assumes inv: "graph_inv g" and d: "length (AdjList g) \<le> d"
  shows "cc_inv g vis comps \<Longrightarrow> \<forall>u \<in> set us. in_range (AdjList g) u \<Longrightarrow>
     \<exists>vis' comps'. cc_roots d g us (vis, comps) = Inr (vis', comps') \<and> cc_inv g vis' comps' \<and>
        set us \<subseteq> marked vis' \<and> marked vis \<subseteq> marked vis'"
proof (induction us arbitrary: vis comps)
  case Nil
  then show ?case by simp
next
  case (Cons u us)
  have len: "length vis = length (AdjList g)" using Cons.prems(1) by (simp add: cc_inv_def)
  have r: "in_range vis u" "in_range (AdjList g) u" using Cons.prems(2) len by (auto simp: in_range_def)
  have rest: "\<forall>u \<in> set us. in_range (AdjList g) u" using Cons.prems(2) by simp
  show ?case
  proof (cases "vis ! nat u")
    case True
    from Cons.IH[OF Cons.prems(1) rest] obtain vis' comps' where
      a: "cc_roots d g us (vis, comps) = Inr (vis', comps')" "cc_inv g vis' comps'"
         "set us \<subseteq> marked vis'" "marked vis \<subseteq> marked vis'"
      by blast
    have "u \<in> marked vis" using True r by (simp add: marked_def)
    with a show ?thesis using True r by auto
  next
    case False
    let ?s = "\<lparr>cc_visited = vis, cc_component = []\<rparr>"
    let ?S = "{0..<int (length (AdjList g))}"
    have nu: "u \<notin> marked (cc_visited ?s)" using False by (simp add: marked_def)
    have "card (?S - marked (cc_visited ?s)) \<le> card ?S" by (intro card_mono) auto
    then have c: "card (?S - marked (cc_visited ?s)) \<le> d" using d by simp
    have l: "length (cc_visited ?s) = length (AdjList g)" using len by simp
    from cc_progress(1)[OF inv l r(2) nu c] obtain s' where s': "cc_dfs d g u ?s = Inr s'" by blast
    from cc_dfs_loop_post(1)[OF s' l nu] obtain new where
      p: "cc_post g ?s s' new" and un: "u \<in> set new" and reach: "\<forall>w \<in> set new. (u, w) \<in> (adj_rel g)\<^sup>*"
      by blast
    from p have p1: "length (cc_visited s') = length vis" and p2: "cc_component s' = new"
      and p3: "distinct new" and p4: "marked (cc_visited s') = marked vis \<union> set new"
      and p5: "marked vis \<inter> set new = {}"
      and p6: "\<forall>w \<in> set new. adj_rel g `` {w} \<subseteq> marked (cc_visited s')"
      unfolding cc_post_def by auto
    have closed: "\<forall>w \<in> marked (cc_visited s'). adj_rel g `` {w} \<subseteq> marked (cc_visited s')"
    proof
      fix w assume "w \<in> marked (cc_visited s')"
      then consider "w \<in> marked vis" | "w \<in> set new" using p4 by auto
      then show "adj_rel g `` {w} \<subseteq> marked (cc_visited s')"
      proof cases
        case 1
        then have "adj_rel g `` {w} \<subseteq> marked vis"
          using cc_inv_closed[OF Cons.prems(1)] by blast
        then show ?thesis using p4 by auto
      next
        case 2 then show ?thesis using p6 by blast
      qed
    qed
    have new_eq: "v \<in> set new \<longleftrightarrow> (u, v) \<in> (adj_rel g)\<^sup>*" for v
    proof
      assume "v \<in> set new" then show "(u, v) \<in> (adj_rel g)\<^sup>*" using reach by blast
    next
      assume uv: "(u, v) \<in> (adj_rel g)\<^sup>*"
      have "u \<in> marked (cc_visited s')" using un p4 by auto
      from closed_reach[OF uv this closed] have "v \<in> marked vis \<union> set new" using p4 by simp
      moreover have "v \<notin> marked vis"
      proof
        assume "v \<in> marked vis"
        from cc_inv_closed[OF Cons.prems(1) this reach_sym[OF inv uv]] un p5 show False by auto
      qed
      ultimately show "v \<in> set new" by simp
    qed
    have cls: "v \<in> set new \<longleftrightarrow> (w, v) \<in> (adj_rel g)\<^sup>*" if "w \<in> set new" for w v
    proof -
      from that have uw: "(u, w) \<in> (adj_rel g)\<^sup>*" using new_eq by simp
      then have wu: "(w, u) \<in> (adj_rel g)\<^sup>*" by (rule reach_sym[OF inv])
      show ?thesis using uw wu new_eq by (meson rtrancl_trans)
    qed
    have inv': "cc_inv g (cc_visited s') (comps @ [cc_component s'])"
      unfolding cc_inv_def
    proof (intro conjI)
      show "length (cc_visited s') = length (AdjList g)" using p1 len by simp
      show "distinct (concat (comps @ [cc_component s']))"
        using Cons.prems(1) p2 p3 p5 unfolding cc_inv_def by auto
      show "set (concat (comps @ [cc_component s'])) = marked (cc_visited s')"
        using Cons.prems(1) p2 p4 unfolding cc_inv_def by auto
      show "[] \<notin> set (comps @ [cc_component s'])"
        using Cons.prems(1) p2 un unfolding cc_inv_def by auto
      show "\<forall>c\<in>set (comps @ [cc_component s']). \<forall>u\<in>set c. \<forall>v. (v \<in> set c) = ((u, v) \<in> (adj_rel g)\<^sup>*)"
        using Cons.prems(1) p2 cls unfolding cc_inv_def by auto
    qed
    from Cons.IH[OF inv' rest] obtain vis' comps' where
      a: "cc_roots d g us (cc_visited s', comps @ [cc_component s']) = Inr (vis', comps')" "cc_inv g vis' comps'"
         "set us \<subseteq> marked vis'" "marked (cc_visited s') \<subseteq> marked vis'"
      by blast
    have "u \<in> marked vis'" using a(4) p4 un by auto
    moreover have "marked vis \<subseteq> marked vis'" using a(4) p4 by auto
    ultimately show ?thesis using a s' False r by auto
  qed
qed

lemma distinct_concat_unique:
  "distinct (concat xs) \<Longrightarrow> i < length xs \<Longrightarrow> j < length xs \<Longrightarrow> v \<in> set (xs ! i) \<Longrightarrow> v \<in> set (xs ! j) \<Longrightarrow> i = j"
proof (induction xs arbitrary: i j)
  case Nil
  then show ?case by simp
next
  case (Cons x xs)
  show ?case
  proof (cases i; cases j)
    fix i' j' assume "i = Suc i'" "j = Suc j'"
    with Cons show ?thesis by auto
  next
    fix j' assume "i = 0" "j = Suc j'"
    with Cons.prems have "v \<in> set x" "v \<in> set (concat xs)" by auto
    with Cons.prems(1) show ?thesis by auto
  next
    fix i' assume "i = Suc i'" "j = 0"
    with Cons.prems have "v \<in> set x" "v \<in> set (concat xs)" by auto
    with Cons.prems(1) show ?thesis by auto
  qed simp
qed

lemma ConnectedComponents_correct:
  assumes inv: "graph_inv g" and d: "nat (Vertices g) \<le> d"
  shows "\<exists>comps. ConnectedComponents d g = Inr comps \<and> distinct (concat comps) \<and>
           set (concat comps) = {0..<Vertices g} \<and> [] \<notin> set comps \<and>
           (\<forall>c \<in> set comps. \<forall>u \<in> set c. \<forall>v. v \<in> set c \<longleftrightarrow> connected g u v)"
proof -
  from inv have n: "0 < Vertices g" "int (length (AdjList g)) = Vertices g" by (auto simp: graph_inv_def)
  let ?vis = "replicate (nat (Vertices g)) False"
  have m0: "marked ?vis = {}" by (auto simp: marked_def in_range_def)
  have i0: "cc_inv g ?vis []" using n unfolding cc_inv_def m0 by auto
  have us: "\<forall>u \<in> set (map int [0..<nat (Vertices g)]). in_range (AdjList g) u"
    using n by (auto simp: in_range_def)
  have d': "length (AdjList g) \<le> d" using d n by simp
  from cc_roots_ok[OF inv d' i0 us] obtain vis' comps' where
    a: "cc_roots d g (map int [0..<nat (Vertices g)]) (?vis, []) = Inr (vis', comps')" "cc_inv g vis' comps'"
       "set (map int [0..<nat (Vertices g)]) \<subseteq> marked vis'"
    by blast
  have "marked vis' \<subseteq> {0..<Vertices g}" using marked_range[of vis'] a(2) n by (simp add: cc_inv_def)
  moreover have "{0..<Vertices g} \<subseteq> set (map int [0..<nat (Vertices g)])"
  proof
    fix x assume "x \<in> {0..<Vertices g}"
    then have "nat x \<in> set [0..<nat (Vertices g)]" "int (nat x) = x" by auto
    then show "x \<in> set (map int [0..<nat (Vertices g)])" by (metis image_eqI set_map)
  qed
  ultimately have "marked vis' = {0..<Vertices g}" using a(3) by blast
  moreover have "ConnectedComponents d g = Inr comps'" using a(1) n by (simp add: ConnectedComponents_def)
  ultimately show ?thesis using a(2) unfolding cc_inv_def connected_def by auto
qed

lemma distinct_concat_elem: "distinct (concat xs) \<Longrightarrow> c \<in> set xs \<Longrightarrow> distinct c"
  by (induction xs) auto

text \<open>
  Claim C4.  For a graph built by \<open>ReadGraph\<close> and fuel of at least its number
  of vertices, \<open>ConnectedComponents\<close> returns lists of vertices that partition
  \<open>[0, N)\<close>: every vertex lies in exactly one of them, and two vertices lie in the same
  one exactly when a path connects them.
\<close>

theorem ConnectedComponents_partition:
  assumes "ReadGraph fs fn = Inr g" and "nat (Vertices g) \<le> d"
  shows "\<exists>comps. ConnectedComponents d g = Inr comps \<and>
           (\<forall>v. 0 \<le> v \<and> v < Vertices g \<longrightarrow> (\<exists>!i. i < length comps \<and> v \<in> set (comps ! i))) \<and>
           (\<forall>c \<in> set comps. distinct c \<and> c \<noteq> [] \<and> set c \<subseteq> {0..<Vertices g}) \<and>
           (\<forall>u v. 0 \<le> u \<and> u < Vertices g \<and> 0 \<le> v \<and> v < Vertices g \<longrightarrow>
              ((\<exists>c \<in> set comps. u \<in> set c \<and> v \<in> set c) \<longleftrightarrow> connected g u v))"
proof -
  have inv: "graph_inv g" using ReadGraph_simple[OF assms(1)] by (simp add: simple_graph_def)
  from ConnectedComponents_correct[OF inv assms(2)] obtain comps where
    r: "ConnectedComponents d g = Inr comps" and dc: "distinct (concat comps)"
    and sc: "set (concat comps) = {0..<Vertices g}" and ne: "[] \<notin> set comps"
    and cl: "\<forall>c \<in> set comps. \<forall>u \<in> set c. \<forall>v. v \<in> set c \<longleftrightarrow> connected g u v"
    by blast
  have ex: "\<exists>c \<in> set comps. v \<in> set c" if "0 \<le> v" "v < Vertices g" for v
  proof -
    from that have "v \<in> set (concat comps)" using sc by simp
    then show ?thesis by auto
  qed
  have one: "\<exists>!i. i < length comps \<and> v \<in> set (comps ! i)" if "0 \<le> v" "v < Vertices g" for v
  proof -
    from ex[OF that] obtain c where "c \<in> set comps" "v \<in> set c" by blast
    then obtain i where "i < length comps" "v \<in> set (comps ! i)" by (metis in_set_conv_nth)
    then show ?thesis using distinct_concat_unique[OF dc] by blast
  qed
  have parts: "\<forall>c \<in> set comps. distinct c \<and> c \<noteq> [] \<and> set c \<subseteq> {0..<Vertices g}"
  proof
    fix c assume c: "c \<in> set comps"
    then have "set c \<subseteq> set (concat comps)" by (simp add: Sup_upper)
    then have "set c \<subseteq> {0..<Vertices g}" unfolding sc .
    moreover have "c \<noteq> []" using c ne by blast
    ultimately show "distinct c \<and> c \<noteq> [] \<and> set c \<subseteq> {0..<Vertices g}"
      using distinct_concat_elem[OF dc c] by blast
  qed
  have same: "(\<exists>c \<in> set comps. u \<in> set c \<and> v \<in> set c) \<longleftrightarrow> connected g u v"
    if "0 \<le> u" "u < Vertices g" for u v
  proof
    assume "\<exists>c \<in> set comps. u \<in> set c \<and> v \<in> set c"
    then show "connected g u v" using cl by blast
  next
    assume c: "connected g u v"
    from ex[OF that] obtain c' where "c' \<in> set comps" "u \<in> set c'" by blast
    with c cl show "\<exists>c \<in> set comps. u \<in> set c \<and> v \<in> set c" by blast
  qed
  show ?thesis
  proof (intro exI[of _ comps] conjI allI impI)
    show "ConnectedComponents d g = Inr comps" by (rule r)
    show "\<exists>!i. i < length comps \<and> v \<in> set (comps ! i)" if "0 \<le> v \<and> v < Vertices g" for v
      using one that by blast
    show "\<forall>c \<in> set comps. distinct c \<and> c \<noteq> [] \<and> set c \<subseteq> {0..<Vertices g}" by (rule parts)
    show "(\<exists>c \<in> set comps. u \<in> set c \<and> v \<in> set c) \<longleftrightarrow> connected g u v"
      if "0 \<le> u \<and> u < Vertices g \<and> 0 \<le> v \<and> v < Vertices g" for u v
      using same[of u v] that by blast
  qed
qed

theorem ConnectedComponents_partition_witness:
  "ReadGraph (\<lambda>_. Some [3,0, 0,0,0,0,1,0, 0,0,0,0,0,0, 1,0,0,0,0,0]) ''g.bin''
     = Inr \<lparr>Vertices = 3, AdjList = [[2], [], [0]]\<rparr> \<and>
   ConnectedComponents 3 \<lparr>Vertices = 3, AdjList = [[2], [], [0]]\<rparr> = Inr [[0, 2], [1]] \<and>
   connected \<lparr>Vertices = 3, AdjList = [[2], [], [0]]\<rparr> 0 2 \<and>
   \<not> connected \<lparr>Vertices = 3, AdjList = [[2], [], [0]]\<rparr> 0 1"
proof -
  let ?fs = "\<lambda>_::string. Some [3,0, 0,0,0,0,1,0, 0,0,0,0,0,0, 1,0,0,0,0,0 :: byte]"
  let ?g = "\<lparr>Vertices = 3, AdjList = [[2], [], [0]]\<rparr>"
  have r: "ReadGraph ?fs ''g.bin'' = Inr ?g" by code_simp
  have c: "ConnectedComponents 3 ?g = Inr [[0, 2], [1]]" by code_simp
  have d: "nat (Vertices ?g) \<le> 3" by simp
  from ConnectedComponents_partition[OF r d] c
  have "\<forall>u v. 0 \<le> u \<and> u < 3 \<and> 0 \<le> v \<and> v < 3 \<longrightarrow>
              ((\<exists>c \<in> set [[0, 2], [1 :: int]]. u \<in> set c \<and> v \<in> set c) \<longleftrightarrow> connected ?g u v)"
    by simp
  from this[rule_format, of 0 2] this[rule_format, of 0 1]
  show ?thesis using r c by simp
qed

section \<open>The traversal skeleton\<close>

lemma mk_in_range: "x \<in> mk s \<Longrightarrow> in_range (visited s) x"
  by (simp add: marked_def)

lemma nat_neq: "in_range xs x \<Longrightarrow> in_range xs y \<Longrightarrow> x \<noteq> y \<Longrightarrow> nat x \<noteq> nat y"
  by (auto simp: in_range_def)

lemma tframe_refl: "tframe g s s"
  by (simp add: tframe_def newly_def)

lemma tframe_trans:
  assumes a: "tframe g s s1" and b: "tframe g s1 s2"
  shows "tframe g s s2"
proof -
  from a have a1: "mk s \<subseteq> mk s1" and a2: "time s \<le> time s1"
    and a3: "\<forall>x \<in> mk s. dsc s1 x = dsc s x \<and> par s1 x = par s x"
    and a4: "\<forall>x. in_range (AdjList g) x \<and> x \<notin> mk s1 \<longrightarrow> par s1 x = par s x"
    and a5: "\<forall>w \<in> newly s s1. time s \<le> dsc s1 w \<and> adj_rel g `` {w} \<subseteq> mk s1"
    unfolding tframe_def by blast+
  from b have b1: "mk s1 \<subseteq> mk s2" and b2: "time s1 \<le> time s2"
    and b3: "\<forall>x \<in> mk s1. dsc s2 x = dsc s1 x \<and> par s2 x = par s1 x"
    and b4: "\<forall>x. in_range (AdjList g) x \<and> x \<notin> mk s2 \<longrightarrow> par s2 x = par s1 x"
    and b5: "\<forall>w \<in> newly s1 s2. time s1 \<le> dsc s2 w \<and> adj_rel g `` {w} \<subseteq> mk s2"
    unfolding tframe_def by blast+
  show ?thesis unfolding tframe_def
  proof (intro conjI)
    show "mk s \<subseteq> mk s2" using a1 b1 by blast
    show "time s \<le> time s2" using a2 b2 by simp
    show "\<forall>x \<in> mk s. dsc s2 x = dsc s x \<and> par s2 x = par s x"
      using a1 a3 b3 by (metis subsetD)
    show "\<forall>x. in_range (AdjList g) x \<and> x \<notin> mk s2 \<longrightarrow> par s2 x = par s x"
      using a4 b4 b1 by (metis subsetD)
    show "\<forall>w \<in> newly s s2. time s \<le> dsc s2 w \<and> adj_rel g `` {w} \<subseteq> mk s2"
    proof
      fix w assume w: "w \<in> newly s s2"
      show "time s \<le> dsc s2 w \<and> adj_rel g `` {w} \<subseteq> mk s2"
      proof (cases "w \<in> mk s1")
        case True
        with w have "w \<in> newly s s1" by (simp add: newly_def)
        with a5 have "time s \<le> dsc s1 w" "adj_rel g `` {w} \<subseteq> mk s1" by blast+
        with b1 b3 True show ?thesis by auto
      next
        case False
        with w have "w \<in> newly s1 s2" by (simp add: newly_def)
        with b5 have "time s1 \<le> dsc s2 w" "adj_rel g `` {w} \<subseteq> mk s2" by blast+
        with a2 show ?thesis by simp
      qed
    qed
  qed
qed

lemma newly_trans: "mk s \<subseteq> mk s1 \<Longrightarrow> mk s1 \<subseteq> mk s2 \<Longrightarrow> newly s s2 = newly s s1 \<union> newly s1 s2"
  by (auto simp: newly_def)

lemma enter_fields [simp]:
  "visited (enter u s) = (visited s)[nat u := True]"
  "discovery (enter u s) = (discovery s)[nat u := time s]"
  "low (enter u s) = (low s)[nat u := time s]"
  "parent (enter u s) = parent s"
  "time (enter u s) = time s + 1"
  by (simp_all add: enter_def)

lemma tinv_enter:
  assumes inv: "tinv g s" and r: "in_range (visited s) u" and nu: "u \<notin> mk s"
    and p: "par s u = - 1 \<or> (par s u \<in> mk s \<and> (par s u, u) \<in> adj_rel g)"
  shows "tinv g (enter u s)"
proof -
  have m: "mk (enter u s) = insert u (mk s)" using r by (simp add: marked_update)
  have len: "length (discovery s) = length (visited s)" using inv by (simp add: tinv_def)
  have ne: "nat x \<noteq> nat u" if "x \<in> mk s" for x
    using that nu r nat_neq[OF mk_in_range[OF that] r] by auto
  have du: "dsc (enter u s) u = time s" using r len by (simp add: in_range_nat)
  have dx: "dsc (enter u s) x = dsc s x" if "x \<in> mk s" for x using ne[OF that] by simp
  have lt: "dsc s x < time s" if "x \<in> mk s" for x using inv that by (simp add: tinv_def)
  have tm: "time (enter u s) = time s + 1" by simp
  have pr: "par (enter u s) x = par s x" for x by simp
  have dlt: "dsc (enter u s) x < time (enter u s)" if "x \<in> insert u (mk s)" for x
  proof (cases "x = u")
    case True then show ?thesis unfolding tm using du by simp
  next
    case False
    with that have "x \<in> mk s" by simp
    then show ?thesis unfolding tm using dx[of x] lt[of x] by simp
  qed
  have inj: "x = y" if "x \<in> insert u (mk s)" "y \<in> insert u (mk s)"
    "dsc (enter u s) x = dsc (enter u s) y" for x y
  proof (cases "x = u"; cases "y = u")
    assume "x = u" "y \<noteq> u"
    with that have "y \<in> mk s" "time s = dsc s y" using du dx[of y] by auto
    with lt[of y] show ?thesis by simp
  next
    assume "x \<noteq> u" "y = u"
    with that have "x \<in> mk s" "time s = dsc s x" using du dx[of x] by auto
    with lt[of x] show ?thesis by simp
  next
    assume "x \<noteq> u" "y \<noteq> u"
    with that have "x \<in> mk s" "y \<in> mk s" "dsc s x = dsc s y" using dx[of x] dx[of y] by auto
    with inv show ?thesis unfolding tinv_def by blast
  qed simp
  have par3: "par (enter u s) x \<in> insert u (mk s) \<and> dsc (enter u s) (par (enter u s) x) < dsc (enter u s) x
      \<and> (par (enter u s) x, x) \<in> adj_rel g"
    if x: "x \<in> insert u (mk s)" and px: "par (enter u s) x \<noteq> - 1" for x
  proof (cases "x = u")
    case True
    with px p have a: "par s u \<in> mk s" "(par s u, u) \<in> adj_rel g" unfolding pr by auto
    have "dsc (enter u s) (par s u) < dsc (enter u s) u"
      using dx[OF a(1)] lt[OF a(1)] du by simp
    then show ?thesis unfolding pr using True a by simp
  next
    case False
    with x have xm: "x \<in> mk s" by simp
    with px inv have a: "par s x \<in> mk s" "dsc s (par s x) < dsc s x" "(par s x, x) \<in> adj_rel g"
      unfolding tinv_def pr by auto
    have "dsc (enter u s) (par s x) < dsc (enter u s) x"
      using dx[OF a(1)] dx[OF xm] a(2) by simp
    then show ?thesis unfolding pr using a by simp
  qed
  have lens: "length (visited (enter u s)) = length (AdjList g)"
    "length (discovery (enter u s)) = length (AdjList g)"
    "length (low (enter u s)) = length (AdjList g)"
    "length (parent (enter u s)) = length (AdjList g)"
    using inv by (simp_all add: tinv_def)
  show ?thesis unfolding tinv_def m
    using lens dlt inj par3 by (intro conjI ballI impI) blast+
qed

lemma tinv_cong:
  assumes "visited t = visited s" "discovery t = discovery s" "parent t = parent s"
    "time t = time s" "length (low t) = length (low s)"
  shows "tinv g t = tinv g s"
  using assms by (simp add: tinv_def)

lemma tframe_cong_left:
  assumes "visited t = visited s" "discovery t = discovery s" "parent t = parent s" "time t = time s"
  shows "tframe g t s' = tframe g s s'"
  using assms by (simp add: tframe_def newly_def)

lemma tframe_cong_right:
  assumes "visited t = visited s'" "discovery t = discovery s'" "parent t = parent s'" "time t = time s'"
  shows "tframe g s t = tframe g s s'"
  using assms by (simp add: tframe_def newly_def)

lemma newly_cong:
  "visited t = visited s \<Longrightarrow> newly t s' = newly s s'"
  "visited t' = visited s' \<Longrightarrow> newly s t' = newly s s'"
  by (simp_all add: newly_def)

lemma gpost_loop_cong_left:
  assumes "visited t = visited s" "discovery t = discovery s" "parent t = parent s" "time t = time s"
  shows "gpost_loop g u vs t s' = gpost_loop g u vs s s'"
  using assms by (simp add: gpost_loop_def tframe_cong_left[OF assms] newly_def)

lemma tinv_parent_upd:
  assumes inv: "tinv g s" and nv: "v \<notin> mk s" and r: "in_range (visited s) v"
    and t: "visited t = visited s" "discovery t = discovery s" "time t = time s"
      "length (low t) = length (low s)" "parent t = (parent s)[nat v := u]"
  shows "tinv g t"
proof -
  have p: "par t x = par s x" if "x \<in> mk s" for x
  proof -
    from that nv have "x \<noteq> v" by auto
    with nat_neq[OF mk_in_range[OF that] r] show ?thesis using t(5) by simp
  qed
  show ?thesis unfolding tinv_def t(1,2,3)
  proof (intro conjI ballI impI)
    fix x assume x: "x \<in> mk s" and "par t x \<noteq> - 1"
    then have px: "par s x \<noteq> - 1" using p by simp
    with inv x have a: "par s x \<in> mk s" "dsc s (par s x) < dsc s x" "(par s x, x) \<in> adj_rel g"
      unfolding tinv_def by auto
    show "par t x \<in> mk s" using a p[OF x] by simp
    show "dsc s (par t x) < dsc s x" using a p[OF x] by simp
    show "(par t x, x) \<in> adj_rel g" using a p[OF x] by simp
  qed (use inv t in \<open>auto simp: tinv_def\<close>)
qed

lemma gpost_dfs_from_loop:
  assumes inv: "tinv g s" and r: "in_range (visited s) v" "in_range (AdjList g) v" and nv: "v \<notin> mk s"
    and l: "gpost_loop g v (AdjList g ! nat v) (enter v s) s'"
  shows "gpost_dfs g v s s'"
proof -
  let ?s1 = "enter v s"
  have m1: "mk ?s1 = insert v (mk s)" using r by (simp add: marked_update)
  from l have i': "tinv g s'" and f: "tframe g ?s1 s'" and sub: "set (AdjList g ! nat v) \<subseteq> mk s'"
    and pc: "\<forall>w \<in> newly ?s1 s'. par s' w \<in> newly ?s1 s' \<or> (par s' w = v \<and> w \<in> set (AdjList g ! nat v))"
    and cn: "\<forall>w \<in> newly ?s1 s'. (v, w) \<in> (Restr (adj_rel g) (insert v (newly ?s1 s')))\<^sup>*"
    unfolding gpost_loop_def by blast+
  from f have f1: "mk ?s1 \<subseteq> mk s'" and f2: "time ?s1 \<le> time s'"
    and f3: "\<forall>x \<in> mk ?s1. dsc s' x = dsc ?s1 x \<and> par s' x = par ?s1 x"
    and f4: "\<forall>x. in_range (AdjList g) x \<and> x \<notin> mk s' \<longrightarrow> par s' x = par ?s1 x"
    and f5: "\<forall>w \<in> newly ?s1 s'. time ?s1 \<le> dsc s' w \<and> adj_rel g `` {w} \<subseteq> mk s'"
    unfolding tframe_def by blast+
  have len: "length (discovery s) = length (visited s)" using inv by (simp add: tinv_def)
  have dv: "dsc ?s1 v = time s" using r len by (simp add: in_range_nat)
  have dx: "dsc ?s1 x = dsc s x" if "x \<in> mk s" for x
  proof -
    from that nv have "x \<noteq> v" by auto
    with nat_neq[OF mk_in_range[OF that] r(1)] show ?thesis by simp
  qed
  have vm: "v \<in> mk s'" using f1 m1 by auto
  have nw: "newly s s' = insert v (newly ?s1 s')" using m1 f1 nv by (auto simp: newly_def)
  have tf: "tframe g s s'" unfolding tframe_def
  proof (intro conjI ballI allI impI)
    show "mk s \<subseteq> mk s'" using f1 m1 by auto
    show "time s \<le> time s'" using f2 by simp
    show "dsc s' x = dsc s x" if "x \<in> mk s" for x using f3 m1 dx[OF that] that by auto
    show "par s' x = par s x" if "x \<in> mk s" for x using f3 m1 that by auto
    show "par s' x = par s x" if "in_range (AdjList g) x \<and> x \<notin> mk s'" for x using f4 that by auto
    show "time s \<le> dsc s' w" if "w \<in> newly s s'" for w
    proof (cases "w = v")
      case True then show ?thesis using f3 m1 dv by auto
    next
      case False
      with that nw have "w \<in> newly ?s1 s'" by simp
      with f5 have "time ?s1 \<le> dsc s' w" by blast
      then show ?thesis by simp
    qed
    show "adj_rel g `` {w} \<subseteq> mk s'" if "w \<in> newly s s'" for w
    proof (cases "w = v")
      case True then show ?thesis using sub r(2) by (simp add: adj_rel_adj)
    next
      case False
      with that nw have "w \<in> newly ?s1 s'" by simp
      with f5 show ?thesis by blast
    qed
  qed
  have pv: "par s' v = par s v" using f3 m1 by auto
  have dsv: "dsc s' v = time s" using f3 m1 dv by auto
  have pn: "par s' w \<in> newly s s'" if "w \<in> newly s s'" "w \<noteq> v" for w
  proof -
    from that nw have "w \<in> newly ?s1 s'" by simp
    with pc have "par s' w \<in> newly ?s1 s' \<or> par s' w = v" by blast
    then show ?thesis using nw by auto
  qed
  have cv: "(v, w) \<in> (Restr (adj_rel g) (newly s s'))\<^sup>*" if "w \<in> newly s s'" for w
  proof (cases "w = v")
    case True then show ?thesis by simp
  next
    case False
    with that nw have "w \<in> newly ?s1 s'" by simp
    with cn show ?thesis unfolding nw by blast
  qed
  show ?thesis unfolding gpost_dfs_def using i' tf vm dsv pv pn cv by blast
qed

lemma gpost_loop_nil: "tinv g s \<Longrightarrow> gpost_loop g u [] s s"
  by (simp add: gpost_loop_def tframe_refl newly_def)

lemma gpost_loop_skip:
  assumes vm: "v \<in> mk s"
    and t: "visited t = visited s" "discovery t = discovery s" "parent t = parent s" "time t = time s"
    and l: "gpost_loop g u vs t s'"
  shows "gpost_loop g u (v # vs) s s'"
proof -
  from l have l': "gpost_loop g u vs s s'" by (simp only: gpost_loop_cong_left[OF t])
  then have "mk s \<subseteq> mk s'" by (simp add: gpost_loop_def tframe_def)
  with vm l' show ?thesis unfolding gpost_loop_def by auto
qed

lemma gpost_loop_child:
  assumes inv: "tinv g s" and um: "u \<in> mk s" and nv: "v \<notin> mk s" and r: "in_range (visited s) v"
    and e: "(u, v) \<in> adj_rel g"
    and s1: "visited s1 = visited s" "discovery s1 = discovery s" "time s1 = time s"
       "parent s1 = (parent s)[nat v := u]"
    and d: "gpost_dfs g v s1 s2"
    and s3: "visited s3 = visited s2" "discovery s3 = discovery s2" "parent s3 = parent s2" "time s3 = time s2"
    and l: "gpost_loop g u vs s3 s'"
  shows "gpost_loop g u (v # vs) s s'"
proof -
  have lenp: "length (parent s) = length (visited s)" using inv by (simp add: tinv_def)
  have lena: "length (visited s) = length (AdjList g)" using inv by (simp add: tinv_def)
  have p1: "par s1 x = par s x" if "in_range (visited s) x" "x \<noteq> v" for x
    using nat_neq[OF that(1) r that(2)] s1(4) by simp
  have p1v: "par s1 v = u" using s1(4) r lenp by (simp add: in_range_nat)
  from d have f12: "tframe g s1 s2" and vm2: "v \<in> mk s2" and pv2: "par s2 v = par s1 v"
    and pn2: "\<forall>w \<in> newly s1 s2. w \<noteq> v \<longrightarrow> par s2 w \<in> newly s1 s2"
    and cn2: "\<forall>w \<in> newly s1 s2. (v, w) \<in> (Restr (adj_rel g) (newly s1 s2))\<^sup>*"
    unfolding gpost_dfs_def by blast+
  from f12 have a1: "mk s \<subseteq> mk s2" and a2: "time s \<le> time s2"
    and a3: "\<forall>x \<in> mk s. dsc s2 x = dsc s x \<and> par s2 x = par s1 x"
    and a4: "\<forall>x. in_range (AdjList g) x \<and> x \<notin> mk s2 \<longrightarrow> par s2 x = par s1 x"
    and a5: "\<forall>w \<in> newly s s2. time s \<le> dsc s2 w \<and> adj_rel g `` {w} \<subseteq> mk s2"
    unfolding tframe_def newly_def s1 by blast+
  have n12: "newly s1 s2 = newly s s2" by (simp add: newly_def s1)
  have f02: "tframe g s s2" unfolding tframe_def
  proof (intro conjI ballI allI impI)
    show "mk s \<subseteq> mk s2" by (rule a1)
    show "time s \<le> time s2" by (rule a2)
    show "dsc s2 x = dsc s x" if "x \<in> mk s" for x using a3 that by blast
    show "par s2 x = par s x" if "x \<in> mk s" for x
    proof -
      from that nv have "x \<noteq> v" by auto
      from p1[OF mk_in_range[OF that] this] a3 that show ?thesis by simp
    qed
    show "par s2 x = par s x" if "in_range (AdjList g) x \<and> x \<notin> mk s2" for x
    proof -
      from that vm2 have "x \<noteq> v" by auto
      moreover from that have "in_range (visited s) x" using lena by (simp add: in_range_def)
      ultimately show ?thesis using p1 a4 that by simp
    qed
    show "time s \<le> dsc s2 w" if "w \<in> newly s s2" for w using a5 that by blast
    show "adj_rel g `` {w} \<subseteq> mk s2" if "w \<in> newly s s2" for w using a5 that by blast
  qed
  have f03: "tframe g s s3" using f02 by (simp only: tframe_cong_right[OF s3])
  from l have i': "tinv g s'" and f3: "tframe g s3 s'" and sub: "set vs \<subseteq> mk s'"
    and pc: "\<forall>w \<in> newly s3 s'. par s' w \<in> newly s3 s' \<or> (par s' w = u \<and> w \<in> set vs)"
    and cn: "\<forall>w \<in> newly s3 s'. (u, w) \<in> (Restr (adj_rel g) (insert u (newly s3 s')))\<^sup>*"
    unfolding gpost_loop_def by blast+
  have tf: "tframe g s s'" using tframe_trans[OF f03 f3] .
  have m23: "mk s3 = mk s2" by (simp add: s3)
  have m3': "mk s3 \<subseteq> mk s'" using f3 by (simp add: tframe_def)
  have nw: "newly s s' = newly s s2 \<union> newly s3 s'"
    using a1 m3' unfolding newly_def m23 by auto
  have keep: "par s' w = par s2 w" if "w \<in> mk s2" for w
    using f3 that unfolding tframe_def m23 s3 by simp
  have vs': "set (v # vs) \<subseteq> mk s'" using sub vm2 m3' m23 by auto
  have pc': "par s' w \<in> newly s s' \<or> (par s' w = u \<and> w \<in> set (v # vs))" if "w \<in> newly s s'" for w
  proof (cases "w \<in> newly s s2")
    case True
    then have wm: "w \<in> mk s2" by (simp add: newly_def)
    show ?thesis
    proof (cases "w = v")
      case True
      then show ?thesis using keep[OF wm] pv2 p1v by simp
    next
      case False
      with True pn2 n12 have "par s2 w \<in> newly s s2" by simp
      then show ?thesis using keep[OF wm] nw by simp
    qed
  next
    case False
    with that nw have "w \<in> newly s3 s'" by simp
    with pc nw show ?thesis by auto
  qed
  have uv: "(u, v) \<in> Restr (adj_rel g) (insert u (newly s s'))"
    using e vm2 nv nw by (auto simp: newly_def)
  have cn': "(u, w) \<in> (Restr (adj_rel g) (insert u (newly s s')))\<^sup>*" if "w \<in> newly s s'" for w
  proof (cases "w \<in> newly s s2")
    case True
    with cn2 n12 have "(v, w) \<in> (Restr (adj_rel g) (newly s s2))\<^sup>*" by simp
    moreover have "Restr (adj_rel g) (newly s s2) \<subseteq> Restr (adj_rel g) (insert u (newly s s'))"
      using nw by auto
    ultimately have "(v, w) \<in> (Restr (adj_rel g) (insert u (newly s s')))\<^sup>*"
      using rtrancl_mono by blast
    with uv show ?thesis by (meson converse_rtrancl_into_rtrancl)
  next
    case False
    with that nw have "w \<in> newly s3 s'" by simp
    with cn have "(u, w) \<in> (Restr (adj_rel g) (insert u (newly s3 s')))\<^sup>*" by blast
    moreover have "Restr (adj_rel g) (insert u (newly s3 s')) \<subseteq> Restr (adj_rel g) (insert u (newly s s'))"
      using nw by auto
    ultimately show ?thesis using rtrancl_mono by blast
  qed
  show ?thesis unfolding gpost_loop_def using i' tf vs' pc' cn' by blast
qed

lemma min_int_min: "min_int a b = min a b"
  by (simp add: min_int_def min_def)

lemma bcc_return_fields [simp]:
  "visited (bcc_return u v s) = visited s"
  "discovery (bcc_return u v s) = discovery s"
  "parent (bcc_return u v s) = parent s"
  "time (bcc_return u v s) = time s"
  "length (low (bcc_return u v s)) = length (low s)"
  by (cases "pop_component u v (stack (s\<lparr>low := (low s)[nat u := min_int (lw s u) (lw s v)]\<rparr>)) []";
      simp add: bcc_return_def Let_def)+

lemma bcc_generic:
  shows "bcc_dfs d g v s = Inr s' \<Longrightarrow> tinv g s \<Longrightarrow> v \<notin> mk s \<Longrightarrow>
           par s v = - 1 \<or> (par s v \<in> mk s \<and> (par s v, v) \<in> adj_rel g) \<Longrightarrow>
           gpost_dfs g v s s'"
    and "bcc_loop d g u vs s = Inr s' \<Longrightarrow> tinv g s \<Longrightarrow> u \<in> mk s \<Longrightarrow>
           set vs \<subseteq> adj_rel g `` {u} \<Longrightarrow> gpost_loop g u vs s s'"
proof (induction d g v s and d g u vs s arbitrary: s' and s' rule: bcc_dfs_bcc_loop.induct)
  case (1 g u s)
  then show ?case by simp
next
  case (2 d g u s)
  from "2.prems"(1) have r: "in_range (visited s) u" "in_range (AdjList g) u"
    and l: "bcc_loop d g u (AdjList g ! nat u) (enter u s) = Inr s'"
    by (auto split: if_splits)
  have i1: "tinv g (enter u s)" using tinv_enter[OF "2.prems"(2) r(1) "2.prems"(3,4)] .
  have m1: "u \<in> mk (enter u s)" using r by (simp add: marked_update)
  have sub: "set (AdjList g ! nat u) \<subseteq> adj_rel g `` {u}" using r(2) by (simp add: adj_rel_adj)
  from "2.IH"[OF _ _ l i1 m1 sub] r
  have "gpost_loop g u (AdjList g ! nat u) (enter u s) s'" by simp
  then show ?case by (rule gpost_dfs_from_loop[OF "2.prems"(2) r "2.prems"(3)])
next
  case (3 d g u s)
  then show ?case by (simp add: gpost_loop_nil)
next
  case (4 d g u v vs s)
  from "4.prems"(1) have r: "in_range (visited s) v" by (auto split: if_splits)
  have e: "(u, v) \<in> adj_rel g" and sub: "set vs \<subseteq> adj_rel g `` {u}" using "4.prems"(4) by auto
  show ?case
  proof (cases "visited s ! nat v")
    case False
    let ?s1 = "s\<lparr>parent := (parent s)[nat v := u], stack := stack s @ [(u, v)]\<rparr>"
    from "4.prems"(1) r False obtain s2 where
      d: "bcc_dfs d g v ?s1 = Inr s2" and l: "bcc_loop d g u vs (bcc_return u v s2) = Inr s'"
      by (auto split: sum.splits)
    have nv: "v \<notin> mk s" using False by (simp add: marked_def)
    have i1: "tinv g ?s1"
      by (rule tinv_parent_upd[OF "4.prems"(2) nv r]) simp_all
    have lenp: "length (parent s) = length (visited s)" using "4.prems"(2) by (simp add: tinv_def)
    have pv: "par ?s1 v = u" using r lenp by (simp add: in_range_nat)
    have pre: "par ?s1 v = - 1 \<or> (par ?s1 v \<in> mk ?s1 \<and> (par ?s1 v, v) \<in> adj_rel g)"
      unfolding pv using "4.prems"(3) e by simp
    have nv1: "v \<notin> mk ?s1" using nv by simp
    from "4.IH"(1)[OF _ _ d i1 nv1 pre] r False have g2: "gpost_dfs g v ?s1 s2" by simp
    then have i2: "tinv g s2" and f12: "tframe g ?s1 s2" by (simp_all add: gpost_dfs_def)
    have i3: "tinv g (bcc_return u v s2)" using i2 by (simp add: tinv_def)
    have um3: "u \<in> mk (bcc_return u v s2)" using f12 "4.prems"(3) by (auto simp: tframe_def)
    from "4.IH"(2)[OF _ _ d l i3 um3 sub] r False
    have g3: "gpost_loop g u vs (bcc_return u v s2) s'" by simp
    show ?thesis
      by (rule gpost_loop_child[OF "4.prems"(2,3) nv r e _ _ _ _ g2 _ _ _ _ g3]) simp_all
  next
    case True
    then have vm: "v \<in> mk s" using r by (simp add: marked_def)
    show ?thesis
    proof (cases "v \<noteq> par s u \<and> dsc s v < dsc s u")
      case T: True
      let ?t = "s\<lparr>low := (low s)[nat u := min_int (lw s u) (dsc s v)], stack := stack s @ [(u, v)]\<rparr>"
      from "4.prems"(1) r True T have l: "bcc_loop d g u vs ?t = Inr s'" by simp
      have it: "tinv g ?t" using "4.prems"(2) by (simp add: tinv_def)
      have um: "u \<in> mk ?t" using "4.prems"(3) by simp
      from "4.IH"(3)[OF _ _ _ l it um sub] r True T have "gpost_loop g u vs ?t s'" by simp
      then show ?thesis by (rule gpost_loop_skip[OF vm, rotated -1]) simp_all
    next
      case F: False
      from "4.prems"(1) r True F have l: "bcc_loop d g u vs s = Inr s'" by auto
      from "4.IH"(4)[OF _ _ _ l "4.prems"(2,3) sub] r True F have "gpost_loop g u vs s s'" by simp
      then show ?thesis by (rule gpost_loop_skip[OF vm, rotated -1]) simp_all
    qed
  qed
qed

section \<open>Biconnected components: the edge stack at the roots\<close>

lemma pop_component_split:
  "pop_component u v stk acc = (stk', cmp) \<Longrightarrow> \<exists>popped. stk = stk' @ popped \<and> cmp = acc @ rev popped"
proof (induction u v stk acc arbitrary: stk' cmp rule: pop_component.induct)
  case (1 u v stk component)
  show ?case
  proof (cases "stk = []")
    case True
    with "1.prems" show ?thesis by (simp add: pop_component.simps)
  next
    case False
    then have sl: "stk = butlast stk @ [last stk]" by simp
    show ?thesis
    proof (cases "fst (last stk) = u \<and> snd (last stk) = v")
      case True
      with False "1.prems" have "stk' = butlast stk" "cmp = component @ [last stk]"
        by (simp_all add: pop_component.simps[of u v stk] Let_def)
      with sl show ?thesis by (intro exI[of _ "[last stk]"]) simp
    next
      case F: False
      with False "1.prems" have "pop_component u v (butlast stk) (component @ [last stk]) = (stk', cmp)"
        by (simp add: pop_component.simps[of u v stk] Let_def)
      from "1.IH"[OF _ refl refl refl F this] False obtain popped where
        "butlast stk = stk' @ popped" "cmp = (component @ [last stk]) @ rev popped" by auto
      with sl show ?thesis by (intro exI[of _ "popped @ [last stk]"]) (metis append.assoc rev_append rev.simps append_Nil)
    qed
  qed
qed

lemma pop_component_found:
  "(u, v) \<notin> set rest \<Longrightarrow> pop_component u v (base @ (u, v) # rest) acc = (base, acc @ rev rest @ [(u, v)])"
proof (induction rest arbitrary: acc rule: rev_induct)
  case Nil
  show ?case by (simp add: pop_component.simps[of u v "base @ [(u, v)]"] Let_def)
next
  case (snoc e rest)
  let ?stk = "base @ (u, v) # rest @ [e]"
  have l: "last ?stk = e" "butlast ?stk = base @ (u, v) # rest" by (simp_all add: butlast_append)
  have ne: "\<not> (fst e = u \<and> snd e = v)" using snoc.prems by (cases e) auto
  have "pop_component u v ?stk acc = pop_component u v (base @ (u, v) # rest) (acc @ [e])"
    using l ne by (auto simp add: pop_component.simps[of u v ?stk] Let_def)
  also have "\<dots> = (base, (acc @ [e]) @ rev rest @ [(u, v)])"
    using snoc.IH[of "acc @ [e]"] snoc.prems by simp
  finally show ?case by simp
qed

lemma oldclosed_frame:
  assumes o: "oldclosed g t0 s" and f: "tframe g s s'" and t: "t0 \<le> time s"
  shows "oldclosed g t0 s'"
  unfolding oldclosed_def
proof (intro ballI impI)
  fix x y assume x: "x \<in> mk s'" and d: "dsc s' x < t0" and y: "y \<in> adj_rel g `` {x}"
  from f have f1: "mk s \<subseteq> mk s'"
    and f3: "\<forall>x \<in> mk s. dsc s' x = dsc s x"
    and f5: "\<forall>w \<in> newly s s'. time s \<le> dsc s' w"
    unfolding tframe_def by blast+
  have xs: "x \<in> mk s"
  proof (rule ccontr)
    assume "x \<notin> mk s"
    with x have "x \<in> newly s s'" by (simp add: newly_def)
    with f5 t d show False by force
  qed
  with d f3 have "dsc s x < t0" by simp
  with o xs y have "y \<in> mk s" "dsc s y < t0" unfolding oldclosed_def by blast+
  with f1 f3 show "y \<in> mk s' \<and> dsc s' y < t0" by auto
qed

lemma oldclosed_cong:
  "visited t = visited s \<Longrightarrow> discovery t = discovery s \<Longrightarrow> oldclosed g t0 t = oldclosed g t0 s"
  by (simp add: oldclosed_def)

lemma oldclosed_no_back:
  assumes inv: "graph_inv g" and o: "oldclosed g t0 s" and e: "(u, v) \<in> adj_rel g"
    and v: "v \<in> mk s" and u: "t0 \<le> dsc s u"
  shows "t0 \<le> dsc s v"
proof (rule ccontr)
  assume "\<not> t0 \<le> dsc s v"
  then have "dsc s v < t0" by simp
  moreover have "u \<in> adj_rel g `` {v}" using adj_rel_sym[OF inv e] by simp
  ultimately have "dsc s u < t0" using o v unfolding oldclosed_def by blast
  with u show False by simp
qed

lemma oldclosed_step:
  assumes o: "oldclosed g t0 s" and f1: "mk s \<subseteq> mk s'"
    and f3: "\<forall>x \<in> mk s. dsc s' x = dsc s x" and f5: "\<forall>w \<in> newly s s'. t0 \<le> dsc s' w"
  shows "oldclosed g t0 s'"
  unfolding oldclosed_def
proof (intro ballI impI)
  fix x y assume x: "x \<in> mk s'" and d: "dsc s' x < t0" and y: "y \<in> adj_rel g `` {x}"
  have xs: "x \<in> mk s"
  proof (rule ccontr)
    assume "x \<notin> mk s"
    with x have "x \<in> newly s s'" by (simp add: newly_def)
    with f5 d show False by force
  qed
  with d f3 have "dsc s x < t0" by simp
  with o xs y have "y \<in> mk s" "dsc s y < t0" unfolding oldclosed_def by blast+
  with f1 f3 show "y \<in> mk s' \<and> dsc s' y < t0" by auto
qed

lemma tinv_lens:
  assumes "tinv g s"
  shows "length (visited s) = length (AdjList g)" "length (discovery s) = length (AdjList g)"
    "length (low s) = length (AdjList g)" "length (parent s) = length (AdjList g)"
  using assms by (simp_all add: tinv_def)

lemma mk_nat_less: "tinv g s \<Longrightarrow> x \<in> mk s \<Longrightarrow> nat x < length (AdjList g) \<and> 0 \<le> x"
  by (auto simp: tinv_def marked_def in_range_nat)

lemma mk_nat_neq: "x \<in> mk s \<Longrightarrow> y \<in> mk s \<Longrightarrow> x \<noteq> y \<Longrightarrow> nat x \<noteq> nat y"
  by (auto simp: marked_def in_range_def)

lemma bcc_return_low:
  "low (bcc_return u v s) = (low s)[nat u := min_int (lw s u) (lw s v)]"
  by (cases "pop_component u v (stack (s\<lparr>low := (low s)[nat u := min_int (lw s u) (lw s v)]\<rparr>)) []")
     (simp add: bcc_return_def Let_def)

lemma bcc_return_stack:
  assumes "stack s = base @ (u, v) # rest" "(u, v) \<notin> set rest"
  shows "stack (bcc_return u v s) = base \<or> stack (bcc_return u v s) = stack s"
  using assms by (simp add: bcc_return_def Let_def pop_component_found)

lemma lpost_dfs_from_loop:
  assumes inv: "tinv g s" and r: "in_range (visited s) v" and nv: "v \<notin> mk s"
    and sub: "mk (enter v s) \<subseteq> mk s'"
    and l: "lpost_loop t0 v (enter v s) s'"
  shows "lpost_dfs t0 s s'"
proof -
  let ?s1 = "enter v s"
  have m1: "mk ?s1 = insert v (mk s)" using r by (simp add: marked_update)
  have nw: "newly s s' = insert v (newly ?s1 s')" using m1 sub nv by (auto simp: newly_def)
  from l have l1: "\<forall>w \<in> newly ?s1 s'. t0 \<le> lw s' w" and l2: "t0 \<le> lw s' v"
    and l3: "\<forall>x \<in> mk ?s1. x \<noteq> v \<longrightarrow> lw s' x = lw ?s1 x"
    and l4: "\<exists>rest. stack s' = stack ?s1 @ rest \<and> (\<forall>e \<in> set rest. fst e \<in> insert v (newly ?s1 s'))"
    unfolding lpost_loop_def by blast+
  have lx: "lw ?s1 x = lw s x" if "x \<in> mk s" for x
  proof -
    from that nv have "x \<noteq> v" by auto
    with nat_neq[OF mk_in_range[OF that] r] show ?thesis by simp
  qed
  have st: "stack ?s1 = stack s" by (simp add: enter_def)
  show ?thesis unfolding lpost_dfs_def nw
  proof (intro conjI ballI)
    fix w assume "w \<in> insert v (newly ?s1 s')"
    then show "t0 \<le> lw s' w" using l1 l2 by auto
  next
    fix x assume x: "x \<in> mk s"
    then have "x \<noteq> v" "x \<in> mk ?s1" using nv m1 by auto
    then show "lw s' x = lw s x" using l3 lx[OF x] by simp
  next
    show "\<exists>rest. stack s' = stack s @ rest \<and> (\<forall>e\<in>set rest. fst e \<in> insert v (newly ?s1 s'))"
      using l4 st by simp
  qed
qed

lemma lpost_loop_nil: "t0 \<le> lw s u \<Longrightarrow> lpost_loop t0 u s s"
  by (simp add: lpost_loop_def newly_def)

lemma lpost_loop_back:
  assumes t: "visited t = visited s" "low t = (low s)[nat u := a]" "stack t = stack s @ [(u, v)]"
    and um: "u \<in> mk s"
    and l: "lpost_loop t0 u t s'"
  shows "lpost_loop t0 u s s'"
proof -
  have nw: "newly t s' = newly s s'" by (simp add: newly_def t)
  have lx: "lw t x = lw s x" if "x \<in> mk s" "x \<noteq> u" for x
    using mk_nat_neq[OF that(1) um that(2)] t(2) by simp
  from l have l1: "\<forall>w \<in> newly s s'. t0 \<le> lw s' w" and l2: "t0 \<le> lw s' u"
    and l3: "\<forall>x \<in> mk s. x \<noteq> u \<longrightarrow> lw s' x = lw t x"
    and l4: "\<exists>rest. stack s' = stack t @ rest \<and> (\<forall>e \<in> set rest. fst e \<in> insert u (newly s s'))"
    unfolding lpost_loop_def nw t(1) by blast+
  from l4 obtain rest where rest: "stack s' = stack t @ rest" "\<forall>e \<in> set rest. fst e \<in> insert u (newly s s')"
    by blast
  have "stack s' = stack s @ ((u, v) # rest) \<and> (\<forall>e \<in> set ((u, v) # rest). fst e \<in> insert u (newly s s'))"
    using rest t(3) by simp
  then have l4': "\<exists>rest. stack s' = stack s @ rest \<and> (\<forall>e \<in> set rest. fst e \<in> insert u (newly s s'))"
    by blast
  show ?thesis unfolding lpost_loop_def using l1 l2 l3 lx l4' by auto
qed

lemma lpost_loop_child:
  assumes inv2: "tinv g s2" and um: "u \<in> mk s" and nv: "v \<notin> mk s"
    and s1: "visited s1 = visited s" "low s1 = low s" "stack s1 = stack s @ [(u, v)]"
    and m12: "mk s1 \<subseteq> mk s2" and m3: "mk (bcc_return u v s2) \<subseteq> mk s'"
    and lu: "t0 \<le> lw s u"
    and d: "lpost_dfs t0 s1 s2"
    and l: "lpost_loop t0 u (bcc_return u v s2) s'"
  shows "lpost_loop t0 u s s'"
proof -
  let ?s3 = "bcc_return u v s2"
  have n12: "newly s1 s2 = newly s s2" by (simp add: newly_def s1)
  have m02: "mk s \<subseteq> mk s2" using m12 s1 by simp
  have m23: "mk ?s3 = mk s2" by simp
  have nw: "newly s s' = newly s s2 \<union> newly ?s3 s'" using m02 m3 unfolding newly_def m23 by auto
  from d have d1: "\<forall>w \<in> newly s s2. t0 \<le> lw s2 w" and d2: "\<forall>x \<in> mk s. lw s2 x = lw s x"
    and d3: "\<exists>rest. stack s2 = stack s1 @ rest \<and> (\<forall>e \<in> set rest. fst e \<in> newly s s2)"
    unfolding lpost_dfs_def n12 s1 by blast+
  from d3 obtain rest2 where r2: "stack s2 = stack s @ (u, v) # rest2" "\<forall>e \<in> set rest2. fst e \<in> newly s s2"
    using s1(3) by auto
  have un: "u \<notin> newly s s2" using um by (simp add: newly_def)
  have nin: "(u, v) \<notin> set rest2" using r2(2) un by force
  have um2: "u \<in> mk s2" using um m02 by blast
  have lenl: "nat u < length (low s2)" using mk_nat_less[OF inv2 um2] tinv_lens(3)[OF inv2] by simp
  have l3u: "lw ?s3 u = min (lw s2 u) (lw s2 v)" using lenl by (simp add: bcc_return_low min_int_min)
  have l3x: "lw ?s3 x = lw s2 x" if "x \<in> mk s2" "x \<noteq> u" for x
    using mk_nat_neq[OF that(1) um2 that(2)] by (simp add: bcc_return_low)
  have vn: "v \<in> newly s s2 \<or> v \<notin> mk s2" using nv by (simp add: newly_def)
  from l have l1: "\<forall>w \<in> newly ?s3 s'. t0 \<le> lw s' w" and l2: "t0 \<le> lw s' u"
    and l3: "\<forall>x \<in> mk s2. x \<noteq> u \<longrightarrow> lw s' x = lw ?s3 x"
    and l4: "\<exists>rest. stack s' = stack ?s3 @ rest \<and> (\<forall>e \<in> set rest. fst e \<in> insert u (newly ?s3 s'))"
    unfolding lpost_loop_def m23 by blast+
  from l4 obtain rest where rest: "stack s' = stack ?s3 @ rest" "\<forall>e \<in> set rest. fst e \<in> insert u (newly ?s3 s')"
    by blast
  from bcc_return_stack[OF r2(1) nin] have "\<exists>r3. stack ?s3 = stack s @ r3 \<and> (\<forall>e \<in> set r3. fst e \<in> insert u (newly s s2))"
  proof
    assume "stack ?s3 = stack s" then show ?thesis by (intro exI[of _ "[]"]) simp
  next
    assume "stack ?s3 = stack s2"
    then show ?thesis using r2 by (intro exI[of _ "(u, v) # rest2"]) auto
  qed
  then obtain r3 where r3: "stack ?s3 = stack s @ r3" "\<forall>e \<in> set r3. fst e \<in> insert u (newly s s2)" by blast
  have st: "stack s' = stack s @ (r3 @ rest) \<and> (\<forall>e \<in> set (r3 @ rest). fst e \<in> insert u (newly s s'))"
    using rest r3 nw by auto
  show ?thesis unfolding lpost_loop_def
  proof (intro conjI ballI impI)
    fix w assume w: "w \<in> newly s s'"
    show "t0 \<le> lw s' w"
    proof (cases "w \<in> newly s s2")
      case True
      then have "w \<in> mk s2" "w \<noteq> u" using un by (auto simp: newly_def)
      then have "lw s' w = lw s2 w" using l3 l3x by simp
      then show ?thesis using d1 True by simp
    next
      case False
      with w nw have "w \<in> newly ?s3 s'" by simp
      then show ?thesis using l1 by blast
    qed
  next
    show "t0 \<le> lw s' u" by (rule l2)
  next
    fix x assume x: "x \<in> mk s" "x \<noteq> u"
    then have "x \<in> mk s2" using m02 by blast
    then show "lw s' x = lw s x" using l3 l3x d2 x by simp
  next
    show "\<exists>rest. stack s' = stack s @ rest \<and> (\<forall>e\<in>set rest. fst e \<in> insert u (newly s s'))"
      using st by blast
  qed
qed

lemma lpost_child_low:
  assumes inv2: "tinv g s2" and um: "u \<in> mk s" and nv: "v \<notin> mk s" and vm2: "v \<in> mk s2"
    and s1: "visited s1 = visited s" "low s1 = low s"
    and m12: "mk s1 \<subseteq> mk s2"
    and lu: "t0 \<le> lw s u"
    and d: "lpost_dfs t0 s1 s2"
  shows "t0 \<le> lw (bcc_return u v s2) u" "t0 \<le> lw s2 v" "lw (bcc_return u v s2) v = lw s2 v"
proof -
  have n12: "newly s1 s2 = newly s s2" by (simp add: newly_def s1)
  have um2: "u \<in> mk s2" using um m12 s1 by auto
  from d have d1: "\<forall>w \<in> newly s s2. t0 \<le> lw s2 w" and d2: "\<forall>x \<in> mk s. lw s2 x = lw s x"
    unfolding lpost_dfs_def n12 s1 by blast+
  have "v \<in> newly s s2" using nv vm2 by (simp add: newly_def)
  then show v: "t0 \<le> lw s2 v" using d1 by blast
  have lenl: "nat u < length (low s2)" using mk_nat_less[OF inv2 um2] tinv_lens(3)[OF inv2] by simp
  have "lw (bcc_return u v s2) u = min (lw s2 u) (lw s2 v)" using lenl by (simp add: bcc_return_low min_int_min)
  then show "t0 \<le> lw (bcc_return u v s2) u" using v d2 um lu by simp
  have "v \<noteq> u" using um nv by auto
  from mk_nat_neq[OF vm2 um2 this] show "lw (bcc_return u v s2) v = lw s2 v" by (simp add: bcc_return_low)
qed

lemma bcc_low_stack:
  shows "bcc_dfs d g v s = Inr s' \<Longrightarrow> graph_inv g \<Longrightarrow> tinv g s \<Longrightarrow> v \<notin> mk s \<Longrightarrow>
           par s v = - 1 \<or> (par s v \<in> mk s \<and> (par s v, v) \<in> adj_rel g) \<Longrightarrow>
           t0 \<le> time s \<Longrightarrow> oldclosed g t0 s \<Longrightarrow> lpost_dfs t0 s s'"
    and "bcc_loop d g u vs s = Inr s' \<Longrightarrow> graph_inv g \<Longrightarrow> tinv g s \<Longrightarrow> u \<in> mk s \<Longrightarrow>
           set vs \<subseteq> adj_rel g `` {u} \<Longrightarrow> t0 \<le> dsc s u \<Longrightarrow> t0 \<le> lw s u \<Longrightarrow>
           oldclosed g t0 s \<Longrightarrow> lpost_loop t0 u s s'"
proof (induction d g v s and d g u vs s arbitrary: s' and s' rule: bcc_dfs_bcc_loop.induct)
  case (1 g u s)
  then show ?case by simp
next
  case (2 d g u s)
  note gi = "2.prems"(2) and inv = "2.prems"(3) and nu = "2.prems"(4) and pp = "2.prems"(5)
    and t0 = "2.prems"(6) and oc = "2.prems"(7)
  let ?s1 = "enter u s"
  from "2.prems"(1) have r: "in_range (visited s) u" "in_range (AdjList g) u"
    and l: "bcc_loop d g u (AdjList g ! nat u) ?s1 = Inr s'"
    by (auto split: if_splits)
  have i1: "tinv g ?s1" using tinv_enter[OF inv r(1) nu pp] .
  have m1: "mk ?s1 = insert u (mk s)" using r by (simp add: marked_update)
  have um1: "u \<in> mk ?s1" using m1 by simp
  have sub: "set (AdjList g ! nat u) \<subseteq> adj_rel g `` {u}" using r(2) by (simp add: adj_rel_adj)
  have lens: "nat u < length (discovery s)" "nat u < length (low s)"
    using r(1) tinv_lens[OF inv] by (simp_all add: in_range_nat)
  have du: "dsc ?s1 u = time s" "lw ?s1 u = time s" using lens by simp_all
  have dx: "dsc ?s1 x = dsc s x" if "x \<in> mk s" for x
  proof -
    from that nu have "x \<noteq> u" by auto
    with nat_neq[OF mk_in_range[OF that] r(1)] show ?thesis by simp
  qed
  have oc1: "oldclosed g t0 ?s1"
  proof (rule oldclosed_step[OF oc])
    show "mk s \<subseteq> mk ?s1" using m1 by auto
    show "\<forall>x \<in> mk s. dsc ?s1 x = dsc s x" using dx by blast
    show "\<forall>w \<in> newly s ?s1. t0 \<le> dsc ?s1 w" using m1 du t0 by (auto simp: newly_def)
  qed
  have gl: "gpost_loop g u (AdjList g ! nat u) ?s1 s'" using bcc_generic(2)[OF l i1 um1 sub] .
  then have m1': "mk ?s1 \<subseteq> mk s'" by (simp add: gpost_loop_def tframe_def)
  have "lpost_loop t0 u ?s1 s'"
    using "2.IH"[OF _ _ l gi i1 um1 sub _ _ oc1] r du t0 by simp
  then show ?case by (rule lpost_dfs_from_loop[OF inv r(1) nu m1'])
next
  case (3 d g u s)
  then show ?case by (simp add: lpost_loop_nil)
next
  case (4 d g u v vs s)
  note gi = "4.prems"(2) and inv = "4.prems"(3) and um = "4.prems"(4)
    and du = "4.prems"(6) and lu = "4.prems"(7) and oc = "4.prems"(8)
  from "4.prems"(1) have r: "in_range (visited s) v" by (auto split: if_splits)
  have e: "(u, v) \<in> adj_rel g" and sub: "set vs \<subseteq> adj_rel g `` {u}" using "4.prems"(5) by auto
  have tu: "dsc s u < time s" using inv um by (simp add: tinv_def)
  show ?case
  proof (cases "visited s ! nat v")
    case False
    let ?s1 = "s\<lparr>parent := (parent s)[nat v := u], stack := stack s @ [(u, v)]\<rparr>"
    from "4.prems"(1) r False obtain s2 where
      d: "bcc_dfs d g v ?s1 = Inr s2" and l: "bcc_loop d g u vs (bcc_return u v s2) = Inr s'"
      by (auto split: sum.splits)
    let ?s3 = "bcc_return u v s2"
    have nv: "v \<notin> mk s" using False by (simp add: marked_def)
    have i1: "tinv g ?s1"
      by (rule tinv_parent_upd[OF inv nv r]) simp_all
    have lenp: "length (parent s) = length (visited s)" using inv by (simp add: tinv_def)
    have pv: "par ?s1 v = u" using r lenp by (simp add: in_range_nat)
    have pre: "par ?s1 v = - 1 \<or> (par ?s1 v \<in> mk ?s1 \<and> (par ?s1 v, v) \<in> adj_rel g)"
      unfolding pv using um e by simp
    have nv1: "v \<notin> mk ?s1" using nv by simp
    have t1: "t0 \<le> time ?s1" using du tu by simp
    have oc1: "oldclosed g t0 ?s1" using oc oldclosed_cong[of ?s1 s g t0] by simp
    have g2: "gpost_dfs g v ?s1 s2" using bcc_generic(1)[OF d i1 nv1 pre] .
    then have i2: "tinv g s2" and f12: "tframe g ?s1 s2" and vm2: "v \<in> mk s2"
      by (simp_all add: gpost_dfs_def)
    have m12: "mk ?s1 \<subseteq> mk s2" using f12 by (simp add: tframe_def)
    have p2: "lpost_dfs t0 ?s1 s2"
      using "4.IH"(1)[OF _ _ d gi i1 nv1 pre t1 oc1] r False by simp
    have i3: "tinv g ?s3" using i2 by (simp add: tinv_def)
    have um3: "u \<in> mk ?s3" using m12 um by auto
    have d3: "dsc ?s3 u = dsc s u" using f12 um by (simp add: tframe_def)
    have oc2: "oldclosed g t0 s2" using oldclosed_frame[OF oc1 f12 t1] .
    have oc3: "oldclosed g t0 ?s3" using oc2 oldclosed_cong[of ?s3 s2 g t0] by simp
    have l3: "t0 \<le> lw ?s3 u"
      by (rule lpost_child_low(1)[OF i2 um nv vm2 _ _ m12 lu p2]) simp_all
    have g3: "gpost_loop g u vs ?s3 s'" using bcc_generic(2)[OF l i3 um3 sub] .
    then have m3: "mk ?s3 \<subseteq> mk s'" by (simp add: gpost_loop_def tframe_def)
    have p3: "lpost_loop t0 u ?s3 s'"
      using "4.IH"(2)[OF _ _ d l gi i3 um3 sub _ l3 oc3] r False d3 du by simp
    show ?thesis
      by (rule lpost_loop_child[OF i2 um nv _ _ _ m12 m3 lu p2 p3]) simp_all
  next
    case True
    then have vm: "v \<in> mk s" using r by (simp add: marked_def)
    show ?thesis
    proof (cases "v \<noteq> par s u \<and> dsc s v < dsc s u")
      case T: True
      let ?t = "s\<lparr>low := (low s)[nat u := min_int (lw s u) (dsc s v)], stack := stack s @ [(u, v)]\<rparr>"
      from "4.prems"(1) r True T have l: "bcc_loop d g u vs ?t = Inr s'" by simp
      have it: "tinv g ?t" using inv by (simp add: tinv_def)
      have umt: "u \<in> mk ?t" using um by simp
      have oct: "oldclosed g t0 ?t" using oc oldclosed_cong[of ?t s g t0] by simp
      have dv: "t0 \<le> dsc s v" using oldclosed_no_back[OF gi oc e vm du] .
      have lenl: "nat u < length (low s)" using mk_nat_less[OF inv um] tinv_lens(3)[OF inv] by simp
      have lt: "t0 \<le> lw ?t u" using lenl lu dv by (simp add: min_int_min)
      have "lpost_loop t0 u ?t s'"
        using "4.IH"(3)[OF _ _ _ l gi it umt sub _ lt oct] r True T du by simp
      then show ?thesis by (rule lpost_loop_back[OF _ _ _ um, rotated -1]) simp_all
    next
      case F: False
      from "4.prems"(1) r True F have l: "bcc_loop d g u vs s = Inr s'" by auto
      show ?thesis using "4.IH"(4)[OF _ _ _ l gi inv um sub du lu oc] r True F by simp
    qed
  qed
qed

lemma bcc_return_pop:
  assumes "stack s = base @ (u, v) # rest" "(u, v) \<notin> set rest" "nat u \<noteq> nat v" "dsc s u \<le> lw s v"
  shows "stack (bcc_return u v s) = base"
  using assms by (simp add: bcc_return_def Let_def pop_component_found)

lemma bcc_root_loop:
  "bcc_loop d g r vs s = Inr s' \<Longrightarrow> graph_inv g \<Longrightarrow> tinv g s \<Longrightarrow> r \<in> mk s \<Longrightarrow>
   set vs \<subseteq> adj_rel g `` {r} \<Longrightarrow> dsc s r = t0 \<Longrightarrow> t0 \<le> lw s r \<Longrightarrow> oldclosed g t0 s \<Longrightarrow>
   stack s = [] \<Longrightarrow> stack s' = []"
proof (induction vs arbitrary: s)
  case Nil
  then show ?case by simp
next
  case (Cons v vs)
  note gi = Cons.prems(2) and inv = Cons.prems(3) and um = Cons.prems(4)
    and du = Cons.prems(6) and lu = Cons.prems(7) and oc = Cons.prems(8) and st = Cons.prems(9)
  from Cons.prems(1) have r: "in_range (visited s) v" by (auto split: if_splits)
  have e: "(r, v) \<in> adj_rel g" and sub: "set vs \<subseteq> adj_rel g `` {r}" using Cons.prems(5) by auto
  have tu: "dsc s r < time s" using inv um by (simp add: tinv_def)
  show ?case
  proof (cases "visited s ! nat v")
    case False
    let ?s1 = "s\<lparr>parent := (parent s)[nat v := r], stack := stack s @ [(r, v)]\<rparr>"
    from Cons.prems(1) r False obtain s2 where
      d: "bcc_dfs d g v ?s1 = Inr s2" and l: "bcc_loop d g r vs (bcc_return r v s2) = Inr s'"
      by (auto split: sum.splits)
    let ?s3 = "bcc_return r v s2"
    have nv: "v \<notin> mk s" using False by (simp add: marked_def)
    have i1: "tinv g ?s1"
      by (rule tinv_parent_upd[OF inv nv r]) simp_all
    have lenp: "length (parent s) = length (visited s)" using inv by (simp add: tinv_def)
    have pv: "par ?s1 v = r" using r lenp by (simp add: in_range_nat)
    have pre: "par ?s1 v = - 1 \<or> (par ?s1 v \<in> mk ?s1 \<and> (par ?s1 v, v) \<in> adj_rel g)"
      unfolding pv using um e by simp
    have nv1: "v \<notin> mk ?s1" using nv by simp
    have t1: "t0 \<le> time ?s1" using du tu by simp
    have oc1: "oldclosed g t0 ?s1" using oc oldclosed_cong[of ?s1 s g t0] by simp
    have g2: "gpost_dfs g v ?s1 s2" using bcc_generic(1)[OF d i1 nv1 pre] .
    then have i2: "tinv g s2" and f12: "tframe g ?s1 s2" and vm2: "v \<in> mk s2"
      by (simp_all add: gpost_dfs_def)
    have m12: "mk ?s1 \<subseteq> mk s2" using f12 by (simp add: tframe_def)
    have p2: "lpost_dfs t0 ?s1 s2" using bcc_low_stack(1)[OF d gi i1 nv1 pre t1 oc1] .
    have i3: "tinv g ?s3" using i2 by (simp add: tinv_def)
    have um2: "r \<in> mk s2" using m12 um by auto
    then have um3: "r \<in> mk ?s3" by simp
    have d2: "dsc s2 r = t0" using f12 um du by (simp add: tframe_def)
    then have d3: "dsc ?s3 r = t0" by simp
    have oc2: "oldclosed g t0 s2" using oldclosed_frame[OF oc1 f12 t1] .
    have oc3: "oldclosed g t0 ?s3" using oc2 oldclosed_cong[of ?s3 s2 g t0] by simp
    have l3: "t0 \<le> lw ?s3 r"
      by (rule lpost_child_low(1)[OF i2 um nv vm2 _ _ m12 lu p2]) simp_all
    have lv: "t0 \<le> lw s2 v"
      by (rule lpost_child_low(2)[OF i2 um nv vm2 _ _ m12 lu p2]) simp_all
    from p2 obtain rest where rest: "stack s2 = stack ?s1 @ rest" "\<forall>e \<in> set rest. fst e \<in> newly ?s1 s2"
      unfolding lpost_dfs_def by blast
    have "r \<notin> newly ?s1 s2" using um by (simp add: newly_def)
    then have nin: "(r, v) \<notin> set rest" using rest(2) by force
    have s2: "stack s2 = [] @ (r, v) # rest" using rest(1) st by simp
    have "r \<noteq> v" using um nv by auto
    then have nn: "nat r \<noteq> nat v" using mk_nat_neq[OF um2 vm2] by simp
    have st3: "stack ?s3 = []" using bcc_return_pop[OF s2 nin nn] d2 lv by simp
    show ?thesis using Cons.IH[OF l gi i3 um3 sub d3 l3 oc3 st3] .
  next
    case True
    then have vm: "v \<in> mk s" using r by (simp add: marked_def)
    have dv: "t0 \<le> dsc s v" using oldclosed_no_back[OF gi oc e vm] du by simp
    then have "\<not> (v \<noteq> par s r \<and> dsc s v < dsc s r)" using du by simp
    with Cons.prems(1) r True have l: "bcc_loop d g r vs s = Inr s'" by auto
    show ?thesis using Cons.IH[OF l gi inv um sub du lu oc st] .
  qed
qed

lemma bcc_root_dfs:
  assumes d: "bcc_dfs d g r s = Inr s'" and gi: "graph_inv g" and oi: "bcc_outer_inv g s"
    and nr: "r \<notin> mk s"
  shows "stack s' = []" "\<forall>w \<in> newly s s'. dsc s' r \<le> lw s' w" "bcc_outer_inv g s'"
proof -
  from oi have inv: "tinv g s" and cl: "\<forall>x \<in> mk s. adj_rel g `` {x} \<subseteq> mk s" and st: "stack s = []"
    and pm: "\<forall>x. in_range (AdjList g) x \<and> x \<notin> mk s \<longrightarrow> par s x = - 1"
    unfolding bcc_outer_inv_def by blast+
  from d obtain d' where dd: "d = Suc d'" by (cases d) auto
  let ?s1 = "enter r s"
  from d dd have r: "in_range (visited s) r" "in_range (AdjList g) r"
    and l: "bcc_loop d' g r (AdjList g ! nat r) ?s1 = Inr s'"
    by (auto split: if_splits)
  have pr: "par s r = - 1" using pm r(2) nr by blast
  then have pp: "par s r = - 1 \<or> (par s r \<in> mk s \<and> (par s r, r) \<in> adj_rel g)" by simp
  have oc: "oldclosed g (time s) s" unfolding oldclosed_def
  proof (intro ballI impI)
    fix x y assume "x \<in> mk s" "y \<in> adj_rel g `` {x}"
    with cl have "y \<in> mk s" by blast
    with inv show "y \<in> mk s \<and> dsc s y < time s" by (simp add: tinv_def)
  qed
  have gd: "gpost_dfs g r s s'" using bcc_generic(1)[OF d inv nr pp] .
  then have i': "tinv g s'" and f: "tframe g s s'" and dr: "dsc s' r = time s"
    by (simp_all add: gpost_dfs_def)
  have lp: "lpost_dfs (time s) s s'" using bcc_low_stack(1)[OF d gi inv nr pp _ oc] by simp
  then show low: "\<forall>w \<in> newly s s'. dsc s' r \<le> lw s' w" unfolding dr lpost_dfs_def by blast
  have i1: "tinv g ?s1" using tinv_enter[OF inv r(1) nr pp] .
  have m1: "mk ?s1 = insert r (mk s)" using r by (simp add: marked_update)
  have um1: "r \<in> mk ?s1" using m1 by simp
  have sub: "set (AdjList g ! nat r) \<subseteq> adj_rel g `` {r}" using r(2) by (simp add: adj_rel_adj)
  have lens: "nat r < length (discovery s)" "nat r < length (low s)"
    using r(1) tinv_lens[OF inv] by (simp_all add: in_range_nat)
  have du: "dsc ?s1 r = time s" "time s \<le> lw ?s1 r" using lens by simp_all
  have dx: "dsc ?s1 x = dsc s x" if "x \<in> mk s" for x
  proof -
    from that nr have "x \<noteq> r" by auto
    with nat_neq[OF mk_in_range[OF that] r(1)] show ?thesis by simp
  qed
  have oc1: "oldclosed g (time s) ?s1"
  proof (rule oldclosed_step[OF oc])
    show "mk s \<subseteq> mk ?s1" using m1 by auto
    show "\<forall>x \<in> mk s. dsc ?s1 x = dsc s x" using dx by blast
    show "\<forall>w \<in> newly s ?s1. time s \<le> dsc ?s1 w" using m1 du by (auto simp: newly_def)
  qed
  have st1: "stack ?s1 = []" using st by (simp add: enter_def)
  show st': "stack s' = []" using bcc_root_loop[OF l gi i1 um1 sub du oc1 st1] .
  from f have f1: "mk s \<subseteq> mk s'"
    and f4: "\<forall>x. in_range (AdjList g) x \<and> x \<notin> mk s' \<longrightarrow> par s' x = par s x"
    and f5: "\<forall>w \<in> newly s s'. adj_rel g `` {w} \<subseteq> mk s'"
    unfolding tframe_def by blast+
  show "bcc_outer_inv g s'" unfolding bcc_outer_inv_def
  proof (intro conjI ballI allI impI)
    show "tinv g s'" by (rule i')
    show "stack s' = []" by (rule st')
    show "adj_rel g `` {x} \<subseteq> mk s'" if "x \<in> mk s'" for x
    proof (cases "x \<in> mk s")
      case True then show ?thesis using cl f1 by blast
    next
      case False
      with that have "x \<in> newly s s'" by (simp add: newly_def)
      then show ?thesis using f5 by blast
    qed
    show "par s' x = - 1" if "in_range (AdjList g) x \<and> x \<notin> mk s'" for x
      using that f4 pm f1 by (metis subsetD)
  qed
qed

lemma bcc_flush_empty: "stack s = [] \<Longrightarrow> bcc_flush s = s"
  by (simp add: bcc_flush_def)

lemma bcc_roots_inv:
  "bcc_roots d g us s = Inr s' \<Longrightarrow> graph_inv g \<Longrightarrow> bcc_outer_inv g s \<Longrightarrow> bcc_outer_inv g s'"
proof (induction us arbitrary: s)
  case Nil
  then show ?case by simp
next
  case (Cons u us)
  from Cons.prems(1) have r: "in_range (visited s) u" by (auto split: if_splits)
  show ?case
  proof (cases "visited s ! nat u")
    case True
    with Cons.prems(1) r have "bcc_roots d g us s = Inr s'" by simp
    from Cons.IH[OF this Cons.prems(2,3)] show ?thesis .
  next
    case False
    with Cons.prems(1) r obtain s1 where
      d: "bcc_dfs d g u s = Inr s1" and l: "bcc_roots d g us (bcc_flush s1) = Inr s'"
      by (auto split: sum.splits)
    have nu: "u \<notin> mk s" using False by (simp add: marked_def)
    from bcc_root_dfs[OF d Cons.prems(2,3) nu] have "stack s1 = []" "bcc_outer_inv g s1" by blast+
    then have "bcc_outer_inv g (bcc_flush s1)" by (simp add: bcc_flush_empty)
    from Cons.IH[OF l Cons.prems(2) this] show ?thesis .
  qed
qed

lemma bcc_init_inv: "graph_inv g \<Longrightarrow> bcc_outer_inv g (bcc_init g)"
proof -
  assume gi: "graph_inv g"
  then have n: "nat (Vertices g) = length (AdjList g)" by (auto simp: graph_inv_def)
  have m: "mk (bcc_init g) = {}" by (auto simp: bcc_init_def marked_def in_range_def)
  have "tinv g (bcc_init g)" unfolding tinv_def m using n by (simp add: bcc_init_def)
  moreover have "par (bcc_init g) x = - 1" if "in_range (AdjList g) x" for x
    using that n by (simp add: bcc_init_def in_range_nat)
  ultimately show ?thesis unfolding bcc_outer_inv_def m by (simp add: bcc_init_def)
qed

text \<open>
  Claim C8.  In the outer loop of \<open>BiconnectedComponents\<close>, when the DFS started from an
  unvisited root returns, the edges still on the stack (if any) are appended to the
  result as one final component, and the next root is started with an empty stack.
\<close>

theorem bcc_residual_flush:
  assumes "in_range (visited s) u" and "\<not> visited s ! nat u" and "bcc_dfs d g u s = Inr s1"
  shows "bcc_roots d g (u # us) s =
           bcc_roots d g us
             (s1\<lparr>bcc := bcc s1 @ (if stack s1 = [] then [] else [stack s1]), stack := []\<rparr>)"
proof (cases "stack s1 = []")
  case True
  then have e: "s1\<lparr>bcc := bcc s1 @ (if stack s1 = [] then [] else [stack s1]), stack := []\<rparr> = s1"
    by (cases s1) simp
  show ?thesis unfolding e using assms True by (simp add: bcc_flush_def)
next
  case False
  with assms show ?thesis by (simp add: bcc_flush_def)
qed

theorem bcc_residual_flush_witness:
  "bcc_roots 2 \<lparr>Vertices = 2, AdjList = [[], [0]]\<rparr> [1]
     \<lparr>visited = [True, False], discovery = [0, 0], low = [0, 0], parent = [- 1, - 1],
      time = 1, stack = [], bcc = []\<rparr>
   = Inr \<lparr>visited = [True, True], discovery = [0, 1], low = [0, 0], parent = [- 1, - 1],
          time = 2, stack = [], bcc = [[(1, 0)]]\<rparr>"
proof -
  let ?g = "\<lparr>Vertices = 2, AdjList = [[], [0]]\<rparr>"
  let ?s = "\<lparr>visited = [True, False], discovery = [0, 0], low = [0, 0], parent = [- 1, - 1],
      time = 1, stack = [], bcc = []\<rparr>"
  let ?s1 = "\<lparr>visited = [True, True], discovery = [0, 1], low = [0, 0], parent = [- 1, - 1],
      time = 2, stack = [(1, 0)], bcc = []\<rparr>"
  have a: "in_range (visited ?s) 1" by (simp add: in_range_def)
  have b: "\<not> visited ?s ! nat 1" by simp
  have c: "bcc_dfs 2 ?g 1 ?s = Inr ?s1" by code_simp
  show ?thesis unfolding bcc_residual_flush[OF a b c] by simp
qed

text \<open>
  Claim C10.  On a graph with the symmetric adjacency invariant, at every iteration of
  the outer loop of \<open>BiconnectedComponents\<close> the DFS of a root returns with an empty edge
  stack, every vertex of its tree has a low-link at or above the discovery time of the
  root, and the residual flush changes nothing.
\<close>

theorem bcc_root_stack_empty:
  assumes "graph_inv g" and "bcc_roots d g us (bcc_init g) = Inr s"
    and "in_range (visited s) u" and "\<not> visited s ! nat u" and "bcc_dfs d g u s = Inr s1"
  shows "stack s1 = [] \<and> bcc_flush s1 = s1 \<and>
         (\<forall>w. w \<in> marked (visited s1) \<and> w \<notin> marked (visited s) \<longrightarrow>
              discovery s1 ! nat u \<le> low s1 ! nat w)"
proof -
  have oi: "bcc_outer_inv g s" using bcc_roots_inv[OF assms(2,1) bcc_init_inv[OF assms(1)]] .
  have nu: "u \<notin> mk s" using assms(4) by (simp add: marked_def)
  from bcc_root_dfs[OF assms(5,1) oi nu] show ?thesis
    by (simp add: bcc_flush_empty newly_def)
qed

theorem bcc_root_stack_empty_witness:
  "bcc_dfs 2 \<lparr>Vertices = 4, AdjList = [[1], [0], [3], [2]]\<rparr> 2
     \<lparr>visited = [True, True, False, False], discovery = [0, 1, 0, 0],
        low = [0, 1, 0, 0], parent = [- 1, 0, - 1, - 1], time = 2,
        stack = [], bcc = [[(0, 1)]]\<rparr>
   = Inr \<lparr>visited = [True, True, True, True], discovery = [0, 1, 2, 3],
        low = [0, 1, 2, 3], parent = [- 1, 0, - 1, 2], time = 4, stack = [],
        bcc = [[(0, 1)], [(2, 3)]]\<rparr> \<and>
   stack \<lparr>visited = [True, True, True, True], discovery = [0, 1, 2, 3],
        low = [0, 1, 2, 3], parent = [- 1, 0, - 1, 2], time = 4, stack = [],
        bcc = [[(0, 1)], [(2, 3)]]\<rparr> = []"
proof -
  let ?g = "\<lparr>Vertices = 4, AdjList = [[1], [0], [3], [2]]\<rparr>"
  let ?s = "\<lparr>visited = [True, True, False, False], discovery = [0, 1, 0, 0],
        low = [0, 1, 0, 0], parent = [- 1, 0, - 1, - 1], time = 2,
        stack = [], bcc = [[(0, 1)]]\<rparr>"
  let ?s1 = "\<lparr>visited = [True, True, True, True], discovery = [0, 1, 2, 3],
        low = [0, 1, 2, 3], parent = [- 1, 0, - 1, 2], time = 4, stack = [],
        bcc = [[(0, 1)], [(2, 3)]]\<rparr>"
  have gi: "graph_inv ?g" by code_simp
  have a: "bcc_roots 2 ?g [0, 1] (bcc_init ?g) = Inr ?s" by code_simp
  have b: "in_range (visited ?s) 2" by (simp add: in_range_def)
  have c: "\<not> visited ?s ! nat 2" by simp
  have e: "bcc_dfs 2 ?g 2 ?s = Inr ?s1" by code_simp
  from bcc_root_stack_empty[OF gi a b c e] e show ?thesis by blast
qed

section \<open>Termination: fuel of at least the number of vertices suffices\<close>

lemma ap_return_fields [simp]:
  "visited (ap_return u v c s) = visited s"
  "discovery (ap_return u v c s) = discovery s"
  "parent (ap_return u v c s) = parent s"
  "time (ap_return u v c s) = time s"
  "low (ap_return u v c s) = (low s)[nat u := min_int (lw s u) (lw s v)]"
  by (simp_all add: ap_return_def Let_def)

lemma ap_generic:
  shows "ap_dfs d g v s = Inr s' \<Longrightarrow> tinv g s \<Longrightarrow> v \<notin> mk s \<Longrightarrow>
           par s v = - 1 \<or> (par s v \<in> mk s \<and> (par s v, v) \<in> adj_rel g) \<Longrightarrow>
           gpost_dfs g v s s'"
    and "ap_loop d g u c vs s = Inr s' \<Longrightarrow> tinv g s \<Longrightarrow> u \<in> mk s \<Longrightarrow>
           set vs \<subseteq> adj_rel g `` {u} \<Longrightarrow> gpost_loop g u vs s s'"
proof (induction d g v s and d g u c vs s arbitrary: s' and s' rule: ap_dfs_ap_loop.induct)
  case (1 g u s)
  then show ?case by simp
next
  case (2 d g u s)
  from "2.prems"(1) have r: "in_range (visited s) u" "in_range (AdjList g) u"
    and l: "ap_loop d g u 0 (AdjList g ! nat u) (enter u s) = Inr s'"
    by (auto split: if_splits)
  have i1: "tinv g (enter u s)" using tinv_enter[OF "2.prems"(2) r(1) "2.prems"(3,4)] .
  have m1: "u \<in> mk (enter u s)" using r by (simp add: marked_update)
  have sub: "set (AdjList g ! nat u) \<subseteq> adj_rel g `` {u}" using r(2) by (simp add: adj_rel_adj)
  from "2.IH"[OF _ _ l i1 m1 sub] r
  have "gpost_loop g u (AdjList g ! nat u) (enter u s) s'" by simp
  then show ?case by (rule gpost_dfs_from_loop[OF "2.prems"(2) r "2.prems"(3)])
next
  case (3 d g u c s)
  then show ?case by (simp add: gpost_loop_nil)
next
  case (4 d g u c v vs s)
  from "4.prems"(1) have r: "in_range (visited s) v" by (auto split: if_splits)
  have e: "(u, v) \<in> adj_rel g" and sub: "set vs \<subseteq> adj_rel g `` {u}" using "4.prems"(4) by auto
  show ?case
  proof (cases "visited s ! nat v")
    case False
    let ?s1 = "s\<lparr>parent := (parent s)[nat v := u]\<rparr>"
    from "4.prems"(1) r False obtain s2 where
      d: "ap_dfs d g v ?s1 = Inr s2" and l: "ap_loop d g u (c + 1) vs (ap_return u v (c + 1) s2) = Inr s'"
      by (auto split: sum.splits)
    have nv: "v \<notin> mk s" using False by (simp add: marked_def)
    have i1: "tinv g ?s1"
      by (rule tinv_parent_upd[OF "4.prems"(2) nv r]) simp_all
    have lenp: "length (parent s) = length (visited s)" using "4.prems"(2) by (simp add: tinv_def)
    have pv: "par ?s1 v = u" using r lenp by (simp add: in_range_nat)
    have pre: "par ?s1 v = - 1 \<or> (par ?s1 v \<in> mk ?s1 \<and> (par ?s1 v, v) \<in> adj_rel g)"
      unfolding pv using "4.prems"(3) e by simp
    have nv1: "v \<notin> mk ?s1" using nv by simp
    from "4.IH"(1)[OF _ _ d i1 nv1 pre] r False have g2: "gpost_dfs g v ?s1 s2" by simp
    then have i2: "tinv g s2" and f12: "tframe g ?s1 s2" by (simp_all add: gpost_dfs_def)
    have i3: "tinv g (ap_return u v (c + 1) s2)" using i2 by (simp add: tinv_def)
    have um3: "u \<in> mk (ap_return u v (c + 1) s2)" using f12 "4.prems"(3) by (auto simp: tframe_def)
    from "4.IH"(2)[OF _ _ d l i3 um3 sub] r False
    have g3: "gpost_loop g u vs (ap_return u v (c + 1) s2) s'" by simp
    show ?thesis
      by (rule gpost_loop_child[OF "4.prems"(2,3) nv r e _ _ _ _ g2 _ _ _ _ g3]) simp_all
  next
    case True
    then have vm: "v \<in> mk s" using r by (simp add: marked_def)
    show ?thesis
    proof (cases "v \<noteq> par s u")
      case T: True
      let ?t = "s\<lparr>low := (low s)[nat u := min_int (lw s u) (dsc s v)]\<rparr>"
      from "4.prems"(1) r True T have l: "ap_loop d g u c vs ?t = Inr s'" by simp
      have it: "tinv g ?t" using "4.prems"(2) by (simp add: tinv_def)
      have um: "u \<in> mk ?t" using "4.prems"(3) by simp
      from "4.IH"(3)[OF _ _ _ l it um sub] r True T have "gpost_loop g u vs ?t s'" by simp
      then show ?thesis by (rule gpost_loop_skip[OF vm, rotated -1]) simp_all
    next
      case F: False
      from "4.prems"(1) r True F have l: "ap_loop d g u c vs s = Inr s'" by auto
      from "4.IH"(4)[OF _ _ _ l "4.prems"(2,3) sub] r True F have "gpost_loop g u vs s s'" by simp
      then show ?thesis by (rule gpost_loop_skip[OF vm, rotated -1]) simp_all
    qed
  qed
qed

lemma unmarked_card_enter:
  assumes inv: "tinv g s" and r: "in_range (AdjList g) u" and nu: "u \<notin> mk s"
    and c: "card ({0..<int (length (AdjList g))} - mk s) \<le> Suc d"
  shows "card ({0..<int (length (AdjList g))} - mk (enter u s)) \<le> d"
proof -
  let ?S = "{0..<int (length (AdjList g))}"
  have rv: "in_range (visited s) u" using r tinv_lens(1)[OF inv] by (simp add: in_range_def)
  have m1: "mk (enter u s) = insert u (mk s)" using rv by (simp add: marked_update)
  have uin: "u \<in> ?S - mk s" using r nu by (auto simp: in_range_def)
  have "?S - mk (enter u s) = (?S - mk s) - {u}" unfolding m1 by auto
  then have "card (?S - mk (enter u s)) = card (?S - mk s) - 1"
    using uin by (simp add: card_Diff_singleton)
  moreover have "card (?S - mk s) \<noteq> 0"
    using uin by (metis card_eq_0_iff empty_iff finite_Diff finite_atLeastLessThan_int)
  ultimately show ?thesis using c by simp
qed

lemma unmarked_card_zero:
  assumes r: "in_range (AdjList g) u" and nu: "u \<notin> mk s"
  shows "\<not> card ({0..<int (length (AdjList g))} - mk s) \<le> 0"
proof -
  have "u \<in> {0..<int (length (AdjList g))} - mk s" using r nu by (auto simp: in_range_def)
  then have "card ({0..<int (length (AdjList g))} - mk s) \<noteq> 0"
    by (metis card_eq_0_iff empty_iff finite_Diff finite_atLeastLessThan_int)
  then show ?thesis by simp
qed

lemma unmarked_card_mono:
  assumes "mk s \<subseteq> mk s'" "card ({0..<int n} - mk s) \<le> d"
  shows "card ({0..<int n} - mk s') \<le> d"
proof -
  have "card ({0..<int n} - mk s') \<le> card ({0..<int n} - mk s)"
    using assms(1) by (intro card_mono) auto
  with assms(2) show ?thesis by simp
qed

lemma bcc_progress:
  shows "graph_inv g \<Longrightarrow> tinv g s \<Longrightarrow> in_range (AdjList g) v \<Longrightarrow> v \<notin> mk s \<Longrightarrow>
         par s v = - 1 \<or> (par s v \<in> mk s \<and> (par s v, v) \<in> adj_rel g) \<Longrightarrow>
         card ({0..<int (length (AdjList g))} - mk s) \<le> d \<Longrightarrow>
         \<exists>s'. bcc_dfs d g v s = Inr s'"
    and "graph_inv g \<Longrightarrow> tinv g s \<Longrightarrow> u \<in> mk s \<Longrightarrow> set vs \<subseteq> adj_rel g `` {u} \<Longrightarrow>
         card ({0..<int (length (AdjList g))} - mk s) \<le> d \<Longrightarrow>
         \<exists>s'. bcc_loop d g u vs s = Inr s'"
proof (induction d g v s and d g u vs s rule: bcc_dfs_bcc_loop.induct)
  case (1 g u s)
  with unmarked_card_zero[OF "1.prems"(3,4)] show ?case by simp
next
  case (2 d g u s)
  note gi = "2.prems"(1) and inv = "2.prems"(2) and r = "2.prems"(3) and nu = "2.prems"(4)
  have rv: "in_range (visited s) u" using r tinv_lens(1)[OF inv] by (simp add: in_range_def)
  have i1: "tinv g (enter u s)" using tinv_enter[OF inv rv nu "2.prems"(5)] .
  have m1: "u \<in> mk (enter u s)" using rv by (simp add: marked_update)
  have sub: "set (AdjList g ! nat u) \<subseteq> adj_rel g `` {u}" using r by (simp add: adj_rel_adj)
  have c: "card ({0..<int (length (AdjList g))} - mk (enter u s)) \<le> d"
    using unmarked_card_enter[OF inv r nu "2.prems"(6)] .
  from "2.IH"[OF _ _ gi i1 m1 sub c] rv r show ?case by simp
next
  case (3 d g u s)
  then show ?case by simp
next
  case (4 d g u v vs s)
  note gi = "4.prems"(1) and inv = "4.prems"(2) and um = "4.prems"(3) and c = "4.prems"(5)
  have e: "(u, v) \<in> adj_rel g" and sub: "set vs \<subseteq> adj_rel g `` {u}" using "4.prems"(4) by auto
  have ra: "in_range (AdjList g) v" using adj_rel_in_range[OF gi e] by simp
  then have r: "in_range (visited s) v" using tinv_lens(1)[OF inv] by (simp add: in_range_def)
  show ?case
  proof (cases "visited s ! nat v")
    case False
    let ?s1 = "s\<lparr>parent := (parent s)[nat v := u], stack := stack s @ [(u, v)]\<rparr>"
    have nv: "v \<notin> mk s" using False by (simp add: marked_def)
    have i1: "tinv g ?s1"
      by (rule tinv_parent_upd[OF inv nv r]) simp_all
    have lenp: "length (parent s) = length (visited s)" using inv by (simp add: tinv_def)
    have pv: "par ?s1 v = u" using r lenp by (simp add: in_range_nat)
    have pre: "par ?s1 v = - 1 \<or> (par ?s1 v \<in> mk ?s1 \<and> (par ?s1 v, v) \<in> adj_rel g)"
      unfolding pv using um e by simp
    have nv1: "v \<notin> mk ?s1" using nv by simp
    have c1: "card ({0..<int (length (AdjList g))} - mk ?s1) \<le> d" using c by simp
    from "4.IH"(1)[OF _ _ gi i1 ra nv1 pre c1] r False obtain s2 where d: "bcc_dfs d g v ?s1 = Inr s2"
      by auto
    have g2: "gpost_dfs g v ?s1 s2" using bcc_generic(1)[OF d i1 nv1 pre] .
    then have i2: "tinv g s2" and f12: "tframe g ?s1 s2" by (simp_all add: gpost_dfs_def)
    have m12: "mk s \<subseteq> mk s2" using f12 by (simp add: tframe_def)
    have i3: "tinv g (bcc_return u v s2)" using i2 by (simp add: tinv_def)
    have um3: "u \<in> mk (bcc_return u v s2)" using m12 um by auto
    have c3: "card ({0..<int (length (AdjList g))} - mk (bcc_return u v s2)) \<le> d"
      using unmarked_card_mono[OF m12 c] by simp
    from "4.IH"(2)[OF _ _ d gi i3 um3 sub c3] r False
    obtain s' where "bcc_loop d g u vs (bcc_return u v s2) = Inr s'" by auto
    then show ?thesis using d r False by simp
  next
    case True
    show ?thesis
    proof (cases "v \<noteq> par s u \<and> dsc s v < dsc s u")
      case T: True
      let ?t = "s\<lparr>low := (low s)[nat u := min_int (lw s u) (dsc s v)], stack := stack s @ [(u, v)]\<rparr>"
      have it: "tinv g ?t" using inv by (simp add: tinv_def)
      have umt: "u \<in> mk ?t" using um by simp
      have ct: "card ({0..<int (length (AdjList g))} - mk ?t) \<le> d" using c by simp
      from "4.IH"(3)[OF _ _ _ gi it umt sub ct] r True T show ?thesis by simp
    next
      case F: False
      from "4.IH"(4)[OF _ _ _ gi inv um sub c] r True F show ?thesis by auto
    qed
  qed
qed

lemma ap_progress:
  shows "graph_inv g \<Longrightarrow> tinv g s \<Longrightarrow> in_range (AdjList g) v \<Longrightarrow> v \<notin> mk s \<Longrightarrow>
         par s v = - 1 \<or> (par s v \<in> mk s \<and> (par s v, v) \<in> adj_rel g) \<Longrightarrow>
         card ({0..<int (length (AdjList g))} - mk s) \<le> d \<Longrightarrow>
         \<exists>s'. ap_dfs d g v s = Inr s'"
    and "graph_inv g \<Longrightarrow> tinv g s \<Longrightarrow> u \<in> mk s \<Longrightarrow> set vs \<subseteq> adj_rel g `` {u} \<Longrightarrow>
         card ({0..<int (length (AdjList g))} - mk s) \<le> d \<Longrightarrow>
         \<exists>s'. ap_loop d g u k vs s = Inr s'"
proof (induction d g v s and d g u k vs s rule: ap_dfs_ap_loop.induct)
  case (1 g u s)
  with unmarked_card_zero[OF "1.prems"(3,4)] show ?case by simp
next
  case (2 d g u s)
  note gi = "2.prems"(1) and inv = "2.prems"(2) and r = "2.prems"(3) and nu = "2.prems"(4)
  have rv: "in_range (visited s) u" using r tinv_lens(1)[OF inv] by (simp add: in_range_def)
  have i1: "tinv g (enter u s)" using tinv_enter[OF inv rv nu "2.prems"(5)] .
  have m1: "u \<in> mk (enter u s)" using rv by (simp add: marked_update)
  have sub: "set (AdjList g ! nat u) \<subseteq> adj_rel g `` {u}" using r by (simp add: adj_rel_adj)
  have c: "card ({0..<int (length (AdjList g))} - mk (enter u s)) \<le> d"
    using unmarked_card_enter[OF inv r nu "2.prems"(6)] .
  from "2.IH"[OF _ _ gi i1 m1 sub c] rv r show ?case by simp
next
  case (3 d g u k s)
  then show ?case by simp
next
  case (4 d g u k v vs s)
  note gi = "4.prems"(1) and inv = "4.prems"(2) and um = "4.prems"(3) and c = "4.prems"(5)
  have e: "(u, v) \<in> adj_rel g" and sub: "set vs \<subseteq> adj_rel g `` {u}" using "4.prems"(4) by auto
  have ra: "in_range (AdjList g) v" using adj_rel_in_range[OF gi e] by simp
  then have r: "in_range (visited s) v" using tinv_lens(1)[OF inv] by (simp add: in_range_def)
  show ?case
  proof (cases "visited s ! nat v")
    case False
    let ?s1 = "s\<lparr>parent := (parent s)[nat v := u]\<rparr>"
    have nv: "v \<notin> mk s" using False by (simp add: marked_def)
    have i1: "tinv g ?s1"
      by (rule tinv_parent_upd[OF inv nv r]) simp_all
    have lenp: "length (parent s) = length (visited s)" using inv by (simp add: tinv_def)
    have pv: "par ?s1 v = u" using r lenp by (simp add: in_range_nat)
    have pre: "par ?s1 v = - 1 \<or> (par ?s1 v \<in> mk ?s1 \<and> (par ?s1 v, v) \<in> adj_rel g)"
      unfolding pv using um e by simp
    have nv1: "v \<notin> mk ?s1" using nv by simp
    have c1: "card ({0..<int (length (AdjList g))} - mk ?s1) \<le> d" using c by simp
    from "4.IH"(1)[OF _ _ gi i1 ra nv1 pre c1] r False obtain s2 where d: "ap_dfs d g v ?s1 = Inr s2"
      by auto
    have g2: "gpost_dfs g v ?s1 s2" using ap_generic(1)[OF d i1 nv1 pre] .
    then have i2: "tinv g s2" and f12: "tframe g ?s1 s2" by (simp_all add: gpost_dfs_def)
    have m12: "mk s \<subseteq> mk s2" using f12 by (simp add: tframe_def)
    have i3: "tinv g (ap_return u v (k + 1) s2)" using i2 by (simp add: tinv_def)
    have um3: "u \<in> mk (ap_return u v (k + 1) s2)" using m12 um by auto
    have c3: "card ({0..<int (length (AdjList g))} - mk (ap_return u v (k + 1) s2)) \<le> d"
      using unmarked_card_mono[OF m12 c] by simp
    from "4.IH"(2)[OF _ _ d gi i3 um3 sub c3] r False
    obtain s' where "ap_loop d g u (k + 1) vs (ap_return u v (k + 1) s2) = Inr s'" by auto
    then show ?thesis using d r False by simp
  next
    case True
    show ?thesis
    proof (cases "v \<noteq> par s u")
      case T: True
      let ?t = "s\<lparr>low := (low s)[nat u := min_int (lw s u) (dsc s v)]\<rparr>"
      have it: "tinv g ?t" using inv by (simp add: tinv_def)
      have umt: "u \<in> mk ?t" using um by simp
      have ct: "card ({0..<int (length (AdjList g))} - mk ?t) \<le> d" using c by simp
      from "4.IH"(3)[OF _ _ _ gi it umt sub ct] r True T show ?thesis by simp
    next
      case F: False
      from "4.IH"(4)[OF _ _ _ gi inv um sub c] r True F show ?thesis by auto
    qed
  qed
qed

lemma outer_inv_step:
  assumes oi: "outer_inv g s" and gd: "gpost_dfs g r s s'"
  shows "outer_inv g s'"
proof -
  from oi have cl: "\<forall>x \<in> mk s. adj_rel g `` {x} \<subseteq> mk s"
    and pm: "\<forall>x. in_range (AdjList g) x \<and> x \<notin> mk s \<longrightarrow> par s x = - 1"
    unfolding outer_inv_def by blast+
  from gd have i': "tinv g s'" and f: "tframe g s s'" by (simp_all add: gpost_dfs_def)
  from f have f1: "mk s \<subseteq> mk s'"
    and f4: "\<forall>x. in_range (AdjList g) x \<and> x \<notin> mk s' \<longrightarrow> par s' x = par s x"
    and f5: "\<forall>w \<in> newly s s'. adj_rel g `` {w} \<subseteq> mk s'"
    unfolding tframe_def by blast+
  show ?thesis unfolding outer_inv_def
  proof (intro conjI ballI allI impI)
    show "tinv g s'" by (rule i')
    show "adj_rel g `` {x} \<subseteq> mk s'" if "x \<in> mk s'" for x
    proof (cases "x \<in> mk s")
      case True then show ?thesis using cl f1 by blast
    next
      case False
      with that have "x \<in> newly s s'" by (simp add: newly_def)
      then show ?thesis using f5 by blast
    qed
    show "par s' x = - 1" if "in_range (AdjList g) x \<and> x \<notin> mk s'" for x
      using that f4 pm f1 by (metis subsetD)
  qed
qed

lemma bcc_outer_inv_outer: "bcc_outer_inv g s \<longleftrightarrow> outer_inv g s \<and> stack s = []"
  by (auto simp: bcc_outer_inv_def outer_inv_def)

lemma ap_init_inv: "graph_inv g \<Longrightarrow> outer_inv g (ap_init g)"
proof -
  assume gi: "graph_inv g"
  then have n: "nat (Vertices g) = length (AdjList g)" by (auto simp: graph_inv_def)
  have m: "mk (ap_init g) = {}" by (auto simp: ap_init_def marked_def in_range_def)
  have "tinv g (ap_init g)" unfolding tinv_def m using n by (simp add: ap_init_def)
  moreover have "par (ap_init g) x = - 1" if "in_range (AdjList g) x" for x
    using that n by (simp add: ap_init_def in_range_nat)
  ultimately show ?thesis unfolding outer_inv_def m by simp
qed

lemma root_card: "length (AdjList g) \<le> d \<Longrightarrow> card ({0..<int (length (AdjList g))} - mk s) \<le> d"
proof -
  assume d: "length (AdjList g) \<le> d"
  have "card ({0..<int (length (AdjList g))} - mk s) \<le> card {0..<int (length (AdjList g))}"
    by (intro card_mono) auto
  with d show ?thesis by simp
qed

lemma ap_roots_total:
  assumes gi: "graph_inv g" and d: "length (AdjList g) \<le> d"
  shows "outer_inv g s \<Longrightarrow> \<forall>u \<in> set us. in_range (AdjList g) u \<Longrightarrow>
     \<exists>s'. ap_roots d g us s = Inr s' \<and> outer_inv g s' \<and> set us \<subseteq> mk s' \<and> mk s \<subseteq> mk s'"
proof (induction us arbitrary: s)
  case Nil
  then show ?case by simp
next
  case (Cons u us)
  note oi = Cons.prems(1)
  then have inv: "tinv g s" by (simp add: outer_inv_def)
  have ra: "in_range (AdjList g) u" and rest: "\<forall>u \<in> set us. in_range (AdjList g) u"
    using Cons.prems(2) by auto
  have r: "in_range (visited s) u" using ra tinv_lens(1)[OF inv] by (simp add: in_range_def)
  show ?case
  proof (cases "visited s ! nat u")
    case True
    from Cons.IH[OF oi rest] obtain s' where
      a: "ap_roots d g us s = Inr s'" "outer_inv g s'" "set us \<subseteq> mk s'" "mk s \<subseteq> mk s'" by blast
    have "u \<in> mk s" using True r by (simp add: marked_def)
    with a show ?thesis using True r by auto
  next
    case False
    then have nu: "u \<notin> mk s" by (simp add: marked_def)
    have pp: "par s u = - 1 \<or> (par s u \<in> mk s \<and> (par s u, u) \<in> adj_rel g)"
      using oi ra nu by (simp add: outer_inv_def)
    from ap_progress(1)[OF gi inv ra nu pp root_card[OF d]] obtain s1 where
      s1: "ap_dfs d g u s = Inr s1" by blast
    have gd: "gpost_dfs g u s s1" using ap_generic(1)[OF s1 inv nu pp] .
    have oi1: "outer_inv g s1" using outer_inv_step[OF oi gd] .
    from gd have m: "mk s \<subseteq> mk s1" "u \<in> mk s1" by (simp_all add: gpost_dfs_def tframe_def)
    from Cons.IH[OF oi1 rest] obtain s' where
      a: "ap_roots d g us s1 = Inr s'" "outer_inv g s'" "set us \<subseteq> mk s'" "mk s1 \<subseteq> mk s'" by blast
    show ?thesis using a m s1 False r by auto
  qed
qed

lemma bcc_roots_total:
  assumes gi: "graph_inv g" and d: "length (AdjList g) \<le> d"
  shows "bcc_outer_inv g s \<Longrightarrow> \<forall>u \<in> set us. in_range (AdjList g) u \<Longrightarrow>
     \<exists>s'. bcc_roots d g us s = Inr s' \<and> bcc_outer_inv g s' \<and> set us \<subseteq> mk s' \<and> mk s \<subseteq> mk s'"
proof (induction us arbitrary: s)
  case Nil
  then show ?case by simp
next
  case (Cons u us)
  note oi = Cons.prems(1)
  then have inv: "tinv g s" by (simp add: bcc_outer_inv_def)
  have ra: "in_range (AdjList g) u" and rest: "\<forall>u \<in> set us. in_range (AdjList g) u"
    using Cons.prems(2) by auto
  have r: "in_range (visited s) u" using ra tinv_lens(1)[OF inv] by (simp add: in_range_def)
  show ?case
  proof (cases "visited s ! nat u")
    case True
    from Cons.IH[OF oi rest] obtain s' where
      a: "bcc_roots d g us s = Inr s'" "bcc_outer_inv g s'" "set us \<subseteq> mk s'" "mk s \<subseteq> mk s'" by blast
    have "u \<in> mk s" using True r by (simp add: marked_def)
    with a show ?thesis using True r by auto
  next
    case False
    then have nu: "u \<notin> mk s" by (simp add: marked_def)
    have pp: "par s u = - 1 \<or> (par s u \<in> mk s \<and> (par s u, u) \<in> adj_rel g)"
      using oi ra nu by (simp add: bcc_outer_inv_def)
    from bcc_progress(1)[OF gi inv ra nu pp root_card[OF d]] obtain s1 where
      s1: "bcc_dfs d g u s = Inr s1" by blast
    have gd: "gpost_dfs g u s s1" using bcc_generic(1)[OF s1 inv nu pp] .
    from bcc_root_dfs[OF s1 gi oi nu] have st: "stack s1 = []" and oi1: "bcc_outer_inv g s1" by blast+
    have fl: "bcc_flush s1 = s1" using st by (rule bcc_flush_empty)
    from gd have m: "mk s \<subseteq> mk s1" "u \<in> mk s1" by (simp_all add: gpost_dfs_def tframe_def)
    from Cons.IH[OF oi1 rest] obtain s' where
      a: "bcc_roots d g us s1 = Inr s'" "bcc_outer_inv g s'" "set us \<subseteq> mk s'" "mk s1 \<subseteq> mk s'" by blast
    show ?thesis using a m s1 False r fl by auto
  qed
qed

lemma roots_in_range: "graph_inv g \<Longrightarrow> \<forall>u \<in> set (map int [0..<nat (Vertices g)]). in_range (AdjList g) u"
  by (auto simp: graph_inv_def in_range_def)

lemma ArticulationPointsAndBridges_total:
  assumes gi: "graph_inv g" and d: "nat (Vertices g) \<le> d"
  shows "\<exists>s. ap_roots d g (map int [0..<nat (Vertices g)]) (ap_init g) = Inr s \<and>
             ArticulationPointsAndBridges d g = Inr (ap s, br s) \<and> outer_inv g s \<and>
             mk s = {0..<Vertices g}"
proof -
  from gi have n: "0 < Vertices g" "int (length (AdjList g)) = Vertices g" by (auto simp: graph_inv_def)
  have d': "length (AdjList g) \<le> d" using d n by simp
  from ap_roots_total[OF gi d' ap_init_inv[OF gi] roots_in_range[OF gi]] obtain s where
    a: "ap_roots d g (map int [0..<nat (Vertices g)]) (ap_init g) = Inr s" "outer_inv g s"
       "set (map int [0..<nat (Vertices g)]) \<subseteq> mk s" by blast
  have "mk s \<subseteq> {0..<Vertices g}"
    using marked_range[of "visited s"] a(2) n by (simp add: outer_inv_def tinv_def)
  moreover have "{0..<Vertices g} \<subseteq> set (map int [0..<nat (Vertices g)])"
  proof
    fix x assume "x \<in> {0..<Vertices g}"
    then have "nat x \<in> set [0..<nat (Vertices g)]" "int (nat x) = x" by auto
    then show "x \<in> set (map int [0..<nat (Vertices g)])" by (metis image_eqI set_map)
  qed
  ultimately have "mk s = {0..<Vertices g}" using a(3) by blast
  moreover have "ArticulationPointsAndBridges d g = Inr (ap s, br s)"
    using a(1) n by (simp add: ArticulationPointsAndBridges_def)
  ultimately show ?thesis using a by blast
qed

lemma BiconnectedComponents_total:
  assumes gi: "graph_inv g" and d: "nat (Vertices g) \<le> d"
  shows "\<exists>s. bcc_roots d g (map int [0..<nat (Vertices g)]) (bcc_init g) = Inr s \<and>
             BiconnectedComponents d g = Inr (bcc s) \<and> bcc_outer_inv g s \<and>
             mk s = {0..<Vertices g}"
proof -
  from gi have n: "0 < Vertices g" "int (length (AdjList g)) = Vertices g" by (auto simp: graph_inv_def)
  have d': "length (AdjList g) \<le> d" using d n by simp
  from bcc_roots_total[OF gi d' bcc_init_inv[OF gi] roots_in_range[OF gi]] obtain s where
    a: "bcc_roots d g (map int [0..<nat (Vertices g)]) (bcc_init g) = Inr s" "bcc_outer_inv g s"
       "set (map int [0..<nat (Vertices g)]) \<subseteq> mk s" by blast
  have "mk s \<subseteq> {0..<Vertices g}"
    using marked_range[of "visited s"] a(2) n by (simp add: bcc_outer_inv_def tinv_def)
  moreover have "{0..<Vertices g} \<subseteq> set (map int [0..<nat (Vertices g)])"
  proof
    fix x assume "x \<in> {0..<Vertices g}"
    then have "nat x \<in> set [0..<nat (Vertices g)]" "int (nat x) = x" by auto
    then show "x \<in> set (map int [0..<nat (Vertices g)])" by (metis image_eqI set_map)
  qed
  ultimately have "mk s = {0..<Vertices g}" using a(3) by blast
  moreover have "BiconnectedComponents d g = Inr (bcc s)"
    using a(1) n by (simp add: BiconnectedComponents_def)
  ultimately show ?thesis using a by blast
qed

section \<open>Biconnected components: the partition of the edges\<close>

lemma bcc_return_pushed: "mset (pushed (bcc_return u v s)) = mset (pushed s)"
proof -
  let ?s1 = "s\<lparr>low := (low s)[nat u := min_int (lw s u) (lw s v)]\<rparr>"
  obtain stk cmp where p: "pop_component u v (stack s) [] = (stk, cmp)" by (cases "pop_component u v (stack s) []")
  from pop_component_split[OF p] obtain popped where pp: "stack s = stk @ popped" "cmp = rev popped" by auto
  show ?thesis
  proof (cases "dsc ?s1 u \<le> lw ?s1 v")
    case True
    then have "bcc_return u v s = ?s1\<lparr>stack := stk, bcc := bcc s @ [cmp]\<rparr>"
      using p by (simp add: bcc_return_def Let_def)
    then show ?thesis using pp by (simp add: pushed_def)
  next
    case False
    then have "bcc_return u v s = ?s1" by (simp add: bcc_return_def Let_def)
    then show ?thesis by (simp add: pushed_def)
  qed
qed

lemma pushes_cong:
  "dsc t a = dsc s a \<Longrightarrow> dsc t b = dsc s b \<Longrightarrow> par t a = par s a \<Longrightarrow> par t b = par s b \<Longrightarrow>
   pushes t a b = pushes s a b"
  by (simp add: pushes_def)

lemma tframe_keep:
  assumes "tframe g s s'" "x \<in> mk s"
  shows "dsc s' x = dsc s x" "par s' x = par s x" "x \<in> mk s'"
  using assms unfolding tframe_def by blast+

lemma tframe_closed:
  assumes "tframe g s s'" "a \<in> newly s s'" "(a, b) \<in> adj_rel g"
  shows "b \<in> mk s'"
  using assms unfolding tframe_def by blast

lemma new_pairs_split:
  assumes f1: "tframe g s s2" and f2: "tframe g s2 s'"
  shows "new_pairs g s s' = new_pairs g s s2 \<union> new_pairs g s2 s'"
proof -
  have m: "mk s \<subseteq> mk s2" "mk s2 \<subseteq> mk s'" using f1 f2 by (simp_all add: tframe_def)
  have nw: "newly s s' = newly s s2 \<union> newly s2 s'" using m by (auto simp: newly_def)
  have k: "pushes s' a b = pushes s2 a b" if "a \<in> newly s s2" "(a, b) \<in> adj_rel g" for a b
  proof -
    have am: "a \<in> mk s2" using that(1) by (simp add: newly_def)
    have bm: "b \<in> mk s2" using tframe_closed[OF f1 that] .
    show ?thesis
      by (rule pushes_cong) (simp_all add: tframe_keep[OF f2 am] tframe_keep[OF f2 bm])
  qed
  show ?thesis unfolding new_pairs_def nw using k by auto
qed

lemma new_pairs_split':
  assumes m: "mk s \<subseteq> mk s2" and cl: "\<forall>a \<in> newly s s2. \<forall>b. (a, b) \<in> adj_rel g \<longrightarrow> b \<in> mk s2"
    and f2: "tframe g s2 s'"
  shows "new_pairs g s s' = new_pairs g s s2 \<union> new_pairs g s2 s'"
proof -
  have m2: "mk s2 \<subseteq> mk s'" using f2 by (simp add: tframe_def)
  have nw: "newly s s' = newly s s2 \<union> newly s2 s'" using m m2 by (auto simp: newly_def)
  have k: "pushes s' a b = pushes s2 a b" if "a \<in> newly s s2" "(a, b) \<in> adj_rel g" for a b
  proof -
    have am: "a \<in> mk s2" using that(1) by (simp add: newly_def)
    have bm: "b \<in> mk s2" using cl that by blast
    show ?thesis
      by (rule pushes_cong) (simp_all add: tframe_keep[OF f2 am] tframe_keep[OF f2 bm])
  qed
  show ?thesis unfolding new_pairs_def nw using k by auto
qed

lemma epost_loop_nil: "epost g s s (own_pairs u [] s)"
  unfolding epost_def by (intro exI[of _ "[]"]) (simp add: new_pairs_def own_pairs_def newly_def)

lemma epost_dfs_from_loop:
  assumes r: "in_range (visited s) v" "in_range (AdjList g) v" and nv: "v \<notin> mk s"
    and m: "mk (enter v s) \<subseteq> mk s'"
    and e: "epost g (enter v s) s' (own_pairs v (AdjList g ! nat v) s')"
  shows "epost g s s' {}"
proof -
  let ?s1 = "enter v s"
  have m1: "mk ?s1 = insert v (mk s)" using r by (simp add: marked_update)
  have nw: "newly s s' = insert v (newly ?s1 s')" using m1 m nv by (auto simp: newly_def)
  have pu: "pushed ?s1 = pushed s" by (simp add: pushed_def enter_def)
  have "adj_rel g `` {v} = set (AdjList g ! nat v)" using r(2) by (rule adj_rel_adj)
  then have av: "(v, b) \<in> adj_rel g \<longleftrightarrow> b \<in> set (AdjList g ! nat v)" for b by auto
  have "new_pairs g s s' = new_pairs g ?s1 s' \<union> own_pairs v (AdjList g ! nat v) s'"
    unfolding new_pairs_def own_pairs_def nw using av by auto
  with e pu show ?thesis unfolding epost_def by simp
qed

lemma epost_loop_skip:
  assumes vm: "v \<in> mk s" and um: "u \<in> mk s" and f: "tframe g s s'"
    and np: "\<not> pushes s u v"
    and e: "epost g s s' (own_pairs u vs s')"
  shows "epost g s s' (own_pairs u (v # vs) s')"
proof -
  have "pushes s' u v = pushes s u v"
    by (rule pushes_cong) (simp_all add: tframe_keep[OF f um] tframe_keep[OF f vm])
  with np have "own_pairs u (v # vs) s' = own_pairs u vs s'"
    by (auto simp: own_pairs_def)
  with e show ?thesis by simp
qed

lemma epost_loop_back:
  assumes vm: "v \<in> mk s" and um: "u \<in> mk s" and f: "tframe g s s'"
    and p: "pushes s u v" and nin: "v \<notin> set vs"
    and t: "visited t = visited s" "stack t = stack s @ [(u, v)]" "bcc t = bcc s"
    and e: "epost g t s' (own_pairs u vs s')"
  shows "epost g s s' (own_pairs u (v # vs) s')"
proof -
  have ps: "pushes s' u v" using p pushes_cong[of s' u s v]
    by (simp add: tframe_keep[OF f um] tframe_keep[OF f vm])
  have np: "new_pairs g t s' = new_pairs g s s'" by (simp add: new_pairs_def newly_def t)
  have pt: "pushed t = pushed s @ [(u, v)]" by (simp add: pushed_def t)
  from e obtain P where P: "mset (pushed s') = mset (pushed t) + mset P" "distinct P"
    "set P = new_pairs g s s' \<union> own_pairs u vs s'" unfolding epost_def np by blast
  have un: "u \<notin> newly s s'" using um by (simp add: newly_def)
  have "(u, v) \<notin> set P" unfolding P(3) using un nin by (auto simp: new_pairs_def own_pairs_def)
  then have "distinct ((u, v) # P)" using P(2) by simp
  moreover have "mset (pushed s') = mset (pushed s) + mset ((u, v) # P)" using P(1) pt by simp
  moreover have "own_pairs u (v # vs) s' = insert (u, v) (own_pairs u vs s')"
    using ps by (auto simp: own_pairs_def)
  then have "set ((u, v) # P) = new_pairs g s s' \<union> own_pairs u (v # vs) s'"
    using P(3) by simp
  ultimately show ?thesis unfolding epost_def by blast
qed

lemma epost_loop_child:
  assumes um: "u \<in> mk s" and nv: "v \<notin> mk s" and nin: "v \<notin> set vs"
    and s1: "visited s1 = visited s" "stack s1 = stack s @ [(u, v)]" "bcc s1 = bcc s" "par s1 v = u"
    and g2: "gpost_dfs g v s1 s2"
    and g3: "gpost_loop g u vs (bcc_return u v s2) s'"
    and e2: "epost g s1 s2 {}"
    and e3: "epost g (bcc_return u v s2) s' (own_pairs u vs s')"
  shows "epost g s s' (own_pairs u (v # vs) s')"
proof -
  let ?s3 = "bcc_return u v s2"
  from g2 have f12: "tframe g s1 s2" and vm2: "v \<in> mk s2" and pv2: "par s2 v = par s1 v"
    unfolding gpost_dfs_def by blast+
  from g3 have f3: "tframe g ?s3 s'" unfolding gpost_loop_def by blast
  have f2: "tframe g s2 s'" using f3 by (simp add: tframe_cong_left[of ?s3 s2])
  have m02: "mk s \<subseteq> mk s2" using f12 s1(1) by (simp add: tframe_def)
  have n12: "newly s1 s2 = newly s s2" by (simp add: newly_def s1)
  have cl: "\<forall>a \<in> newly s s2. \<forall>b. (a, b) \<in> adj_rel g \<longrightarrow> b \<in> mk s2"
    using f12 unfolding tframe_def n12 by blast
  have np: "new_pairs g s s' = new_pairs g s s2 \<union> new_pairs g s2 s'"
    using new_pairs_split'[OF m02 cl f2] .
  have np1: "new_pairs g s1 s2 = new_pairs g s s2" by (simp add: new_pairs_def n12)
  have np3: "new_pairs g ?s3 s' = new_pairs g s2 s'" by (simp add: new_pairs_def newly_def)
  from e2 obtain P2 where P2: "mset (pushed s2) = mset (pushed s1) + mset P2" "distinct P2"
    "set P2 = new_pairs g s s2" unfolding epost_def np1 by auto
  from e3 obtain P3 where P3: "mset (pushed s') = mset (pushed ?s3) + mset P3" "distinct P3"
    "set P3 = new_pairs g s2 s' \<union> own_pairs u vs s'" unfolding epost_def np3 by auto
  have p1: "pushed s1 = pushed s @ [(u, v)]" by (simp add: pushed_def s1)
  have ms: "mset (pushed s') = mset (pushed s) + mset ((u, v) # P2 @ P3)"
    using P2(1) P3(1) p1 bcc_return_pushed[of u v s2] by simp
  have um2: "u \<in> mk s2" using m02 um by blast
  have u1: "u \<notin> newly s s2" using um by (simp add: newly_def)
  have u3: "u \<notin> newly s2 s'" using um2 by (simp add: newly_def)
  have d1: "(u, v) \<notin> set P2" unfolding P2(3) using u1 by (auto simp: new_pairs_def)
  have d2: "(u, v) \<notin> set P3" unfolding P3(3) using u3 nin by (auto simp: new_pairs_def own_pairs_def)
  have d3: "set P2 \<inter> set P3 = {}" unfolding P2(3) P3(3) using u1
    by (auto simp: new_pairs_def own_pairs_def newly_def)
  have dist: "distinct ((u, v) # P2 @ P3)" using d1 d2 d3 P2(2) P3(2) by simp
  have "par s' v = par s2 v" using tframe_keep(2)[OF f2 vm2] .
  then have "par s' v = u" using pv2 s1(4) by simp
  then have ps: "pushes s' u v" by (simp add: pushes_def)
  have "own_pairs u (v # vs) s' = insert (u, v) (own_pairs u vs s')"
    using ps by (auto simp: own_pairs_def)
  then have st: "set ((u, v) # P2 @ P3) = new_pairs g s s' \<union> own_pairs u (v # vs) s'"
    unfolding np using P2(3) P3(3) by auto
  show ?thesis unfolding epost_def using ms dist st by blast
qed

lemma simple_graphD:
  assumes "simple_graph g" "in_range (AdjList g) u"
  shows "distinct (AdjList g ! nat u)" "u \<notin> set (AdjList g ! nat u)"
proof -
  from assms(2) have "nat u \<in> set [0..<length (AdjList g)]" "int (nat u) = u"
    by (auto simp: in_range_def)
  with assms(1) show "distinct (AdjList g ! nat u)" "u \<notin> set (AdjList g ! nat u)"
    unfolding simple_graph_def by metis+
qed

lemma adj_rel_irrefl: "simple_graph g \<Longrightarrow> (u, u) \<notin> adj_rel g"
  using simple_graphD(2) by (auto simp: adj_rel_def)

lemma bcc_epost:
  shows "bcc_dfs d g v s = Inr s' \<Longrightarrow> simple_graph g \<Longrightarrow> tinv g s \<Longrightarrow> v \<notin> mk s \<Longrightarrow>
           par s v = - 1 \<or> (par s v \<in> mk s \<and> (par s v, v) \<in> adj_rel g) \<Longrightarrow>
           epost g s s' {}"
    and "bcc_loop d g u vs s = Inr s' \<Longrightarrow> simple_graph g \<Longrightarrow> tinv g s \<Longrightarrow> u \<in> mk s \<Longrightarrow>
           set vs \<subseteq> adj_rel g `` {u} \<Longrightarrow> distinct vs \<Longrightarrow>
           (\<forall>x \<in> mk s. par s x = u \<longrightarrow> x \<notin> set vs) \<Longrightarrow>
           epost g s s' (own_pairs u vs s')"
proof (induction d g v s and d g u vs s arbitrary: s' and s' rule: bcc_dfs_bcc_loop.induct)
  case (1 g u s)
  then show ?case by simp
next
  case (2 d g u s)
  note sg = "2.prems"(2) and inv = "2.prems"(3) and nu = "2.prems"(4) and pp = "2.prems"(5)
  let ?s1 = "enter u s"
  from "2.prems"(1) have r: "in_range (visited s) u" "in_range (AdjList g) u"
    and l: "bcc_loop d g u (AdjList g ! nat u) ?s1 = Inr s'"
    by (auto split: if_splits)
  have i1: "tinv g ?s1" using tinv_enter[OF inv r(1) nu pp] .
  have m1: "mk ?s1 = insert u (mk s)" using r by (simp add: marked_update)
  have um1: "u \<in> mk ?s1" using m1 by simp
  have sub: "set (AdjList g ! nat u) \<subseteq> adj_rel g `` {u}" using r(2) by (simp add: adj_rel_adj)
  have dist: "distinct (AdjList g ! nat u)" using simple_graphD(1)[OF sg r(2)] .
  have un: "0 \<le> u" using r(1) by (simp add: in_range_def)
  have ch: "\<forall>x \<in> mk ?s1. par ?s1 x = u \<longrightarrow> x \<notin> set (AdjList g ! nat u)"
  proof (intro ballI impI)
    fix x assume x: "x \<in> mk ?s1" and p: "par ?s1 x = u"
    show "x \<notin> set (AdjList g ! nat u)"
    proof (cases "x = u")
      case True
      then show ?thesis using simple_graphD(2)[OF sg r(2)] by simp
    next
      case False
      with x m1 have xm: "x \<in> mk s" by simp
      from p have "par s x = u" by simp
      with inv xm un have "u \<in> mk s" unfolding tinv_def by force
      with nu show ?thesis by simp
    qed
  qed
  have gl: "gpost_loop g u (AdjList g ! nat u) ?s1 s'" using bcc_generic(2)[OF l i1 um1 sub] .
  then have m1': "mk ?s1 \<subseteq> mk s'" by (simp add: gpost_loop_def tframe_def)
  have "epost g ?s1 s' (own_pairs u (AdjList g ! nat u) s')"
    using "2.IH"[OF _ _ l sg i1 um1 sub dist ch] r by simp
  then show ?case by (rule epost_dfs_from_loop[OF r nu m1'])
next
  case (3 d g u s)
  then show ?case by (simp add: epost_loop_nil)
next
  case (4 d g u v vs s)
  note sg = "4.prems"(2) and inv = "4.prems"(3) and um = "4.prems"(4)
    and dist = "4.prems"(6) and ch = "4.prems"(7)
  from "4.prems"(1) have r: "in_range (visited s) v" by (auto split: if_splits)
  have e: "(u, v) \<in> adj_rel g" and sub: "set vs \<subseteq> adj_rel g `` {u}" using "4.prems"(5) by auto
  have nin: "v \<notin> set vs" and dvs: "distinct vs" using dist by auto
  have ch': "\<forall>x \<in> mk s. par s x = u \<longrightarrow> x \<notin> set vs" using ch by auto
  show ?case
  proof (cases "visited s ! nat v")
    case False
    let ?s1 = "s\<lparr>parent := (parent s)[nat v := u], stack := stack s @ [(u, v)]\<rparr>"
    from "4.prems"(1) r False obtain s2 where
      d: "bcc_dfs d g v ?s1 = Inr s2" and l: "bcc_loop d g u vs (bcc_return u v s2) = Inr s'"
      by (auto split: sum.splits)
    let ?s3 = "bcc_return u v s2"
    have nv: "v \<notin> mk s" using False by (simp add: marked_def)
    have i1: "tinv g ?s1"
      by (rule tinv_parent_upd[OF inv nv r]) simp_all
    have lenp: "length (parent s) = length (visited s)" using inv by (simp add: tinv_def)
    have pv: "par ?s1 v = u" using r lenp by (simp add: in_range_nat)
    have pre: "par ?s1 v = - 1 \<or> (par ?s1 v \<in> mk ?s1 \<and> (par ?s1 v, v) \<in> adj_rel g)"
      unfolding pv using um e by simp
    have nv1: "v \<notin> mk ?s1" using nv by simp
    have g2: "gpost_dfs g v ?s1 s2" using bcc_generic(1)[OF d i1 nv1 pre] .
    then have i2: "tinv g s2" and f12: "tframe g ?s1 s2"
      and pn2: "\<forall>w \<in> newly ?s1 s2. w \<noteq> v \<longrightarrow> par s2 w \<in> newly ?s1 s2"
      by (simp_all add: gpost_dfs_def)
    have m12: "mk ?s1 \<subseteq> mk s2" using f12 by (simp add: tframe_def)
    have e2: "epost g ?s1 s2 {}" using "4.IH"(1)[OF _ _ d sg i1 nv1 pre] r False by simp
    have i3: "tinv g ?s3" using i2 by (simp add: tinv_def)
    have um3: "u \<in> mk ?s3" using m12 um by auto
    have p1: "par ?s1 x = par s x" if "x \<in> mk s" for x
    proof -
      from that nv have "x \<noteq> v" by auto
      with nat_neq[OF mk_in_range[OF that] r] show ?thesis by simp
    qed
    have ch3: "\<forall>x \<in> mk ?s3. par ?s3 x = u \<longrightarrow> x \<notin> set vs"
    proof (intro ballI impI)
      fix x assume x: "x \<in> mk ?s3" and p: "par ?s3 x = u"
      then have x2: "x \<in> mk s2" and p2: "par s2 x = u" by simp_all
      show "x \<notin> set vs"
      proof (cases "x \<in> mk s")
        case True
        then have "x \<in> mk ?s1" by simp
        from tframe_keep(2)[OF f12 this] p2 p1[OF True] have "par s x = u" by simp
        with ch' True show ?thesis by blast
      next
        case F: False
        then have xn: "x \<in> newly ?s1 s2" using x2 by (simp add: newly_def)
        show ?thesis
        proof (cases "x = v")
          case True then show ?thesis using nin by simp
        next
          case False
          with pn2 xn have "par s2 x \<in> newly ?s1 s2" by blast
          with p2 um show ?thesis by (simp add: newly_def)
        qed
      qed
    qed
    have g3: "gpost_loop g u vs ?s3 s'" using bcc_generic(2)[OF l i3 um3 sub] .
    have e3: "epost g ?s3 s' (own_pairs u vs s')"
      using "4.IH"(2)[OF _ _ d l sg i3 um3 sub dvs ch3] r False by simp
    show ?thesis
      by (rule epost_loop_child[OF um nv nin _ _ _ pv g2 g3 e2 e3]) simp_all
  next
    case True
    then have vm: "v \<in> mk s" using r by (simp add: marked_def)
    have pvu: "par s v \<noteq> u" using ch vm by auto
    show ?thesis
    proof (cases "v \<noteq> par s u \<and> dsc s v < dsc s u")
      case T: True
      let ?t = "s\<lparr>low := (low s)[nat u := min_int (lw s u) (dsc s v)], stack := stack s @ [(u, v)]\<rparr>"
      from "4.prems"(1) r True T have l: "bcc_loop d g u vs ?t = Inr s'" by simp
      have it: "tinv g ?t" using inv by (simp add: tinv_def)
      have umt: "u \<in> mk ?t" using um by simp
      have cht: "\<forall>x \<in> mk ?t. par ?t x = u \<longrightarrow> x \<notin> set vs" using ch' by simp
      have gt: "gpost_loop g u vs ?t s'" using bcc_generic(2)[OF l it umt sub] .
      then have f: "tframe g s s'" by (simp add: gpost_loop_def tframe_cong_left[of ?t s])
      have et: "epost g ?t s' (own_pairs u vs s')"
        using "4.IH"(3)[OF _ _ _ l sg it umt sub dvs cht] r True T by simp
      have ps: "pushes s u v" using T by (simp add: pushes_def)
      show ?thesis
        by (rule epost_loop_back[OF vm um f ps nin _ _ _ et]) simp_all
    next
      case F: False
      from "4.prems"(1) r True F have l: "bcc_loop d g u vs s = Inr s'" by auto
      have gt: "gpost_loop g u vs s s'" using bcc_generic(2)[OF l inv um sub] .
      then have f: "tframe g s s'" by (simp add: gpost_loop_def)
      have es: "epost g s s' (own_pairs u vs s')"
        using "4.IH"(4)[OF _ _ _ l sg inv um sub dvs ch'] r True F by simp
      have np: "\<not> pushes s u v" using F pvu by (auto simp: pushes_def)
      show ?thesis by (rule epost_loop_skip[OF vm um f np es])
    qed
  qed
qed

lemma einv_root_step:
  assumes oi: "bcc_outer_inv g s" and ei: "einv g s" and gd: "gpost_dfs g r s s1"
    and e: "epost g s s1 {}"
  shows "einv g s1"
proof -
  from oi have cl: "\<forall>x \<in> mk s. adj_rel g `` {x} \<subseteq> mk s" unfolding bcc_outer_inv_def by blast
  from gd have f: "tframe g s s1" by (simp add: gpost_dfs_def)
  then have m: "mk s \<subseteq> mk s1" by (simp add: tframe_def)
  have k: "pushes s1 a b = pushes s a b" if "a \<in> mk s" "(a, b) \<in> adj_rel g" for a b
  proof -
    have bm: "b \<in> mk s" using cl that by blast
    show ?thesis
      by (rule pushes_cong) (simp_all add: tframe_keep[OF f that(1)] tframe_keep[OF f bm])
  qed
  have ap: "all_pairs g s1 = all_pairs g s \<union> new_pairs g s s1"
    unfolding all_pairs_def new_pairs_def newly_def using m k by auto
  have dj: "all_pairs g s \<inter> new_pairs g s s1 = {}"
    by (auto simp: all_pairs_def new_pairs_def newly_def)
  from ei obtain P where P: "mset (pushed s) = mset P" "distinct P" "set P = all_pairs g s"
    unfolding einv_def by blast
  from e obtain Q where Q: "mset (pushed s1) = mset (pushed s) + mset Q" "distinct Q"
    "set Q = new_pairs g s s1" unfolding epost_def by auto
  have "mset (pushed s1) = mset (P @ Q)" using P(1) Q(1) by simp
  moreover have "distinct (P @ Q)" using P(2,3) Q(2,3) dj by simp
  moreover have "set (P @ Q) = all_pairs g s1" using P(3) Q(3) ap by simp
  ultimately show ?thesis unfolding einv_def by blast
qed

lemma bcc_roots_einv:
  "bcc_roots d g us s = Inr s' \<Longrightarrow> simple_graph g \<Longrightarrow> bcc_outer_inv g s \<Longrightarrow> einv g s \<Longrightarrow> einv g s'"
proof (induction us arbitrary: s)
  case Nil
  then show ?case by simp
next
  case (Cons u us)
  note sg = Cons.prems(2) and oi = Cons.prems(3) and ei = Cons.prems(4)
  have gi: "graph_inv g" using sg by (simp add: simple_graph_def)
  from Cons.prems(1) have r: "in_range (visited s) u" by (auto split: if_splits)
  show ?case
  proof (cases "visited s ! nat u")
    case True
    with Cons.prems(1) r have "bcc_roots d g us s = Inr s'" by simp
    from Cons.IH[OF this sg oi ei] show ?thesis .
  next
    case False
    with Cons.prems(1) r obtain s1 where
      d: "bcc_dfs d g u s = Inr s1" and l: "bcc_roots d g us (bcc_flush s1) = Inr s'"
      by (auto split: sum.splits)
    have nu: "u \<notin> mk s" using False by (simp add: marked_def)
    from oi have inv: "tinv g s" by (simp add: bcc_outer_inv_def)
    have ra: "in_range (AdjList g) u" using r tinv_lens(1)[OF inv] by (simp add: in_range_def)
    have pp: "par s u = - 1 \<or> (par s u \<in> mk s \<and> (par s u, u) \<in> adj_rel g)"
      using oi ra nu by (simp add: bcc_outer_inv_def)
    from bcc_root_dfs[OF d gi oi nu] have st: "stack s1 = []" and oi1: "bcc_outer_inv g s1" by blast+
    have fl: "bcc_flush s1 = s1" using st by (rule bcc_flush_empty)
    have gd: "gpost_dfs g u s s1" using bcc_generic(1)[OF d inv nu pp] .
    have e: "epost g s s1 {}" using bcc_epost(1)[OF d sg inv nu pp] .
    have ei1: "einv g s1" using einv_root_step[OF oi ei gd e] .
    from Cons.IH[OF _ sg _ _] l fl oi1 ei1 show ?thesis by simp
  qed
qed

lemma einv_init: "einv g (bcc_init g)"
  unfolding einv_def
  by (intro exI[of _ "[]"]) (auto simp: pushed_def bcc_init_def all_pairs_def marked_def in_range_def)

lemma pushes_xor:
  assumes inv: "tinv g s" and a: "a \<in> mk s" and b: "b \<in> mk s" and ne: "a \<noteq> b"
  shows "pushes s a b \<noteq> pushes s b a"
proof -
  from inv have inj: "\<forall>x \<in> mk s. \<forall>y \<in> mk s. dsc s x = dsc s y \<longrightarrow> x = y"
    and t5: "\<forall>x \<in> mk s. par s x \<noteq> - 1 \<longrightarrow> dsc s (par s x) < dsc s x"
    unfolding tinv_def by blast+
  have a0: "a \<noteq> - 1" "b \<noteq> - 1" using a b by (auto simp: marked_def in_range_def)
  have nd: "dsc s a \<noteq> dsc s b" using inj a b ne by blast
  have pa: "par s a = b \<Longrightarrow> dsc s b < dsc s a" using t5 a a0 by auto
  have pb: "par s b = a \<Longrightarrow> dsc s a < dsc s b" using t5 b a0 by auto
  show ?thesis
  proof (cases "dsc s a < dsc s b")
    case True
    then have "pushes s a b \<longleftrightarrow> par s b = a" by (auto simp: pushes_def)
    moreover have "pushes s b a \<longleftrightarrow> par s b \<noteq> a" using True pa by (auto simp: pushes_def)
    ultimately show ?thesis by simp
  next
    case False
    with nd have lt: "dsc s b < dsc s a" by simp
    then have "pushes s b a \<longleftrightarrow> par s a = b" by (auto simp: pushes_def)
    moreover have "pushes s a b \<longleftrightarrow> par s a \<noteq> b" using lt pb by (auto simp: pushes_def)
    ultimately show ?thesis by simp
  qed
qed

lemma BiconnectedComponents_edges:
  assumes sg: "simple_graph g" and d: "nat (Vertices g) \<le> d"
  shows "\<exists>comps. BiconnectedComponents d g = Inr comps \<and> distinct (concat comps) \<and>
           set (concat comps) \<subseteq> adj_rel g \<and>
           (\<forall>a b. (a, b) \<in> adj_rel g \<longrightarrow>
              ((a, b) \<in> set (concat comps)) \<noteq> ((b, a) \<in> set (concat comps)))"
proof -
  have gi: "graph_inv g" using sg by (simp add: simple_graph_def)
  from BiconnectedComponents_total[OF gi d] obtain s where
    s: "bcc_roots d g (map int [0..<nat (Vertices g)]) (bcc_init g) = Inr s"
       "BiconnectedComponents d g = Inr (bcc s)" "bcc_outer_inv g s" "mk s = {0..<Vertices g}"
    by blast
  have ei: "einv g s" using bcc_roots_einv[OF s(1) sg bcc_init_inv[OF gi] einv_init] .
  from s(3) have inv: "tinv g s" and st: "stack s = []" by (simp_all add: bcc_outer_inv_def)
  have pu: "pushed s = concat (bcc s)" using st by (simp add: pushed_def)
  from ei obtain P where P: "mset (concat (bcc s)) = mset P" "distinct P" "set P = all_pairs g s"
    unfolding einv_def pu by blast
  have dc: "distinct (concat (bcc s))" using P(1,2) by (metis mset_eq_imp_distinct_iff)
  have sc: "set (concat (bcc s)) = all_pairs g s" using P(1,3) by (metis mset_eq_setD)
  have n: "int (length (AdjList g)) = Vertices g" using gi by (simp add: graph_inv_def)
  have mem: "a \<in> mk s \<and> b \<in> mk s" if "(a, b) \<in> adj_rel g" for a b
    using adj_rel_in_range[OF gi that] s(4) n by (simp add: in_range_def)
  have x: "((a, b) \<in> set (concat (bcc s))) \<noteq> ((b, a) \<in> set (concat (bcc s)))"
    if e: "(a, b) \<in> adj_rel g" for a b
  proof -
    have ne: "a \<noteq> b" using adj_rel_irrefl[OF sg] e by auto
    have e': "(b, a) \<in> adj_rel g" using adj_rel_sym[OF gi e] .
    have "(a, b) \<in> all_pairs g s \<longleftrightarrow> pushes s a b" using e mem[OF e] by (simp add: all_pairs_def)
    moreover have "(b, a) \<in> all_pairs g s \<longleftrightarrow> pushes s b a" using e' mem[OF e] by (simp add: all_pairs_def)
    ultimately show ?thesis unfolding sc using pushes_xor[OF inv _ _ ne] mem[OF e] by simp
  qed
  have "set (concat (bcc s)) \<subseteq> adj_rel g" unfolding sc by (auto simp: all_pairs_def)
  with s(2) dc x show ?thesis by blast
qed

text \<open>
  Claim C3.  For a graph built by \<open>ReadGraph\<close> and fuel of at least its number of
  vertices, \<open>BiconnectedComponents\<close> returns components that partition the edge set:
  every returned pair is an edge of the graph, no pair is returned twice, and every
  edge of the graph occurs in exactly one component, in exactly one of its two
  orientations.
\<close>

theorem BiconnectedComponents_partition:
  assumes "ReadGraph fs fn = Inr g" and "nat (Vertices g) \<le> d"
  shows "\<exists>comps. BiconnectedComponents d g = Inr comps \<and>
           (\<forall>c \<in> set comps. set c \<subseteq> adj_rel g) \<and> distinct (concat comps) \<and>
           (\<forall>a b. (a, b) \<in> adj_rel g \<longrightarrow>
              (\<exists>!i. i < length comps \<and> ((a, b) \<in> set (comps ! i) \<or> (b, a) \<in> set (comps ! i))) \<and>
              \<not> ((a, b) \<in> set (concat comps) \<and> (b, a) \<in> set (concat comps)))"
proof -
  have sg: "simple_graph g" using ReadGraph_simple[OF assms(1)] .
  from BiconnectedComponents_edges[OF sg assms(2)] obtain comps where
    r: "BiconnectedComponents d g = Inr comps" and dc: "distinct (concat comps)"
    and sub: "set (concat comps) \<subseteq> adj_rel g"
    and x: "\<And>a b. (a, b) \<in> adj_rel g \<Longrightarrow>
              ((a, b) \<in> set (concat comps)) \<noteq> ((b, a) \<in> set (concat comps))"
    by blast
  have inc: "e \<in> set (concat comps)" if "i < length comps" "e \<in> set (comps ! i)" for i e
  proof -
    have "comps ! i \<in> set comps" using that(1) by simp
    with that(2) show ?thesis by auto
  qed
  have parts: "\<forall>c \<in> set comps. set c \<subseteq> adj_rel g" using sub by auto
  have one: "\<exists>!i. i < length comps \<and> ((a, b) \<in> set (comps ! i) \<or> (b, a) \<in> set (comps ! i))"
    if e: "(a, b) \<in> adj_rel g" for a b
  proof -
    from x[OF e] have "(a, b) \<in> set (concat comps) \<or> (b, a) \<in> set (concat comps)" by blast
    then obtain c where "c \<in> set comps" "(a, b) \<in> set c \<or> (b, a) \<in> set c" by auto
    then obtain i where i: "i < length comps" "(a, b) \<in> set (comps ! i) \<or> (b, a) \<in> set (comps ! i)"
      by (metis in_set_conv_nth)
    have "j = i" if j: "j < length comps" "(a, b) \<in> set (comps ! j) \<or> (b, a) \<in> set (comps ! j)" for j
    proof -
      consider "(a, b) \<in> set (comps ! i)" "(a, b) \<in> set (comps ! j)"
        | "(b, a) \<in> set (comps ! i)" "(b, a) \<in> set (comps ! j)"
        | "(a, b) \<in> set (comps ! i)" "(b, a) \<in> set (comps ! j)"
        | "(b, a) \<in> set (comps ! i)" "(a, b) \<in> set (comps ! j)"
        using i(2) j(2) by blast
      then show ?thesis
      proof cases
        case 1 then show ?thesis using distinct_concat_unique[OF dc j(1) i(1)] by blast
      next
        case 2 then show ?thesis using distinct_concat_unique[OF dc j(1) i(1)] by blast
      next
        case 3
        then have "(a, b) \<in> set (concat comps)" "(b, a) \<in> set (concat comps)"
          using inc i(1) j(1) by blast+
        with x[OF e] show ?thesis by simp
      next
        case 4
        then have "(a, b) \<in> set (concat comps)" "(b, a) \<in> set (concat comps)"
          using inc i(1) j(1) by blast+
        with x[OF e] show ?thesis by simp
      qed
    qed
    with i show ?thesis by blast
  qed
  have nb: "\<not> ((a, b) \<in> set (concat comps) \<and> (b, a) \<in> set (concat comps))"
    if e: "(a, b) \<in> adj_rel g" for a b
    using x[OF e] by blast
  show ?thesis
  proof (intro exI[of _ comps] conjI allI impI)
    show "BiconnectedComponents d g = Inr comps" by (rule r)
    show "\<forall>c \<in> set comps. set c \<subseteq> adj_rel g" by (rule parts)
    show "distinct (concat comps)" by (rule dc)
    show "\<exists>!i. i < length comps \<and> ((a, b) \<in> set (comps ! i) \<or> (b, a) \<in> set (comps ! i))"
      if "(a, b) \<in> adj_rel g" for a b using one[OF that] .
    show "\<not> ((a, b) \<in> set (concat comps) \<and> (b, a) \<in> set (concat comps))"
      if "(a, b) \<in> adj_rel g" for a b using nb[OF that] .
  qed
qed

theorem BiconnectedComponents_partition_witness:
  "ReadGraph (\<lambda>_. Some [5,0, 0,0,1,0,1,0,0,0,0,0, 0,0,0,0,1,0,0,0,0,0, 0,0,0,0,0,0,1,0,1,0,
                          0,0,0,0,0,0,0,0,1,0, 0,0,0,0,0,0,0,0,0,0]) ''g.bin''
     = Inr \<lparr>Vertices = 5, AdjList = [[1, 2], [0, 2], [0, 1, 3, 4], [2, 4], [2, 3]]\<rparr> \<and>
   BiconnectedComponents 5 \<lparr>Vertices = 5, AdjList = [[1, 2], [0, 2], [0, 1, 3, 4], [2, 4], [2, 3]]\<rparr>
     = Inr [[(4, 2), (3, 4), (2, 3)], [(2, 0), (1, 2), (0, 1)]] \<and>
   distinct (concat [[(4, 2), (3, 4), (2, 3)], [(2, 0), (1, 2), (0, 1 :: int)] :: (int \<times> int) list])"
proof -
  let ?fs = "\<lambda>_::string. Some [5,0, 0,0,1,0,1,0,0,0,0,0, 0,0,0,0,1,0,0,0,0,0, 0,0,0,0,0,0,1,0,1,0,
                          0,0,0,0,0,0,0,0,1,0, 0,0,0,0,0,0,0,0,0,0 :: byte]"
  let ?g = "\<lparr>Vertices = 5, AdjList = [[1, 2], [0, 2], [0, 1, 3, 4], [2, 4], [2, 3]]\<rparr>"
  have r: "ReadGraph ?fs ''g.bin'' = Inr ?g" by code_simp
  have b: "BiconnectedComponents 5 ?g = Inr [[(4, 2), (3, 4), (2, 3)], [(2, 0), (1, 2), (0, 1)]]"
    by code_simp
  have d: "nat (Vertices ?g) \<le> 5" by simp
  from BiconnectedComponents_partition[OF r d] b
  have "distinct (concat [[(4, 2), (3, 4), (2, 3)], [(2, 0), (1, 2), (0, 1 :: int)] :: (int \<times> int) list])"
    by auto
  with r b show ?thesis by blast
qed

section \<open>Bridges: the low-link test finds exactly the bridges\<close>

lemma lowpost_loop_nil: "lowpost_loop g u [] s s"
  by (simp add: lowpost_loop_def lcross_def newly_def)

lemma lowpost_dfs_from_loop:
  assumes sg: "simple_graph g" and inv: "tinv g s"
    and r: "in_range (visited s) v" "in_range (AdjList g) v" and nv: "v \<notin> mk s"
    and gl: "gpost_loop g v (AdjList g ! nat v) (enter v s) s'"
    and l: "lowpost_loop g v (AdjList g ! nat v) (enter v s) s'"
  shows "lowpost_dfs g v s s'"
proof -
  let ?s1 = "enter v s"
  let ?vs = "AdjList g ! nat v"
  have m1: "mk ?s1 = insert v (mk s)" using r by (simp add: marked_update)
  from gl have f: "tframe g ?s1 s'" by (simp add: gpost_loop_def)
  then have m1': "mk ?s1 \<subseteq> mk s'" by (simp add: tframe_def)
  have nw: "newly s s' = insert v (newly ?s1 s')" using m1 m1' nv by (auto simp: newly_def)
  have lens: "nat v < length (discovery s)" "nat v < length (low s)"
    using r(1) tinv_lens[OF inv] by (simp_all add: in_range_nat)
  have dv1: "dsc ?s1 v = time s" "lw ?s1 v = time s" using lens by simp_all
  have dv: "dsc s' v = time s" using tframe_keep(1)[OF f, of v] m1 dv1 by simp
  have dx: "dsc ?s1 x = dsc s x" "lw ?s1 x = lw s x" if "x \<in> mk s" for x
  proof -
    from that nv have "x \<noteq> v" by auto
    with nat_neq[OF mk_in_range[OF that] r(1)] show "dsc ?s1 x = dsc s x" "lw ?s1 x = lw s x" by simp_all
  qed
  have av: "(v, b) \<in> adj_rel g \<longleftrightarrow> b \<in> set ?vs" for b using adj_rel_adj[OF r(2)] by auto
  have irr: "(v, v) \<notin> adj_rel g" using adj_rel_irrefl[OF sg] .
  have cr: "lcross g v ?vs ?s1 s' = cross g v s s'"
  proof -
    have "b \<in> lcross g v ?vs ?s1 s' \<longleftrightarrow> b \<in> cross g v s s'" for b
    proof (cases "b = v")
      case True
      then show ?thesis using nv irr av by (auto simp: lcross_def cross_def)
    next
      case False
      have "a \<noteq> v" if "a \<in> newly ?s1 s'" for a using that m1 by (auto simp: newly_def)
      with False show ?thesis unfolding lcross_def cross_def nw m1 using av by auto
    qed
    then show ?thesis by blast
  qed
  from l have l1: "lw s' v \<le> lw ?s1 v" and l2: "\<forall>b \<in> cross g v s s'. lw s' v \<le> dsc ?s1 b"
    and l3: "lw s' v = lw ?s1 v \<or> (\<exists>b \<in> cross g v s s'. lw s' v = dsc ?s1 b)"
    and l4: "\<forall>x \<in> mk ?s1. x \<noteq> v \<longrightarrow> lw s' x = lw ?s1 x"
    unfolding lowpost_loop_def cr by blast+
  have cm: "b \<in> mk s" if "b \<in> cross g v s s'" for b using that by (simp add: cross_def)
  show ?thesis unfolding lowpost_dfs_def
  proof (intro conjI ballI)
    show "lw s' v \<le> dsc s' v" using l1 dv dv1 by simp
    show "lw s' v \<le> dsc s b" if "b \<in> cross g v s s'" for b using l2 that dx(1)[OF cm[OF that]] by auto
    show "lw s' v = dsc s' v \<or> (\<exists>b \<in> cross g v s s'. lw s' v = dsc s b)"
      using l3 dv dv1 dx(1) cm by auto
    show "lw s' x = lw s x" if "x \<in> mk s" for x
    proof -
      from that nv have "x \<noteq> v" "x \<in> mk ?s1" using m1 by auto
      with l4 dx(2)[OF that] show ?thesis by simp
    qed
  qed
qed

lemma lowpost_loop_back:
  assumes inv: "tinv g s" and um: "u \<in> mk s" and vm: "v \<in> mk s" and ne: "v \<noteq> par s u"
    and l: "lowpost_loop g u vs (s\<lparr>low := (low s)[nat u := min_int (lw s u) (dsc s v)]\<rparr>) s'"
  shows "lowpost_loop g u (v # vs) s s'"
proof -
  let ?t = "s\<lparr>low := (low s)[nat u := min_int (lw s u) (dsc s v)]\<rparr>"
  have lu: "nat u < length (low s)" using mk_nat_less[OF inv um] tinv_lens[OF inv] by simp
  have ltu: "lw ?t u = min (lw s u) (dsc s v)" using lu by (simp add: min_int_min)
  have ltx: "lw ?t x = lw s x" if "x \<in> mk s" "x \<noteq> u" for x
    using mk_nat_neq[OF that(1) um that(2)] by simp
  have nw: "newly ?t s' = newly s s'" by (simp add: newly_def)
  have lc: "lcross g u (v # vs) s s' = insert v (lcross g u vs ?t s')"
    using vm ne unfolding lcross_def nw by auto
  from l have l1: "lw s' u \<le> lw ?t u" and l2: "\<forall>b \<in> lcross g u vs ?t s'. lw s' u \<le> dsc s b"
    and l3: "lw s' u = lw ?t u \<or> (\<exists>b \<in> lcross g u vs ?t s'. lw s' u = dsc s b)"
    and l4: "\<forall>x \<in> mk s. x \<noteq> u \<longrightarrow> lw s' x = lw ?t x"
    unfolding lowpost_loop_def by simp_all
  show ?thesis unfolding lowpost_loop_def lc
  proof (intro conjI ballI impI)
    show "lw s' u \<le> lw s u" using l1 ltu by simp
    show "lw s' u \<le> dsc s b" if "b \<in> insert v (lcross g u vs ?t s')" for b
      using that l1 l2 ltu by auto
    show "lw s' u = lw s u \<or> (\<exists>b \<in> insert v (lcross g u vs ?t s'). lw s' u = dsc s b)"
      using l3 ltu by (auto simp: min_def split: if_splits)
    show "lw s' x = lw s x" if "x \<in> mk s" "x \<noteq> u" for x using l4 ltx that by simp
  qed
qed

lemma lowpost_loop_skip:
  assumes vm: "v \<in> mk s" and ne: "v = par s u" and l: "lowpost_loop g u vs s s'"
  shows "lowpost_loop g u (v # vs) s s'"
proof -
  have "lcross g u (v # vs) s s' = lcross g u vs s s'" using ne by (auto simp: lcross_def)
  with l show ?thesis by (simp add: lowpost_loop_def)
qed

lemma lowpost_loop_child:
  assumes inv: "tinv g s" and um: "u \<in> mk s" and nv: "v \<notin> mk s" and r: "in_range (visited s) v"
    and lu: "lw s u \<le> dsc s u"
    and gd: "gpost_dfs g v (s\<lparr>parent := (parent s)[nat v := u]\<rparr>) s2"
    and d: "lowpost_dfs g v (s\<lparr>parent := (parent s)[nat v := u]\<rparr>) s2"
    and gl: "gpost_loop g u vs (ap_return u v k s2) s'"
    and l: "lowpost_loop g u vs (ap_return u v k s2) s'"
  shows "lowpost_loop g u (v # vs) s s'"
proof -
  let ?s1 = "s\<lparr>parent := (parent s)[nat v := u]\<rparr>"
  let ?s3 = "ap_return u v k s2"
  let ?E = "adj_rel g"
  have uv: "u \<noteq> v" using um nv by auto
  have lenp: "length (parent s) = length (visited s)" using tinv_lens[OF inv] by simp
  have p1v: "par ?s1 v = u" using r lenp by (simp add: in_range_nat)
  have p1u: "par ?s1 u = par s u" using nat_neq[OF mk_in_range[OF um] r uv] by simp
  from gd have i2: "tinv g s2" and f12: "tframe g ?s1 s2" and dv2: "dsc s2 v = time s"
    by (simp_all add: gpost_dfs_def)
  from gl have f3: "tframe g ?s3 s'" by (simp add: gpost_loop_def)
  have m12: "mk s \<subseteq> mk s2" using f12 by (simp add: tframe_def)
  have m23: "mk s2 \<subseteq> mk s'" using f3 by (simp add: tframe_def)
  have um2: "u \<in> mk s2" using um m12 by auto
  have k2: "dsc s2 x = dsc s x" "par s2 x = par ?s1 x" if "x \<in> mk s" for x
    using tframe_keep[OF f12, of x] that by simp_all
  have pu2: "par s2 u = par s u" using k2(2)[OF um] p1u by simp
  have n2: "time s \<le> dsc s2 w" if "w \<in> newly s s2" for w
    using f12 that unfolding tframe_def newly_def by auto
  have nw: "newly s s' = newly s s2 \<union> newly s2 s'" using m12 m23 by (auto simp: newly_def)
  have nw1: "newly ?s1 s2 = newly s s2" and nw3: "newly ?s3 s' = newly s2 s'"
    by (simp_all add: newly_def)
  have lu2: "nat u < length (low s2)" using mk_nat_less[OF i2 um2] tinv_lens[OF i2] by simp
  from d have d1: "lw s2 v \<le> dsc s2 v" and d2: "\<forall>b \<in> cross g v ?s1 s2. lw s2 v \<le> dsc s b"
    and d3: "lw s2 v = dsc s2 v \<or> (\<exists>b \<in> cross g v ?s1 s2. lw s2 v = dsc s b)"
    and d4: "\<forall>x \<in> mk s. lw s2 x = lw s x"
    unfolding lowpost_dfs_def by simp_all
  have l3u: "lw ?s3 u = min (lw s u) (lw s2 v)" using lu2 d4 um by (simp add: min_int_min)
  have l3x: "lw ?s3 x = lw s2 x" if "x \<in> mk s2" "x \<noteq> u" for x
    using mk_nat_neq[OF that(1) um2 that(2)] by simp
  from l have l1: "lw s' u \<le> lw ?s3 u" and l2: "\<forall>b \<in> lcross g u vs ?s3 s'. lw s' u \<le> dsc s2 b"
    and l3: "lw s' u = lw ?s3 u \<or> (\<exists>b \<in> lcross g u vs ?s3 s'. lw s' u = dsc s2 b)"
    and l4: "\<forall>x \<in> mk s2. x \<noteq> u \<longrightarrow> lw s' x = lw ?s3 x"
    unfolding lowpost_loop_def by simp_all
  have cr: "b \<in> cross g v ?s1 s2 \<longleftrightarrow> b \<in> mk s \<and> (\<exists>a \<in> newly s s2. (a, b) \<in> ?E \<and> \<not> (a = v \<and> b = u))" for b
    unfolding cross_def nw1 p1v by simp
  have lc3: "b \<in> lcross g u vs ?s3 s' \<longleftrightarrow>
      (b \<in> mk s2 \<and> b \<noteq> u \<and> (\<exists>a \<in> newly s2 s'. (a, b) \<in> ?E)) \<or> (b \<in> set vs \<and> b \<in> mk s2 \<and> b \<noteq> par s u)" for b
    unfolding lcross_def nw3 using pu2 by simp
  have lc: "b \<in> lcross g u (v # vs) s s' \<longleftrightarrow>
      (b \<in> mk s \<and> b \<noteq> u \<and> (\<exists>a \<in> newly s s'. (a, b) \<in> ?E)) \<or> (b \<in> set vs \<and> b \<in> mk s \<and> b \<noteq> par s u)" for b
    unfolding lcross_def using nv by auto
  have sub3: "b \<in> lcross g u vs ?s3 s'" if "b \<in> lcross g u (v # vs) s s'" "b \<notin> cross g v ?s1 s2" for b
    using that m12 unfolding lc lc3 cr nw by blast
  have dt: "dsc s u < time s" using inv um by (simp add: tinv_def)
  show ?thesis unfolding lowpost_loop_def
  proof (intro conjI ballI impI)
    show "lw s' u \<le> lw s u" using l1 l3u by simp
    show "lw s' u \<le> dsc s b" if "b \<in> lcross g u (v # vs) s s'" for b
    proof (cases "b \<in> cross g v ?s1 s2")
      case True
      with d2 l1 l3u show ?thesis by fastforce
    next
      case False
      from that have bm: "b \<in> mk s" unfolding lc by blast
      from sub3[OF that False] l2 k2(1)[OF bm] show ?thesis by auto
    qed
    show "lw s' u = lw s u \<or> (\<exists>b \<in> lcross g u (v # vs) s s'. lw s' u = dsc s b)"
    proof (cases "lw s' u = lw s u")
      case True
      then show ?thesis by simp
    next
      case False
      from l3 show ?thesis
      proof
        assume e: "lw s' u = lw ?s3 u"
        with False l3u have lt: "lw s2 v < lw s u" and e': "lw s' u = lw s2 v" by (auto simp: min_def split: if_splits)
        with lu dt dv2 have "lw s2 v \<noteq> dsc s2 v" by simp
        with d3 obtain b where b: "b \<in> cross g v ?s1 s2" "lw s2 v = dsc s b" by blast
        with lt lu have "b \<noteq> u" by auto
        with b(1) have "b \<in> lcross g u (v # vs) s s'" unfolding cr lc nw by blast
        with b(2) e' show ?thesis by auto
      next
        assume "\<exists>b \<in> lcross g u vs ?s3 s'. lw s' u = dsc s2 b"
        then obtain b where b: "b \<in> lcross g u vs ?s3 s'" "lw s' u = dsc s2 b" by blast
        have bm: "b \<in> mk s"
        proof (rule ccontr)
          assume "b \<notin> mk s"
          with b(1) have "b \<in> newly s s2" unfolding lc3 newly_def by auto
          from n2[OF this] b(2) l1 l3u lu dt show False by simp
        qed
        with b(1) have "b \<in> lcross g u (v # vs) s s'" unfolding lc lc3 nw by blast
        with b(2) k2(1)[OF bm] show ?thesis by auto
      qed
    qed
    show "lw s' x = lw s x" if "x \<in> mk s" "x \<noteq> u" for x
    proof -
      from that m12 have "x \<in> mk s2" by auto
      with l4 l3x that d4 show ?thesis by simp
    qed
  qed
qed

lemma ap_low:
  shows "ap_dfs d g v s = Inr s' \<Longrightarrow> simple_graph g \<Longrightarrow> tinv g s \<Longrightarrow> v \<notin> mk s \<Longrightarrow>
           par s v = - 1 \<or> (par s v \<in> mk s \<and> (par s v, v) \<in> adj_rel g) \<Longrightarrow>
           lowpost_dfs g v s s'"
    and "ap_loop d g u c vs s = Inr s' \<Longrightarrow> simple_graph g \<Longrightarrow> tinv g s \<Longrightarrow> u \<in> mk s \<Longrightarrow>
           set vs \<subseteq> adj_rel g `` {u} \<Longrightarrow> lw s u \<le> dsc s u \<Longrightarrow> lowpost_loop g u vs s s'"
proof (induction d g v s and d g u c vs s arbitrary: s' and s' rule: ap_dfs_ap_loop.induct)
  case (1 g u s)
  then show ?case by simp
next
  case (2 d g u s)
  from "2.prems"(1) have r: "in_range (visited s) u" "in_range (AdjList g) u"
    and l: "ap_loop d g u 0 (AdjList g ! nat u) (enter u s) = Inr s'"
    by (auto split: if_splits)
  have i1: "tinv g (enter u s)" using tinv_enter[OF "2.prems"(3) r(1) "2.prems"(4,5)] .
  have m1: "u \<in> mk (enter u s)" using r by (simp add: marked_update)
  have sub: "set (AdjList g ! nat u) \<subseteq> adj_rel g `` {u}" using r(2) by (simp add: adj_rel_adj)
  have lens: "nat u < length (discovery s)" "nat u < length (low s)"
    using r(1) tinv_lens[OF "2.prems"(3)] by (simp_all add: in_range_nat)
  have le: "lw (enter u s) u \<le> dsc (enter u s) u" using lens by simp
  from "2.IH"[OF _ _ l "2.prems"(2) i1 m1 sub le] r
  have a: "lowpost_loop g u (AdjList g ! nat u) (enter u s) s'" by simp
  have b: "gpost_loop g u (AdjList g ! nat u) (enter u s) s'"
    by (rule ap_generic(2)[OF l i1 m1 sub])
  show ?case by (rule lowpost_dfs_from_loop[OF "2.prems"(2,3) r "2.prems"(4) b a])
next
  case (3 d g u c s)
  then show ?case by (simp add: lowpost_loop_nil)
next
  case (4 d g u c v vs s)
  from "4.prems"(1) have r: "in_range (visited s) v" by (auto split: if_splits)
  have e: "(u, v) \<in> adj_rel g" and sub: "set vs \<subseteq> adj_rel g `` {u}" using "4.prems"(5) by auto
  note sg = "4.prems"(2) and inv = "4.prems"(3) and um = "4.prems"(4) and lu = "4.prems"(6)
  have lul: "nat u < length (low s)" using mk_nat_less[OF inv um] tinv_lens[OF inv] by simp
  show ?case
  proof (cases "visited s ! nat v")
    case False
    let ?s1 = "s\<lparr>parent := (parent s)[nat v := u]\<rparr>"
    let ?s3 = "\<lambda>s2. ap_return u v (c + 1) s2"
    from "4.prems"(1) r False obtain s2 where
      d: "ap_dfs d g v ?s1 = Inr s2" and l: "ap_loop d g u (c + 1) vs (?s3 s2) = Inr s'"
      by (auto split: sum.splits)
    have nv: "v \<notin> mk s" using False by (simp add: marked_def)
    have i1: "tinv g ?s1"
      by (rule tinv_parent_upd[OF inv nv r]) simp_all
    have lenp: "length (parent s) = length (visited s)" using inv by (simp add: tinv_def)
    have pv: "par ?s1 v = u" using r lenp by (simp add: in_range_nat)
    have pre: "par ?s1 v = - 1 \<or> (par ?s1 v \<in> mk ?s1 \<and> (par ?s1 v, v) \<in> adj_rel g)"
      unfolding pv using um e by simp
    have nv1: "v \<notin> mk ?s1" using nv by simp
    have g2: "gpost_dfs g v ?s1 s2" by (rule ap_generic(1)[OF d i1 nv1 pre])
    from "4.IH"(1)[OF _ _ d sg i1 nv1 pre] r False have l2: "lowpost_dfs g v ?s1 s2" by simp
    from g2 have i2: "tinv g s2" and f12: "tframe g ?s1 s2" by (simp_all add: gpost_dfs_def)
    have i3: "tinv g (?s3 s2)" using i2 by (simp add: tinv_def)
    have um2: "u \<in> mk s2" using f12 um by (auto simp: tframe_def)
    then have um3: "u \<in> mk (?s3 s2)" by simp
    have lu2: "nat u < length (low s2)" using mk_nat_less[OF i2 um2] tinv_lens[OF i2] by simp
    have "lw s2 u = lw s u" using l2 um by (simp add: lowpost_dfs_def)
    moreover have "dsc s2 u = dsc s u" using tframe_keep(1)[OF f12, of u] um by simp
    ultimately have lu3: "lw (?s3 s2) u \<le> dsc (?s3 s2) u" using lu lu2 by (simp add: min_int_min min_def)
    have g3: "gpost_loop g u vs (?s3 s2) s'" by (rule ap_generic(2)[OF l i3 um3 sub])
    from "4.IH"(2)[OF _ _ d l sg i3 um3 sub lu3] r False
    have l3: "lowpost_loop g u vs (?s3 s2) s'" by simp
    show ?thesis by (rule lowpost_loop_child[OF inv um nv r lu g2 l2 g3 l3])
  next
    case True
    then have vm: "v \<in> mk s" using r by (simp add: marked_def)
    show ?thesis
    proof (cases "v \<noteq> par s u")
      case T: True
      let ?t = "s\<lparr>low := (low s)[nat u := min_int (lw s u) (dsc s v)]\<rparr>"
      from "4.prems"(1) r True T have l: "ap_loop d g u c vs ?t = Inr s'" by simp
      have it: "tinv g ?t" using inv by (simp add: tinv_def)
      have umt: "u \<in> mk ?t" using um by simp
      have lut: "lw ?t u \<le> dsc ?t u" using lu lul by (simp add: min_int_min)
      from "4.IH"(3)[OF _ _ _ l sg it umt sub lut] r True T have "lowpost_loop g u vs ?t s'" by simp
      then show ?thesis by (rule lowpost_loop_back[OF inv um vm T])
    next
      case F: False
      from "4.prems"(1) r True F have l: "ap_loop d g u c vs s = Inr s'" by auto
      from "4.IH"(4)[OF _ _ _ l sg inv um sub lu] r True F have "lowpost_loop g u vs s s'" by simp
      then show ?thesis using F by (intro lowpost_loop_skip[OF vm]) simp_all
    qed
  qed
qed

lemma tframe_child:
  assumes inv: "tinv g s" and nv: "v \<notin> mk s" and r: "in_range (visited s) v"
    and f: "tframe g (s\<lparr>parent := (parent s)[nat v := u]\<rparr>) s2" and vm2: "v \<in> mk s2"
  shows "tframe g s s2"
proof -
  let ?s1 = "s\<lparr>parent := (parent s)[nat v := u]\<rparr>"
  have lena: "length (visited s) = length (AdjList g)" using inv by (simp add: tinv_def)
  have p1: "par ?s1 x = par s x" if "in_range (visited s) x" "x \<noteq> v" for x
    using nat_neq[OF that(1) r that(2)] by simp
  from f have a1: "mk s \<subseteq> mk s2" and a2: "time s \<le> time s2"
    and a3: "\<forall>x \<in> mk s. dsc s2 x = dsc s x \<and> par s2 x = par ?s1 x"
    and a4: "\<forall>x. in_range (AdjList g) x \<and> x \<notin> mk s2 \<longrightarrow> par s2 x = par ?s1 x"
    and a5: "\<forall>w \<in> newly s s2. time s \<le> dsc s2 w \<and> adj_rel g `` {w} \<subseteq> mk s2"
    unfolding tframe_def newly_def by simp_all
  show ?thesis unfolding tframe_def
  proof (intro conjI ballI allI impI)
    show "mk s \<subseteq> mk s2" by (rule a1)
    show "time s \<le> time s2" by (rule a2)
    show "dsc s2 x = dsc s x" if "x \<in> mk s" for x using a3 that by blast
    show "par s2 x = par s x" if "x \<in> mk s" for x
    proof -
      from that nv have "x \<noteq> v" by auto
      from p1[OF mk_in_range[OF that] this] a3 that show ?thesis by simp
    qed
    show "par s2 x = par s x" if "in_range (AdjList g) x \<and> x \<notin> mk s2" for x
    proof -
      from that vm2 have "x \<noteq> v" by auto
      moreover from that have "in_range (visited s) x" using lena by (simp add: in_range_def)
      ultimately show ?thesis using p1 a4 that by simp
    qed
    show "time s \<le> dsc s2 w" if "w \<in> newly s s2" for w using a5 that by blast
    show "adj_rel g `` {w} \<subseteq> mk s2" if "w \<in> newly s s2" for w using a5 that by blast
  qed
qed

lemma Restr_rtrancl_mono: "A \<subseteq> B \<Longrightarrow> (x, y) \<in> (Restr E A)\<^sup>* \<Longrightarrow> (x, y) \<in> (Restr E B)\<^sup>*"
  by (rule rtrancl_mono[THEN subsetD, of "Restr E A"]) auto

lemma anc_enter:
  assumes inv: "tinv g s" and r: "in_range (visited s) v" and nv: "v \<notin> mk s"
    and p: "par s v = - 1 \<or> (par s v \<in> mk s \<and> (par s v, v) \<in> adj_rel g)"
    and a: "anc_ok g s v"
  shows "anc_loop g (enter v s) v"
  unfolding anc_loop_def
proof (intro allI impI)
  fix x
  let ?s1 = "enter v s"
  assume o: "opens g ?s1 x \<and> x \<noteq> v"
  have m1: "mk ?s1 = insert v (mk s)" using r by (simp add: marked_update)
  from o have xm: "x \<in> mk s" and os: "opens g s x" unfolding opens_def m1 by auto
  from a os have pn: "par s v \<noteq> - 1" and le: "dsc s x \<le> dsc s (par s v)"
    and c: "(x, par s v) \<in> (Restr (adj_rel g) (mk s))\<^sup>*"
    unfolding anc_ok_def by blast+
  from p pn have pm: "par s v \<in> mk s" by simp
  have lens: "nat v < length (discovery s)"
    using r tinv_lens[OF inv] by (simp add: in_range_nat)
  have dv: "dsc ?s1 v = time s" using lens by simp
  have dx: "dsc ?s1 x = dsc s x" using nat_neq[OF mk_in_range[OF xm] r] o by simp
  have "dsc s (par s v) < time s" using inv pm by (simp add: tinv_def)
  with le dv dx have "dsc ?s1 x < dsc ?s1 v" by simp
  moreover have "mk ?s1 - {v} = mk s" using m1 nv by auto
  ultimately show "par ?s1 v \<noteq> - 1 \<and> dsc ?s1 x < dsc ?s1 v \<and>
      (x, par ?s1 v) \<in> (Restr (adj_rel g) (mk ?s1 - {v}))\<^sup>*"
    using pn c by simp
qed

lemma anc_child:
  assumes inv: "tinv g s" and um: "u \<in> mk s" and nv: "v \<notin> mk s" and r: "in_range (visited s) v"
    and a: "anc_loop g s u"
  shows "anc_ok g (s\<lparr>parent := (parent s)[nat v := u]\<rparr>) v"
  unfolding anc_ok_def
proof (intro allI impI)
  fix x
  let ?s1 = "s\<lparr>parent := (parent s)[nat v := u]\<rparr>"
  let ?E = "adj_rel g"
  assume "opens g ?s1 x"
  then have o: "opens g s x" by (simp add: opens_def)
  have lenp: "length (parent s) = length (visited s)" using tinv_lens[OF inv] by simp
  have pv: "par ?s1 v = u" using r lenp by (simp add: in_range_nat)
  have u0: "u \<noteq> - 1" using mk_nat_less[OF inv um] by auto
  have "dsc s x \<le> dsc s u \<and> (x, u) \<in> (Restr ?E (mk s))\<^sup>*"
  proof (cases "x = u")
    case True
    then show ?thesis by simp
  next
    case False
    with a o have pn: "par s u \<noteq> - 1" and lt: "dsc s x < dsc s u"
      and c: "(x, par s u) \<in> (Restr ?E (mk s - {u}))\<^sup>*"
      unfolding anc_loop_def by blast+
    from inv um pn have "par s u \<in> mk s" "(par s u, u) \<in> ?E" unfolding tinv_def by blast+
    with um have "(par s u, u) \<in> Restr ?E (mk s)" by simp
    moreover have "(x, par s u) \<in> (Restr ?E (mk s))\<^sup>*"
      by (rule Restr_rtrancl_mono[OF _ c]) auto
    ultimately show ?thesis using lt by (simp add: rtrancl.rtrancl_into_rtrancl)
  qed
  then show "par ?s1 v \<noteq> - 1 \<and> dsc ?s1 x \<le> dsc ?s1 (par ?s1 v) \<and>
      (x, par ?s1 v) \<in> (Restr ?E (mk ?s1))\<^sup>*"
    unfolding pv using u0 by simp
qed

lemma anc_frame:
  assumes a: "anc_loop g s u" and um: "u \<in> mk s" and f: "tframe g s t"
  shows "anc_loop g t u"
  unfolding anc_loop_def
proof (intro allI impI)
  fix x
  let ?E = "adj_rel g"
  assume o: "opens g t x \<and> x \<noteq> u"
  then obtain y where y: "x \<in> mk t" "(x, y) \<in> ?E" "y \<notin> mk t" unfolding opens_def by blast
  have sub: "mk s \<subseteq> mk t" using f by (simp add: tframe_def)
  have xm: "x \<in> mk s"
  proof (rule ccontr)
    assume "x \<notin> mk s"
    with y(1) have "x \<in> newly s t" by (simp add: newly_def)
    from tframe_closed[OF f this y(2)] y(3) show False by simp
  qed
  with y sub have "opens g s x" unfolding opens_def by blast
  with a o have pn: "par s u \<noteq> - 1" and lt: "dsc s x < dsc s u"
    and c: "(x, par s u) \<in> (Restr ?E (mk s - {u}))\<^sup>*"
    unfolding anc_loop_def by blast+
  have "(x, par s u) \<in> (Restr ?E (mk t - {u}))\<^sup>*"
    by (rule Restr_rtrancl_mono[OF _ c]) (use sub in auto)
  then show "par t u \<noteq> - 1 \<and> dsc t x < dsc t u \<and> (x, par t u) \<in> (Restr ?E (mk t - {u}))\<^sup>*"
    using tframe_keep(1,2)[OF f um] tframe_keep(1)[OF f xm] pn lt by simp
qed

lemma anc_loop_cong:
  assumes "visited t = visited s" "discovery t = discovery s" "parent t = parent s"
  shows "anc_loop g t u = anc_loop g s u"
  using assms by (simp add: anc_loop_def opens_def)

lemma without_edge_sym: "graph_inv g \<Longrightarrow> sym (without_edge g a b)"
  using sym_adj_rel[of g] by (auto simp: without_edge_def sym_def)

lemma without_edge_commute: "without_edge g a b = without_edge g b a"
  by (auto simp: without_edge_def)

lemma without_edge_reach_sym:
  assumes "graph_inv g" "(x, y) \<in> (without_edge g a b)\<^sup>*"
  shows "(y, x) \<in> (without_edge g a b)\<^sup>*"
  using assms sym_rtrancl[OF without_edge_sym] by (meson symD)

lemma bridge_sym: "graph_inv g \<Longrightarrow> bridge g a b = bridge g b a"
  unfolding bridge_def without_edge_commute[of g b a]
  using without_edge_reach_sym[of g] by blast

lemma bridge_closed:
  assumes gi: "graph_inv g" and c: "c \<in> N" and u: "u \<notin> N"
    and cl: "\<forall>a \<in> N. \<forall>b. (a, b) \<in> adj_rel g \<longrightarrow> b \<in> N \<or> (a = c \<and> b = u)"
  shows "bridge g u c"
  unfolding bridge_def
proof
  assume "(u, c) \<in> (without_edge g u c)\<^sup>*"
  then have p: "(c, u) \<in> (without_edge g u c)\<^sup>*" by (rule without_edge_reach_sym[OF gi])
  have "\<forall>w \<in> N. without_edge g u c `` {w} \<subseteq> N" using cl by (auto simp: without_edge_def)
  from closed_reach[OF p c this] u show False by simp
qed

lemma not_bridge_path:
  assumes gi: "graph_inv g" and p1: "(c, a) \<in> (Restr (adj_rel g) N)\<^sup>*" and e: "(a, b) \<in> adj_rel g"
    and p2: "(b, u) \<in> (Restr (adj_rel g) M)\<^sup>*" and u: "u \<notin> N" and c: "c \<notin> M" and a: "a \<in> N"
    and ne: "\<not> (a = c \<and> b = u)"
  shows "\<not> bridge g u c"
proof -
  let ?W = "without_edge g u c"
  have "Restr (adj_rel g) N \<subseteq> ?W" using u by (auto simp: without_edge_def)
  from rtrancl_mono[OF this] p1 have q1: "(c, a) \<in> ?W\<^sup>*" by blast
  have "Restr (adj_rel g) M \<subseteq> ?W" using c by (auto simp: without_edge_def)
  from rtrancl_mono[OF this] p2 have q2: "(b, u) \<in> ?W\<^sup>*" by blast
  have "(a, b) \<in> ?W" using e a u ne by (auto simp: without_edge_def)
  with q1 q2 have "(c, u) \<in> ?W\<^sup>*" by (meson rtrancl.rtrancl_into_rtrancl rtrancl_trans)
  from without_edge_reach_sym[OF gi this] show ?thesis by (simp add: bridge_def)
qed

lemma not_bridge_detour:
  assumes e: "(u, c) \<in> adj_rel g" and p: "(c, b) \<in> (Restr (adj_rel g) N)\<^sup>*"
    and u: "u \<notin> N" and b: "b \<in> N" and ne: "c \<noteq> b"
  shows "\<not> bridge g u b"
proof -
  let ?W = "without_edge g u b"
  have "Restr (adj_rel g) N \<subseteq> ?W" using u by (auto simp: without_edge_def)
  from rtrancl_mono[OF this] p have q: "(c, b) \<in> ?W\<^sup>*" by blast
  have "(u, c) \<in> ?W" using e ne u b by (auto simp: without_edge_def)
  with q have "(u, b) \<in> ?W\<^sup>*" by (meson converse_rtrancl_into_rtrancl)
  then show ?thesis by (simp add: bridge_def)
qed

lemma ap_return_br:
  assumes "nat u < length (low s)" "nat u \<noteq> nat v"
  shows "br (ap_return u v k s) = br s @ (if dsc s u < lw s v then [(u, v)] else [])"
  using assms by (simp add: ap_return_def Let_def)

lemma ap_return_ap:
  assumes "nat u < length (low s)" "nat u \<noteq> nat v"
  shows "ap (ap_return u v k s) =
     (if (par s u = - 1 \<and> 1 < k) \<or> (par s u \<noteq> - 1 \<and> dsc s u \<le> lw s v) then insert u (ap s) else ap s)"
  using assms by (simp add: ap_return_def Let_def)

lemma child_ctx:
  assumes inv: "tinv g s" and um: "u \<in> mk s" and nv: "v \<notin> mk s" and r: "in_range (visited s) v"
    and gd: "gpost_dfs g v (s\<lparr>parent := (parent s)[nat v := u]\<rparr>) s2"
    and ld: "lowpost_dfs g v (s\<lparr>parent := (parent s)[nat v := u]\<rparr>) s2"
    and gl: "gpost_loop g u vs (ap_return u v k s2) s'"
    and ll: "lowpost_loop g u vs (ap_return u v k s2) s'"
  shows "tframe g s s2" and "tframe g s2 s'"
    and "newly s s' = newly s s2 \<union> newly s2 s'" and "newly s s2 \<inter> newly s2 s' = {}"
    and "v \<in> newly s s2" and "u \<notin> newly s s'"
    and "par s2 v = u"
    and "\<forall>w \<in> newly s s2. w \<noteq> v \<longrightarrow> par s2 w \<in> newly s s2"
    and "\<forall>w \<in> newly s s2. (v, w) \<in> (Restr (adj_rel g) (newly s s2))\<^sup>*"
    and "\<forall>x \<in> mk s2. dsc s' x = dsc s2 x \<and> par s' x = par s2 x \<and> (x \<noteq> u \<longrightarrow> lw s' x = lw s2 x)"
    and "dsc s2 v = time s" and "dsc s2 u = dsc s u" and "dsc s u < time s"
    and "nat u < length (low s2)" and "nat u \<noteq> nat v"
    and "\<forall>a \<in> newly s s2. \<forall>b. (a, b) \<in> adj_rel g \<longrightarrow> b \<in> mk s2"
    and "\<forall>x \<in> newly s s2. time s \<le> dsc s2 x"
proof -
  let ?s1 = "s\<lparr>parent := (parent s)[nat v := u]\<rparr>"
  let ?s3 = "ap_return u v k s2"
  have uv: "u \<noteq> v" using um nv by auto
  have lenp: "length (parent s) = length (visited s)" using tinv_lens[OF inv] by simp
  have p1v: "par ?s1 v = u" using r lenp by (simp add: in_range_nat)
  from gd have i2: "tinv g s2" and f12: "tframe g ?s1 s2" and dv2: "dsc s2 v = time s"
    and vm2: "v \<in> mk s2" and pv2: "par s2 v = par ?s1 v"
    and pn2: "\<forall>w \<in> newly ?s1 s2. w \<noteq> v \<longrightarrow> par s2 w \<in> newly ?s1 s2"
    and cn2: "\<forall>w \<in> newly ?s1 s2. (v, w) \<in> (Restr (adj_rel g) (newly ?s1 s2))\<^sup>*"
    by (simp_all add: gpost_dfs_def)
  have nw1: "newly ?s1 s2 = newly s s2" by (simp add: newly_def)
  show f02: "tframe g s s2" by (rule tframe_child[OF inv nv r f12 vm2])
  from gl have f3: "tframe g ?s3 s'" by (simp add: gpost_loop_def)
  show f2: "tframe g s2 s'" using f3 by (simp add: tframe_cong_left[of ?s3 s2])
  have m12: "mk s \<subseteq> mk s2" using f02 by (simp add: tframe_def)
  have m23: "mk s2 \<subseteq> mk s'" using f2 by (simp add: tframe_def)
  show "newly s s' = newly s s2 \<union> newly s2 s'" using m12 m23 by (auto simp: newly_def)
  show "newly s s2 \<inter> newly s2 s' = {}" by (auto simp: newly_def)
  show "v \<in> newly s s2" using vm2 nv by (simp add: newly_def)
  show "u \<notin> newly s s'" using um by (simp add: newly_def)
  show "par s2 v = u" using pv2 p1v by simp
  show "\<forall>w \<in> newly s s2. w \<noteq> v \<longrightarrow> par s2 w \<in> newly s s2" using pn2 unfolding nw1 .
  show "\<forall>w \<in> newly s s2. (v, w) \<in> (Restr (adj_rel g) (newly s s2))\<^sup>*" using cn2 unfolding nw1 .
  have um2: "u \<in> mk s2" using um m12 by auto
  show lu2: "nat u < length (low s2)" using mk_nat_less[OF i2 um2] tinv_lens[OF i2] by simp
  show "nat u \<noteq> nat v" using nat_neq[OF mk_in_range[OF um] r uv] .
  show "dsc s2 v = time s" by (rule dv2)
  show "dsc s2 u = dsc s u" using tframe_keep(1)[OF f02 um] .
  show "dsc s u < time s" using inv um by (simp add: tinv_def)
  show "\<forall>a \<in> newly s s2. \<forall>b. (a, b) \<in> adj_rel g \<longrightarrow> b \<in> mk s2"
    using tframe_closed[OF f02] by blast
  show "\<forall>x \<in> newly s s2. time s \<le> dsc s2 x" using f02 unfolding tframe_def by blast
  from ll have l4: "\<forall>x \<in> mk s2. x \<noteq> u \<longrightarrow> lw s' x = lw ?s3 x"
    unfolding lowpost_loop_def by simp
  have l3x: "lw ?s3 x = lw s2 x" if "x \<in> mk s2" "x \<noteq> u" for x
    using mk_nat_neq[OF that(1) um2 that(2)] by simp
  show "\<forall>x \<in> mk s2. dsc s' x = dsc s2 x \<and> par s' x = par s2 x \<and> (x \<noteq> u \<longrightarrow> lw s' x = lw s2 x)"
    using tframe_keep(1,2)[OF f2] l4 l3x by simp
qed

lemma cross_child:
  assumes inv: "tinv g s" and r: "in_range (visited s) v"
  shows "cross g v (s\<lparr>parent := (parent s)[nat v := u]\<rparr>) s2 =
     {b. b \<in> mk s \<and> (\<exists>a \<in> newly s s2. (a, b) \<in> adj_rel g \<and> \<not> (a = v \<and> b = u))}"
proof -
  let ?s1 = "s\<lparr>parent := (parent s)[nat v := u]\<rparr>"
  have lenp: "length (parent s) = length (visited s)" using tinv_lens[OF inv] by simp
  have p1v: "par ?s1 v = u" using r lenp by (simp add: in_range_nat)
  have nw1: "newly ?s1 s2 = newly s s2" by (simp add: newly_def)
  show ?thesis unfolding cross_def nw1 p1v by simp
qed

lemma cross_opens:
  assumes gi: "graph_inv g" and b: "b \<in> cross g v s s'"
  shows "opens g s b"
proof -
  from b obtain a where a: "b \<in> mk s" "a \<in> newly s s'" "(a, b) \<in> adj_rel g" unfolding cross_def by blast
  from adj_rel_sym[OF gi a(3)] a(1,2) show ?thesis unfolding opens_def newly_def by blast
qed

lemma low_gt_iff:
  assumes gi: "graph_inv g" and a: "anc_ok g s v" and ld: "lowpost_dfs g v s s'"
    and pm: "par s v \<in> mk s" and f: "tframe g s s'"
    and dv: "dsc s' v = time s" and inv: "tinv g s"
  shows "dsc s' (par s v) < lw s' v \<longleftrightarrow> cross g v s s' = {}"
proof -
  from ld have d2: "\<forall>b \<in> cross g v s s'. lw s' v \<le> dsc s b"
    and d3: "lw s' v = dsc s' v \<or> (\<exists>b \<in> cross g v s s'. lw s' v = dsc s b)"
    unfolding lowpost_dfs_def by simp_all
  have dp: "dsc s' (par s v) = dsc s (par s v)" using tframe_keep(1)[OF f pm] .
  have lt: "dsc s (par s v) < time s" using inv pm by (simp add: tinv_def)
  show ?thesis
  proof
    assume h: "dsc s' (par s v) < lw s' v"
    show "cross g v s s' = {}"
    proof (rule ccontr)
      assume "cross g v s s' \<noteq> {}"
      then obtain b where b: "b \<in> cross g v s s'" by blast
      from a cross_opens[OF gi b] have "dsc s b \<le> dsc s (par s v)" unfolding anc_ok_def by blast
      with d2 b h dp show False by fastforce
    qed
  next
    assume "cross g v s s' = {}"
    with d3 dv lt dp show "dsc s' (par s v) < lw s' v" by simp
  qed
qed

lemma low_ge_iff:
  assumes gi: "graph_inv g" and a: "anc_loop g s u" and ld: "lowpost_dfs g v s1 s'"
    and s1: "visited s1 = visited s" "discovery s1 = discovery s"
    and um: "u \<in> mk s" and f: "tframe g s1 s'"
    and dv: "dsc s' v = time s" and inv: "tinv g s"
  shows "dsc s' u \<le> lw s' v \<longleftrightarrow> cross g v s1 s' \<subseteq> {u}"
proof -
  from ld have d2: "\<forall>b \<in> cross g v s1 s'. lw s' v \<le> dsc s b"
    and d3: "lw s' v = dsc s' v \<or> (\<exists>b \<in> cross g v s1 s'. lw s' v = dsc s b)"
    unfolding lowpost_dfs_def s1 by simp_all
  have dp: "dsc s' u = dsc s u" using tframe_keep(1)[OF f, of u] um s1 by simp
  have lt: "dsc s u < time s" using inv um by (simp add: tinv_def)
  show ?thesis
  proof
    assume h: "dsc s' u \<le> lw s' v"
    show "cross g v s1 s' \<subseteq> {u}"
    proof
      fix b assume b: "b \<in> cross g v s1 s'"
      show "b \<in> {u}"
      proof (rule ccontr)
        assume "b \<notin> {u}"
        moreover from cross_opens[OF gi b] have "opens g s b" using s1 by (simp add: opens_def)
        ultimately have "dsc s b < dsc s u" using a unfolding anc_loop_def by blast
        with d2 b h dp show False by fastforce
      qed
    qed
  next
    assume "cross g v s1 s' \<subseteq> {u}"
    with d3 dv lt dp show "dsc s' u \<le> lw s' v" by auto
  qed
qed

lemma bridge_tree_iff:
  assumes gi: "graph_inv g" and inv: "tinv g s" and um: "u \<in> mk s" and nv: "v \<notin> mk s"
    and r: "in_range (visited s) v" and al: "anc_loop g s u"
    and gd: "gpost_dfs g v (s\<lparr>parent := (parent s)[nat v := u]\<rparr>) s2"
  shows "bridge g u v \<longleftrightarrow> cross g v (s\<lparr>parent := (parent s)[nat v := u]\<rparr>) s2 = {}"
proof -
  let ?s1 = "s\<lparr>parent := (parent s)[nat v := u]\<rparr>"
  let ?E = "adj_rel g"
  let ?N = "newly s s2"
  have lenp: "length (parent s) = length (visited s)" using tinv_lens[OF inv] by simp
  have p1v: "par ?s1 v = u" using r lenp by (simp add: in_range_nat)
  from gd have f12: "tframe g ?s1 s2" and vm2: "v \<in> mk s2"
    and cn2: "\<forall>w \<in> newly ?s1 s2. (v, w) \<in> (Restr ?E (newly ?s1 s2))\<^sup>*"
    by (simp_all add: gpost_dfs_def)
  have nw1: "newly ?s1 s2 = ?N" by (simp add: newly_def)
  have f02: "tframe g s s2" by (rule tframe_child[OF inv nv r f12 vm2])
  have vN: "v \<in> ?N" using vm2 nv by (simp add: newly_def)
  have uN: "u \<notin> ?N" using um by (simp add: newly_def)
  have cr: "cross g v ?s1 s2 = {b. b \<in> mk s \<and> (\<exists>a \<in> ?N. (a, b) \<in> ?E \<and> \<not> (a = v \<and> b = u))}"
    by (rule cross_child[OF inv r])
  have ao: "anc_ok g ?s1 v" by (rule anc_child[OF inv um nv r al])
  show ?thesis
  proof
    assume b: "bridge g u v"
    show "cross g v ?s1 s2 = {}"
    proof (rule ccontr)
      assume "cross g v ?s1 s2 \<noteq> {}"
      then obtain b where bc: "b \<in> cross g v ?s1 s2" by blast
      then obtain a where a: "b \<in> mk s" "a \<in> ?N" "(a, b) \<in> ?E" "\<not> (a = v \<and> b = u)"
        unfolding cr by blast
      from ao cross_opens[OF gi bc] have "(b, par ?s1 v) \<in> (Restr ?E (mk ?s1))\<^sup>*"
        unfolding anc_ok_def by blast
      then have p2: "(b, u) \<in> (Restr ?E (mk s))\<^sup>*" unfolding p1v by simp
      have p1: "(v, a) \<in> (Restr ?E ?N)\<^sup>*" using cn2 a(2) unfolding nw1 by blast
      from not_bridge_path[OF gi p1 a(3) p2 uN nv a(2,4)] b show False by simp
    qed
  next
    assume e: "cross g v ?s1 s2 = {}"
    have "\<forall>a \<in> ?N. \<forall>b. (a, b) \<in> ?E \<longrightarrow> b \<in> ?N \<or> (a = v \<and> b = u)"
    proof (intro ballI allI impI)
      fix a b assume a: "a \<in> ?N" "(a, b) \<in> ?E"
      from tframe_closed[OF f02 a] have bm: "b \<in> mk s2" .
      show "b \<in> ?N \<or> (a = v \<and> b = u)"
      proof (cases "b \<in> mk s")
        case True
        with e a show ?thesis unfolding cr by blast
      next
        case False
        with bm show ?thesis by (simp add: newly_def)
      qed
    qed
    from bridge_closed[OF gi vN uN this] show "bridge g u v" .
  qed
qed

lemma tree_br_un: "tree_br s (X \<union> Y) = tree_br s X \<union> tree_br s Y"
  by (auto simp: tree_br_def)

lemma tree_br_snd: "(a, b) \<in> tree_br s X \<Longrightarrow> b \<in> X \<and> a = par s b"
  by (auto simp: tree_br_def)

lemma tree_br_cong:
  assumes "\<And>c. c \<in> X \<Longrightarrow> par t c = par s c" "\<And>c. c \<in> X \<Longrightarrow> lw t c = lw s c"
    "\<And>c. c \<in> X \<Longrightarrow> dsc t (par s c) = dsc s (par s c)"
  shows "tree_br t X = tree_br s X"
  using assms by (auto simp: tree_br_def)

lemma brpost_loop_nil: "brpost g s s A {}"
  by (simp add: brpost_def tree_br_def)

lemma brpost_cong_left:
  assumes "br t = br s"
  shows "brpost g t s' A X = brpost g s s' A X"
  using assms by (simp add: brpost_def)

lemma brpost_loop_child:
  assumes sg: "simple_graph g" and inv: "tinv g s" and um: "u \<in> mk s" and nv: "v \<notin> mk s"
    and r: "in_range (visited s) v" and e: "(u, v) \<in> adj_rel g" and al: "anc_loop g s u"
    and gd: "gpost_dfs g v (s\<lparr>parent := (parent s)[nat v := u]\<rparr>) s2"
    and ld: "lowpost_dfs g v (s\<lparr>parent := (parent s)[nat v := u]\<rparr>) s2"
    and bd: "brpost g (s\<lparr>parent := (parent s)[nat v := u]\<rparr>) s2 (newly s s2) (newly s s2 - {v})"
    and gl: "gpost_loop g u vs (ap_return u v k s2) s'"
    and ll: "lowpost_loop g u vs (ap_return u v k s2) s'"
    and bl: "brpost g (ap_return u v k s2) s' (insert u (newly s2 s')) (newly s2 s')"
  shows "brpost g s s' (insert u (newly s s')) (newly s s')"
proof -
  let ?s1 = "s\<lparr>parent := (parent s)[nat v := u]\<rparr>"
  let ?s3 = "ap_return u v k s2"
  let ?E = "adj_rel g"
  let ?N2 = "newly s s2"
  let ?N3 = "newly s2 s'"
  from sg have gi: "graph_inv g" by (simp add: simple_graph_def)
  note c = child_ctx[OF inv um nv r gd ld gl ll]
  have f02: "tframe g s s2" and f2: "tframe g s2 s'" using c(1,2) .
  have nw: "newly s s' = ?N2 \<union> ?N3" and dj: "?N2 \<inter> ?N3 = {}" using c(3,4) .
  have vN: "v \<in> ?N2" and uN: "u \<notin> newly s s'" using c(5,6) .
  have pv: "par s2 v = u" using c(7) .
  have pn: "\<forall>w \<in> ?N2. w \<noteq> v \<longrightarrow> par s2 w \<in> ?N2" using c(8) .
  have cn: "\<forall>w \<in> ?N2. (v, w) \<in> (Restr ?E ?N2)\<^sup>*" using c(9) .
  have st: "\<forall>x \<in> mk s2. dsc s' x = dsc s2 x \<and> par s' x = par s2 x \<and> (x \<noteq> u \<longrightarrow> lw s' x = lw s2 x)"
    using c(10) .
  have cl: "\<forall>a \<in> ?N2. \<forall>b. (a, b) \<in> ?E \<longrightarrow> b \<in> mk s2" using c(16) .
  have m2: "?N2 \<subseteq> mk s2" by (auto simp: newly_def)
  have um2: "u \<in> mk s2" using um f02 by (auto simp: tframe_def)
  have uv: "u \<noteq> v" using um nv by auto
  from bd obtain B2 where B2: "br s2 = br s @ B2" "set B2 = tree_br s2 (?N2 - {v})"
    "\<forall>a \<in> ?N2. \<forall>b \<in> ?N2 - {v}. (a, b) \<in> ?E \<longrightarrow> (((a, b) \<in> set B2 \<or> (b, a) \<in> set B2) \<longleftrightarrow> bridge g a b)"
    unfolding brpost_def by auto
  from bl obtain B3 where B3: "br s' = br ?s3 @ B3" "set B3 = tree_br s' ?N3"
    "\<forall>a \<in> insert u ?N3. \<forall>b \<in> ?N3. (a, b) \<in> ?E \<longrightarrow> (((a, b) \<in> set B3 \<or> (b, a) \<in> set B3) \<longleftrightarrow> bridge g a b)"
    unfolding brpost_def by auto
  let ?M = "if dsc s2 u < lw s2 v then [(u, v)] else []"
  have b3: "br ?s3 = br s2 @ ?M" by (rule ap_return_br[OF c(14,15)])
  let ?B = "B2 @ ?M @ B3"
  have brs: "br s' = br s @ ?B" using B2(1) B3(1) b3 by simp
  have t2: "tree_br s' (?N2 - {v}) = tree_br s2 (?N2 - {v})"
  proof (rule tree_br_cong)
    fix x assume x: "x \<in> ?N2 - {v}"
    then have xm: "x \<in> mk s2" and xu: "x \<noteq> u" using m2 uN nw by auto
    from x pn have pm: "par s2 x \<in> mk s2" using m2 by auto
    show "par s' x = par s2 x" using st xm by simp
    show "lw s' x = lw s2 x" using st xm xu by simp
    show "dsc s' (par s2 x) = dsc s2 (par s2 x)" using st pm by simp
  qed
  have tv: "tree_br s' {v} = set ?M"
  proof -
    have vm: "v \<in> mk s2" using vN m2 by auto
    with st uv pv um2 have "par s' v = u" "lw s' v = lw s2 v" "dsc s' u = dsc s2 u" by auto
    then show ?thesis by (auto simp: tree_br_def)
  qed
  have NN: "newly s s' = (?N2 - {v}) \<union> {v} \<union> ?N3" using nw vN by auto
  have sB: "set ?B = tree_br s' (newly s s')"
    unfolding NN tree_br_un t2 tv using B2(2) B3(2) by auto
  have in2: "(a, b) \<in> set B2 \<Longrightarrow> b \<in> ?N2 - {v} \<and> a \<in> ?N2" for a b
    unfolding B2(2) using tree_br_snd[of a b s2 "?N2 - {v}"] pn by auto
  have in3: "(a, b) \<in> set B3 \<Longrightarrow> b \<in> ?N3" for a b
    unfolding B3(2) using tree_br_snd[of a b s' ?N3] by auto
  have ao: "anc_ok g ?s1 v" by (rule anc_child[OF inv um nv r al])
  have lenp: "length (parent s) = length (visited s)" using tinv_lens[OF inv] by simp
  have p1v: "par ?s1 v = u" using r lenp by (simp add: in_range_nat)
  have i1: "tinv g ?s1" by (rule tinv_parent_upd[OF inv nv r]) simp_all
  from gd have f12: "tframe g ?s1 s2" by (simp add: gpost_dfs_def)
  have "dsc s2 (par ?s1 v) < lw s2 v \<longleftrightarrow> cross g v ?s1 s2 = {}"
    by (rule low_gt_iff[OF gi ao ld _ f12 _ i1]) (use p1v um c(11) in simp_all)
  then have M: "dsc s2 u < lw s2 v \<longleftrightarrow> bridge g u v"
    unfolding p1v bridge_tree_iff[OF gi inv um nv r al gd] .
  have main: "((a, b) \<in> set ?B \<or> (b, a) \<in> set ?B) \<longleftrightarrow> bridge g a b"
    if a: "a \<in> insert u (newly s s')" and b: "b \<in> newly s s'" and ab: "(a, b) \<in> ?E" for a b
  proof -
    have ba: "(b, a) \<in> ?E" using adj_rel_sym[OF gi ab] .
    have anb: "a \<noteq> b" using adj_rel_irrefl[OF sg] ab by auto
    consider (both2) "a \<in> ?N2" "b \<in> ?N2" | (uv) "a = u" "b = v" | (ub) "a = u" "b \<in> ?N2" "b \<noteq> v"
      | (x23) "a \<in> ?N2" "b \<in> ?N3" | (x32) "a \<in> ?N3" "b \<in> ?N2" | (r3) "a \<in> insert u ?N3" "b \<in> ?N3"
      using a b nw by blast
    then show ?thesis
    proof cases
      case both2
      have k: "((a, b) \<in> set ?B \<or> (b, a) \<in> set ?B) \<longleftrightarrow> ((a, b) \<in> set B2 \<or> (b, a) \<in> set B2)"
        using both2 in3 dj uN nw by (auto split: if_splits)
      show ?thesis
      proof (cases "b = v")
        case False
        with B2(3) both2 ab show ?thesis unfolding k by blast
      next
        case True
        with anb both2 have "v \<in> ?N2" "a \<in> ?N2 - {v}" by auto
        with B2(3) ba True have "((b, a) \<in> set B2 \<or> (a, b) \<in> set B2) \<longleftrightarrow> bridge g b a" by blast
        then show ?thesis unfolding k bridge_sym[OF gi, of a b] by blast
      qed
    next
      case uv
      have "(u, v) \<notin> set B2" "(v, u) \<notin> set B2" "(u, v) \<notin> set B3" "(v, u) \<notin> set B3"
        using in2[of u v] in2[of v u] in3[of u v] in3[of v u] uN nw vN dj by auto
      then have "((a, b) \<in> set ?B \<or> (b, a) \<in> set ?B) \<longleftrightarrow> dsc s2 u < lw s2 v"
        unfolding uv using \<open>u \<noteq> v\<close> by auto
      then show ?thesis unfolding M uv .
    next
      case ub
      have "(u, b) \<notin> set B2" "(b, u) \<notin> set B2" "(u, b) \<notin> set B3" "(b, u) \<notin> set B3"
        using in2[of u b] in2[of b u] in3[of u b] in3[of b u] uN nw ub dj by auto
      then have n: "\<not> ((a, b) \<in> set ?B \<or> (b, a) \<in> set ?B)"
        unfolding ub using ub(3) uv by auto
      have "(v, b) \<in> (Restr ?E ?N2)\<^sup>*" using cn ub(2) by blast
      from not_bridge_detour[OF e this _ ub(2)] uN nw ub(3) have "\<not> bridge g u b" by auto
      with n show ?thesis unfolding ub(1) by simp
    next
      case x23
      with cl ab have "b \<in> mk s2" by blast
      with x23 show ?thesis by (simp add: newly_def)
    next
      case x32
      with cl ba have "a \<in> mk s2" by blast
      with x32 show ?thesis by (simp add: newly_def)
    next
      case r3
      have "(a, b) \<notin> set B2" "(b, a) \<notin> set B2"
        using in2[of a b] in2[of b a] r3 dj by auto
      moreover have "(a, b) \<noteq> (u, v)" "(b, a) \<noteq> (u, v)" using r3 vN dj uN nw by auto
      ultimately have k: "((a, b) \<in> set ?B \<or> (b, a) \<in> set ?B) \<longleftrightarrow> ((a, b) \<in> set B3 \<or> (b, a) \<in> set B3)"
        by (auto split: if_splits)
      from B3(3) r3 ab show ?thesis unfolding k by blast
    qed
  qed
  show ?thesis unfolding brpost_def
    using brs sB main by blast
qed

lemma newly_enter:
  assumes r: "in_range (visited s) v" and nv: "v \<notin> mk s" and f: "tframe g (enter v s) s'"
  shows "newly s s' = insert v (newly (enter v s) s')" "newly (enter v s) s' = newly s s' - {v}"
proof -
  have m1: "mk (enter v s) = insert v (mk s)" using r by (simp add: marked_update)
  from f have "mk (enter v s) \<subseteq> mk s'" by (simp add: tframe_def)
  with m1 nv show "newly s s' = insert v (newly (enter v s) s')" "newly (enter v s) s' = newly s s' - {v}"
    by (auto simp: newly_def)
qed

lemma ap_br:
  shows "ap_dfs d g v s = Inr s' \<Longrightarrow> simple_graph g \<Longrightarrow> tinv g s \<Longrightarrow> v \<notin> mk s \<Longrightarrow>
           par s v = - 1 \<or> (par s v \<in> mk s \<and> (par s v, v) \<in> adj_rel g) \<Longrightarrow> anc_ok g s v \<Longrightarrow>
           brpost g s s' (newly s s') (newly s s' - {v})"
    and "ap_loop d g u c vs s = Inr s' \<Longrightarrow> simple_graph g \<Longrightarrow> tinv g s \<Longrightarrow> u \<in> mk s \<Longrightarrow>
           set vs \<subseteq> adj_rel g `` {u} \<Longrightarrow> lw s u \<le> dsc s u \<Longrightarrow> anc_loop g s u \<Longrightarrow>
           brpost g s s' (insert u (newly s s')) (newly s s')"
proof (induction d g v s and d g u c vs s arbitrary: s' and s' rule: ap_dfs_ap_loop.induct)
  case (1 g u s)
  then show ?case by simp
next
  case (2 d g u s)
  from "2.prems"(1) have r: "in_range (visited s) u" "in_range (AdjList g) u"
    and l: "ap_loop d g u 0 (AdjList g ! nat u) (enter u s) = Inr s'"
    by (auto split: if_splits)
  note sg = "2.prems"(2) and inv = "2.prems"(3) and nu = "2.prems"(4) and pp = "2.prems"(5)
  have i1: "tinv g (enter u s)" using tinv_enter[OF inv r(1) nu pp] .
  have m1: "u \<in> mk (enter u s)" using r by (simp add: marked_update)
  have sub: "set (AdjList g ! nat u) \<subseteq> adj_rel g `` {u}" using r(2) by (simp add: adj_rel_adj)
  have lens: "nat u < length (discovery s)" "nat u < length (low s)"
    using r(1) tinv_lens[OF inv] by (simp_all add: in_range_nat)
  have le: "lw (enter u s) u \<le> dsc (enter u s) u" using lens by simp
  have al: "anc_loop g (enter u s) u" by (rule anc_enter[OF inv r(1) nu pp "2.prems"(6)])
  from "2.IH"[OF _ _ l sg i1 m1 sub le al] r
  have a: "brpost g (enter u s) s' (insert u (newly (enter u s) s')) (newly (enter u s) s')" by simp
  have "gpost_loop g u (AdjList g ! nat u) (enter u s) s'"
    by (rule ap_generic(2)[OF l i1 m1 sub])
  then have f: "tframe g (enter u s) s'" by (simp add: gpost_loop_def)
  have be: "br (enter u s) = br s" by (simp add: enter_def)
  have "insert u (newly s s' - {u}) = newly s s'" using newly_enter(1)[OF r(1) nu f] by auto
  with a show ?case
    unfolding brpost_cong_left[OF be] newly_enter(2)[OF r(1) nu f] by simp
next
  case (3 d g u c s)
  then show ?case by (simp add: brpost_loop_nil newly_def)
next
  case (4 d g u c v vs s)
  from "4.prems"(1) have r: "in_range (visited s) v" by (auto split: if_splits)
  have e: "(u, v) \<in> adj_rel g" and sub: "set vs \<subseteq> adj_rel g `` {u}" using "4.prems"(5) by auto
  note sg = "4.prems"(2) and inv = "4.prems"(3) and um = "4.prems"(4) and lu = "4.prems"(6)
    and al = "4.prems"(7)
  have lul: "nat u < length (low s)" using mk_nat_less[OF inv um] tinv_lens[OF inv] by simp
  show ?case
  proof (cases "visited s ! nat v")
    case False
    let ?s1 = "s\<lparr>parent := (parent s)[nat v := u]\<rparr>"
    let ?s3 = "\<lambda>s2. ap_return u v (c + 1) s2"
    from "4.prems"(1) r False obtain s2 where
      d: "ap_dfs d g v ?s1 = Inr s2" and l: "ap_loop d g u (c + 1) vs (?s3 s2) = Inr s'"
      by (auto split: sum.splits)
    have nv: "v \<notin> mk s" using False by (simp add: marked_def)
    have i1: "tinv g ?s1"
      by (rule tinv_parent_upd[OF inv nv r]) simp_all
    have lenp: "length (parent s) = length (visited s)" using inv by (simp add: tinv_def)
    have pv: "par ?s1 v = u" using r lenp by (simp add: in_range_nat)
    have pre: "par ?s1 v = - 1 \<or> (par ?s1 v \<in> mk ?s1 \<and> (par ?s1 v, v) \<in> adj_rel g)"
      unfolding pv using um e by simp
    have nv1: "v \<notin> mk ?s1" using nv by simp
    have ao: "anc_ok g ?s1 v" by (rule anc_child[OF inv um nv r al])
    have g2: "gpost_dfs g v ?s1 s2" by (rule ap_generic(1)[OF d i1 nv1 pre])
    have l2: "lowpost_dfs g v ?s1 s2" by (rule ap_low(1)[OF d sg i1 nv1 pre])
    have nw1: "newly ?s1 s2 = newly s s2" by (simp add: newly_def)
    from "4.IH"(1)[OF _ _ d sg i1 nv1 pre ao] r False
    have b2: "brpost g ?s1 s2 (newly s s2) (newly s s2 - {v})" unfolding nw1 by simp
    from g2 have i2: "tinv g s2" and f12: "tframe g ?s1 s2" and vm2: "v \<in> mk s2"
      by (simp_all add: gpost_dfs_def)
    have f02: "tframe g s s2" by (rule tframe_child[OF inv nv r f12 vm2])
    have i3: "tinv g (?s3 s2)" using i2 by (simp add: tinv_def)
    have um2: "u \<in> mk s2" using f12 um by (auto simp: tframe_def)
    then have um3: "u \<in> mk (?s3 s2)" by simp
    have lu2: "nat u < length (low s2)" using mk_nat_less[OF i2 um2] tinv_lens[OF i2] by simp
    have "lw s2 u = lw s u" using l2 um by (simp add: lowpost_dfs_def)
    moreover have "dsc s2 u = dsc s u" using tframe_keep(1)[OF f12, of u] um by simp
    ultimately have lu3: "lw (?s3 s2) u \<le> dsc (?s3 s2) u" using lu lu2 by (simp add: min_int_min min_def)
    have al3: "anc_loop g (?s3 s2) u"
      using anc_frame[OF al um f02] by (simp add: anc_loop_cong[of "?s3 s2" s2])
    have g3: "gpost_loop g u vs (?s3 s2) s'" by (rule ap_generic(2)[OF l i3 um3 sub])
    have l3: "lowpost_loop g u vs (?s3 s2) s'" by (rule ap_low(2)[OF l sg i3 um3 sub lu3])
    have nw3: "newly (?s3 s2) s' = newly s2 s'" by (simp add: newly_def)
    from "4.IH"(2)[OF _ _ d l sg i3 um3 sub lu3 al3] r False
    have b3: "brpost g (?s3 s2) s' (insert u (newly s2 s')) (newly s2 s')" unfolding nw3 by simp
    show ?thesis by (rule brpost_loop_child[OF sg inv um nv r e al g2 l2 b2 g3 l3 b3])
  next
    case True
    then have vm: "v \<in> mk s" using r by (simp add: marked_def)
    show ?thesis
    proof (cases "v \<noteq> par s u")
      case T: True
      let ?t = "s\<lparr>low := (low s)[nat u := min_int (lw s u) (dsc s v)]\<rparr>"
      from "4.prems"(1) r True T have l: "ap_loop d g u c vs ?t = Inr s'" by simp
      have it: "tinv g ?t" using inv by (simp add: tinv_def)
      have umt: "u \<in> mk ?t" using um by simp
      have lut: "lw ?t u \<le> dsc ?t u" using lu lul by (simp add: min_int_min min_def)
      have alt: "anc_loop g ?t u" using al by (simp add: anc_loop_cong[of ?t s])
      have nwt: "newly ?t s' = newly s s'" by (simp add: newly_def)
      from "4.IH"(3)[OF _ _ _ l sg it umt sub lut alt] r True T
      have "brpost g ?t s' (insert u (newly s s')) (newly s s')" unfolding nwt by simp
      then show ?thesis by (simp add: brpost_cong_left[of ?t s])
    next
      case F: False
      from "4.prems"(1) r True F have l: "ap_loop d g u c vs s = Inr s'" by auto
      from "4.IH"(4)[OF _ _ _ l sg inv um sub lu al] r True F show ?thesis by simp
    qed
  qed
qed

lemma sym_reach: "sym R \<Longrightarrow> (x, y) \<in> R\<^sup>* \<Longrightarrow> (y, x) \<in> R\<^sup>*"
  using sym_rtrancl[of R] by (meson symD)

lemma cls_eq_iff:
  assumes s: "sym R" and x: "x \<in> V" and y: "y \<in> V"
  shows "cls V R x = cls V R y \<longleftrightarrow> (x, y) \<in> R\<^sup>*"
proof
  assume "cls V R x = cls V R y"
  moreover have "y \<in> cls V R y" using y by (simp add: cls_def)
  ultimately have "y \<in> cls V R x" by simp
  then show "(x, y) \<in> R\<^sup>*" by (simp add: cls_def)
next
  assume p: "(x, y) \<in> R\<^sup>*"
  have q: "(y, x) \<in> R\<^sup>*" using sym_reach[OF s p] .
  show "cls V R x = cls V R y" unfolding cls_def using p q by (auto intro: rtrancl_trans)
qed

lemma merge_cls_cls:
  assumes sub: "R' \<subseteq> R" and x: "x \<in> V'" and v: "V' \<subseteq> V"
  shows "merge_cls V R (cls V' R' x) = cls V R x"
proof -
  have m: "R'\<^sup>* \<subseteq> R\<^sup>*" using rtrancl_mono[OF sub] .
  show ?thesis unfolding merge_cls_def cls_def using x m by (auto intro: rtrancl_trans)
qed

lemma merge_image:
  assumes sub: "R' \<subseteq> R" and v: "V' \<subseteq> V"
  shows "merge_cls V R ` (cls V' R' ` V') = cls V R ` V'"
proof -
  have "merge_cls V R (cls V' R' x) = cls V R x" if "x \<in> V'" for x
    using merge_cls_cls[OF sub that v] .
  then show ?thesis by (auto simp: image_image)
qed

text \<open>
  Refining the relation (and possibly dropping vertices) splits classes: the count
  goes up exactly when two vertices that stay are connected before and not after.
\<close>

lemma count_split:
  assumes fin: "finite V" and s: "sym R" and s': "sym R'" and sub: "R' \<subseteq> R" and v: "V' \<subseteq> V"
  shows "card (cls V R ` V') < card (cls V' R' ` V') \<longleftrightarrow>
         (\<exists>x \<in> V'. \<exists>y \<in> V'. (x, y) \<in> R\<^sup>* \<and> (x, y) \<notin> R'\<^sup>*)"
proof -
  let ?S = "cls V' R' ` V'"
  have fS: "finite ?S" using fin v by (simp add: finite_subset)
  have im: "merge_cls V R ` ?S = cls V R ` V'" by (rule merge_image[OF sub v])
  have le: "card (cls V R ` V') \<le> card ?S" unfolding im[symmetric] using fS by (rule card_image_le)
  have inj: "inj_on (merge_cls V R) ?S \<longleftrightarrow> \<not> (\<exists>x \<in> V'. \<exists>y \<in> V'. (x, y) \<in> R\<^sup>* \<and> (x, y) \<notin> R'\<^sup>*)"
  proof
    assume i: "inj_on (merge_cls V R) ?S"
    show "\<not> (\<exists>x \<in> V'. \<exists>y \<in> V'. (x, y) \<in> R\<^sup>* \<and> (x, y) \<notin> R'\<^sup>*)"
    proof
      assume "\<exists>x \<in> V'. \<exists>y \<in> V'. (x, y) \<in> R\<^sup>* \<and> (x, y) \<notin> R'\<^sup>*"
      then obtain x y where xy: "x \<in> V'" "y \<in> V'" "(x, y) \<in> R\<^sup>*" "(x, y) \<notin> R'\<^sup>*" by blast
      have "cls V R x = cls V R y" using cls_eq_iff[OF s, of x V y] xy v by auto
      then have "merge_cls V R (cls V' R' x) = merge_cls V R (cls V' R' y)"
        using merge_cls_cls[OF sub _ v] xy by simp
      with i xy have "cls V' R' x = cls V' R' y" by (simp add: inj_on_def)
      with cls_eq_iff[OF s' xy(1,2)] xy(4) show False by simp
    qed
  next
    assume n: "\<not> (\<exists>x \<in> V'. \<exists>y \<in> V'. (x, y) \<in> R\<^sup>* \<and> (x, y) \<notin> R'\<^sup>*)"
    show "inj_on (merge_cls V R) ?S"
    proof (rule inj_onI)
      fix C D assume C: "C \<in> ?S" and D: "D \<in> ?S" and e: "merge_cls V R C = merge_cls V R D"
      from C D obtain x y where xy: "x \<in> V'" "C = cls V' R' x" "y \<in> V'" "D = cls V' R' y" by blast
      from e have "cls V R x = cls V R y" using merge_cls_cls[OF sub _ v] xy by simp
      then have "(x, y) \<in> R\<^sup>*" using cls_eq_iff[OF s, of x V y] xy v by auto
      with n xy have "(x, y) \<in> R'\<^sup>*" by blast
      then show "C = D" using cls_eq_iff[OF s' xy(1,3)] xy by simp
    qed
  qed
  have "card (cls V R ` V') = card ?S \<longleftrightarrow> inj_on (merge_cls V R) ?S"
    unfolding im[symmetric] using fS by (metis card_image eq_card_imp_inj_on)
  with le inj show ?thesis by linarith
qed

lemma edge_removal_count:
  assumes fin: "finite V" and s: "sym R" and a: "a \<in> V" and b: "b \<in> V" and ab: "(a, b) \<in> R"
  shows "component_count V R < component_count V (R - {(a, b), (b, a)}) \<longleftrightarrow>
         (a, b) \<notin> (R - {(a, b), (b, a)})\<^sup>*"
proof -
  let ?R' = "R - {(a, b), (b, a)}"
  have s': "sym ?R'" using s by (auto simp: sym_def)
  have c: "component_count V R < component_count V ?R' \<longleftrightarrow>
      (\<exists>x \<in> V. \<exists>y \<in> V. (x, y) \<in> R\<^sup>* \<and> (x, y) \<notin> ?R'\<^sup>*)"
    unfolding component_count_def by (rule count_split[OF fin s s']) auto
  show ?thesis unfolding c
  proof
    assume "\<exists>x \<in> V. \<exists>y \<in> V. (x, y) \<in> R\<^sup>* \<and> (x, y) \<notin> ?R'\<^sup>*"
    then obtain x y where xy: "(x, y) \<in> R\<^sup>*" "(x, y) \<notin> ?R'\<^sup>*" by blast
    show "(a, b) \<notin> ?R'\<^sup>*"
    proof
      assume p: "(a, b) \<in> ?R'\<^sup>*"
      then have q: "(b, a) \<in> ?R'\<^sup>*" by (rule sym_reach[OF s'])
      have "R \<subseteq> ?R'\<^sup>*" using p q by auto
      from rtrancl_mono[OF this] xy show False by auto
    qed
  next
    assume "(a, b) \<notin> ?R'\<^sup>*"
    with a b ab show "\<exists>x \<in> V. \<exists>y \<in> V. (x, y) \<in> R\<^sup>* \<and> (x, y) \<notin> ?R'\<^sup>*" by blast
  qed
qed

lemma avoid_vertex_path:
  assumes s: "sym R"
    and nb: "\<forall>x y. (v, x) \<in> R \<and> (v, y) \<in> R \<longrightarrow> (x, y) \<in> (Restr R (- {v}))\<^sup>*"
    and p: "(x, y) \<in> R\<^sup>*" and x: "x \<noteq> v"
  shows "(y \<noteq> v \<longrightarrow> (x, y) \<in> (Restr R (- {v}))\<^sup>*) \<and>
         (y = v \<longrightarrow> (\<exists>n. (v, n) \<in> R \<and> (x, n) \<in> (Restr R (- {v}))\<^sup>*))"
  using p
proof (induction rule: rtrancl_induct)
  case base
  then show ?case using x by simp
next
  case (step y z)
  let ?R' = "Restr R (- {v})"
  show ?case
  proof (cases "y = v")
    case True
    with step.IH obtain n where n: "(v, n) \<in> R" "(x, n) \<in> ?R'\<^sup>*" by blast
    show ?thesis
    proof (cases "z = v")
      case True
      with n show ?thesis by blast
    next
      case False
      from step.hyps(2) True have "(v, z) \<in> R" by simp
      with nb n(1) have "(n, z) \<in> ?R'\<^sup>*" by blast
      with n(2) False show ?thesis by (auto intro: rtrancl_trans)
    qed
  next
    case False
    with step.IH have xy: "(x, y) \<in> ?R'\<^sup>*" by simp
    show ?thesis
    proof (cases "z = v")
      case True
      from step.hyps(2) True have "(v, y) \<in> R" using s by (auto simp: sym_def)
      with xy True show ?thesis by blast
    next
      case F: False
      with False step.hyps(2) have "(y, z) \<in> ?R'" by simp
      with xy F show ?thesis by (auto intro: rtrancl.rtrancl_into_rtrancl)
    qed
  qed
qed

lemma vertex_removal_count:
  assumes fin: "finite V" and s: "sym R" and irr: "(v, v) \<notin> R" and f: "R \<subseteq> V \<times> V"
  shows "component_count V R < component_count (V - {v}) (Restr R (- {v})) \<longleftrightarrow>
         (\<exists>x y. (v, x) \<in> R \<and> (v, y) \<in> R \<and> (x, y) \<notin> (Restr R (- {v}))\<^sup>*)"
proof -
  let ?R' = "Restr R (- {v})"
  let ?V' = "V - {v}"
  have s': "sym ?R'" using s by (auto simp: sym_def)
  have c: "card (cls V R ` ?V') < card (cls ?V' ?R' ` ?V') \<longleftrightarrow>
      (\<exists>x \<in> ?V'. \<exists>y \<in> ?V'. (x, y) \<in> R\<^sup>* \<and> (x, y) \<notin> ?R'\<^sup>*)"
    by (rule count_split[OF fin s s']) auto
  have le: "card (cls V R ` ?V') \<le> card (cls V R ` V)"
    by (rule card_mono) (use fin in auto)
  show ?thesis
  proof
    assume "component_count V R < component_count ?V' ?R'"
    with le have "card (cls V R ` ?V') < card (cls ?V' ?R' ` ?V')" by (simp add: component_count_def)
    with c obtain x y where xy: "x \<noteq> v" "y \<noteq> v" "(x, y) \<in> R\<^sup>*" "(x, y) \<notin> ?R'\<^sup>*" by auto
    show "\<exists>x y. (v, x) \<in> R \<and> (v, y) \<in> R \<and> (x, y) \<notin> ?R'\<^sup>*"
    proof (rule ccontr)
      assume "\<not> (\<exists>x y. (v, x) \<in> R \<and> (v, y) \<in> R \<and> (x, y) \<notin> ?R'\<^sup>*)"
      then have "\<forall>x y. (v, x) \<in> R \<and> (v, y) \<in> R \<longrightarrow> (x, y) \<in> ?R'\<^sup>*" by blast
      from avoid_vertex_path[OF s this xy(3,1)] xy(2,4) show False by simp
    qed
  next
    assume "\<exists>x y. (v, x) \<in> R \<and> (v, y) \<in> R \<and> (x, y) \<notin> ?R'\<^sup>*"
    then obtain x y where xy: "(v, x) \<in> R" "(v, y) \<in> R" "(x, y) \<notin> ?R'\<^sup>*" by blast
    have xv: "x \<in> ?V'" "y \<in> ?V'" "v \<in> V" using xy(1,2) irr f by auto
    have "(x, v) \<in> R" using xy(1) s by (auto simp: sym_def)
    with xy(2) have "(x, y) \<in> R\<^sup>*" by (meson rtrancl.rtrancl_into_rtrancl r_into_rtrancl)
    with c xv xy(3) have lt: "card (cls V R ` ?V') < card (cls ?V' ?R' ` ?V')" by blast
    have "cls V R v = cls V R x" using cls_eq_iff[OF s xv(3), of x] xv(1) xy(1) by auto
    then have "cls V R v \<in> cls V R ` ?V'" using xv(1) by blast
    then have "cls V R ` V = cls V R ` ?V'" by auto
    with lt show "component_count V R < component_count ?V' ?R'" by (simp add: component_count_def)
  qed
qed

lemma ap_roots_inv:
  assumes step: "\<And>r s s'. outer_inv g s \<Longrightarrow> P s \<Longrightarrow> r \<notin> mk s \<Longrightarrow> in_range (AdjList g) r \<Longrightarrow>
                    ap_dfs d g r s = Inr s' \<Longrightarrow> P s'"
  shows "ap_roots d g us s = Inr s' \<Longrightarrow> outer_inv g s \<Longrightarrow> P s \<Longrightarrow>
         \<forall>u \<in> set us. in_range (AdjList g) u \<Longrightarrow> P s'"
proof (induction us arbitrary: s)
  case Nil
  then show ?case by simp
next
  case (Cons u us)
  note oi = Cons.prems(2)
  then have inv: "tinv g s" by (simp add: outer_inv_def)
  have ra: "in_range (AdjList g) u" and rest: "\<forall>u \<in> set us. in_range (AdjList g) u"
    using Cons.prems(4) by auto
  have r: "in_range (visited s) u" using ra tinv_lens(1)[OF inv] by (simp add: in_range_def)
  show ?case
  proof (cases "visited s ! nat u")
    case True
    with Cons.prems(1) r have "ap_roots d g us s = Inr s'" by simp
    from Cons.IH[OF this oi Cons.prems(3) rest] show ?thesis .
  next
    case False
    then have nu: "u \<notin> mk s" by (simp add: marked_def)
    from Cons.prems(1) r False obtain s1 where
      s1: "ap_dfs d g u s = Inr s1" and l: "ap_roots d g us s1 = Inr s'"
      by (auto split: sum.splits)
    have pp: "par s u = - 1 \<or> (par s u \<in> mk s \<and> (par s u, u) \<in> adj_rel g)"
      using oi ra nu by (simp add: outer_inv_def)
    have gd: "gpost_dfs g u s s1" using ap_generic(1)[OF s1 inv nu pp] .
    have oi1: "outer_inv g s1" using outer_inv_step[OF oi gd] .
    have "P s1" by (rule step[OF oi Cons.prems(3) nu ra s1])
    from Cons.IH[OF l oi1 this rest] show ?thesis .
  qed
qed

lemma outer_anc_ok: "outer_inv g s \<Longrightarrow> anc_ok g s r"
  by (auto simp: outer_inv_def anc_ok_def opens_def)

lemma binv_step:
  assumes sg: "simple_graph g" and oi: "outer_inv g s" and b: "binv g s" and nr: "r \<notin> mk s"
    and ra: "in_range (AdjList g) r" and d: "ap_dfs d g r s = Inr s'"
  shows "binv g s'"
proof -
  let ?E = "adj_rel g"
  let ?N = "newly s s'"
  from sg have gi: "graph_inv g" by (simp add: simple_graph_def)
  from oi have inv: "tinv g s" and clo: "\<forall>x \<in> mk s. ?E `` {x} \<subseteq> mk s"
    and pr: "par s r = - 1" using ra nr by (simp_all add: outer_inv_def)
  have pp: "par s r = - 1 \<or> (par s r \<in> mk s \<and> (par s r, r) \<in> ?E)" using pr by simp
  have gd: "gpost_dfs g r s s'" by (rule ap_generic(1)[OF d inv nr pp])
  have ld: "lowpost_dfs g r s s'" by (rule ap_low(1)[OF d sg inv nr pp])
  have bp: "brpost g s s' ?N (?N - {r})" by (rule ap_br(1)[OF d sg inv nr pp outer_anc_ok[OF oi]])
  from gd have i': "tinv g s'" and f: "tframe g s s'" and rm: "r \<in> mk s'" and pr': "par s' r = par s r"
    and pn: "\<forall>w \<in> ?N. w \<noteq> r \<longrightarrow> par s' w \<in> ?N"
    by (simp_all add: gpost_dfs_def)
  from ld have lo: "\<forall>x \<in> mk s. lw s' x = lw s x" by (simp add: lowpost_dfs_def)
  have sub: "mk s \<subseteq> mk s'" using f by (simp add: tframe_def)
  have ms: "mk s' = mk s \<union> ?N" "mk s \<inter> ?N = {}" using sub by (auto simp: newly_def)
  from bp obtain B where B: "br s' = br s @ B" "set B = tree_br s' (?N - {r})"
    "\<forall>a \<in> ?N. \<forall>b \<in> ?N - {r}. (a, b) \<in> ?E \<longrightarrow> (((a, b) \<in> set B \<or> (b, a) \<in> set B) \<longleftrightarrow> bridge g a b)"
    unfolding brpost_def by auto
  from b have b1: "set (br s) = tree_br s {c \<in> mk s. par s c \<noteq> - 1}"
    and b2: "\<forall>a \<in> mk s. \<forall>b \<in> mk s. (a, b) \<in> ?E \<longrightarrow>
        (((a, b) \<in> set (br s) \<or> (b, a) \<in> set (br s)) \<longleftrightarrow> bridge g a b)"
    unfolding binv_def by blast+
  have neg: "x \<noteq> - 1" if "x \<in> mk s'" for x using mk_nat_less[OF i' that] by auto
  have split: "{c \<in> mk s'. par s' c \<noteq> - 1} = {c \<in> mk s. par s c \<noteq> - 1} \<union> (?N - {r})"
  proof -
    have "par s' c = par s c" if "c \<in> mk s" for c using tframe_keep(2)[OF f that] .
    moreover have "par s' c \<noteq> - 1" if "c \<in> ?N" "c \<noteq> r" for c
    proof -
      from pn that have "par s' c \<in> mk s'" by (auto simp: newly_def)
      from neg[OF this] show ?thesis .
    qed
    moreover have "r \<in> ?N" using rm nr by (simp add: newly_def)
    ultimately show ?thesis unfolding ms(1) using pr pr' ms(2) by auto
  qed
  have old: "tree_br s' {c \<in> mk s. par s c \<noteq> - 1} = tree_br s {c \<in> mk s. par s c \<noteq> - 1}"
  proof (rule tree_br_cong)
    fix c assume "c \<in> {c \<in> mk s. par s c \<noteq> - 1}"
    then have c: "c \<in> mk s" "par s c \<noteq> - 1" by simp_all
    with inv have pm: "par s c \<in> mk s" unfolding tinv_def by blast
    show "par s' c = par s c" using tframe_keep(2)[OF f c(1)] .
    show "lw s' c = lw s c" using lo c(1) by simp
    show "dsc s' (par s c) = dsc s (par s c)" using tframe_keep(1)[OF f pm] .
  qed
  have in0: "(a, b) \<in> set (br s) \<Longrightarrow> a \<in> mk s \<and> b \<in> mk s" for a b
    unfolding b1 using tree_br_snd[of a b s "{c \<in> mk s. par s c \<noteq> - 1}"] inv
    unfolding tinv_def by auto
  have inB: "(a, b) \<in> set B \<Longrightarrow> a \<in> ?N \<and> b \<in> ?N" for a b
    unfolding B(2) using tree_br_snd[of a b s' "?N - {r}"] pn by auto
  show ?thesis unfolding binv_def
  proof (intro conjI ballI impI)
    show "set (br s') = tree_br s' {c \<in> mk s'. par s' c \<noteq> - 1}"
      unfolding split tree_br_un old using B(1,2) b1 by simp
    fix a b assume a: "a \<in> mk s'" and bm: "b \<in> mk s'" and ab: "(a, b) \<in> ?E"
    have ba: "(b, a) \<in> ?E" using adj_rel_sym[OF gi ab] .
    have anb: "a \<noteq> b" using adj_rel_irrefl[OF sg] ab by auto
    consider (old) "a \<in> mk s" "b \<in> mk s" | (new) "a \<in> ?N" "b \<in> ?N"
      | (m1) "a \<in> mk s" "b \<in> ?N" | (m2) "a \<in> ?N" "b \<in> mk s"
      using a bm ms by blast
    then show "((a, b) \<in> set (br s') \<or> (b, a) \<in> set (br s')) \<longleftrightarrow> bridge g a b"
    proof cases
      case old
      then have "((a, b) \<in> set (br s') \<or> (b, a) \<in> set (br s')) \<longleftrightarrow> ((a, b) \<in> set (br s) \<or> (b, a) \<in> set (br s))"
        unfolding B(1) using inB[of a b] inB[of b a] ms(2) by auto
      with b2 old ab show ?thesis by blast
    next
      case new
      then have k: "((a, b) \<in> set (br s') \<or> (b, a) \<in> set (br s')) \<longleftrightarrow> ((a, b) \<in> set B \<or> (b, a) \<in> set B)"
        unfolding B(1) using in0[of a b] in0[of b a] ms(2) by auto
      show ?thesis
      proof (cases "b = r")
        case False
        with B(3) new ab show ?thesis unfolding k by blast
      next
        case True
        with anb new have "b \<in> ?N" "a \<in> ?N - {r}" by auto
        with B(3) ba have "((b, a) \<in> set B \<or> (a, b) \<in> set B) \<longleftrightarrow> bridge g b a" by blast
        then show ?thesis unfolding k bridge_sym[OF gi, of a b] by blast
      qed
    next
      case m1
      with clo ab have "b \<in> mk s" by blast
      with m1 ms(2) show ?thesis by blast
    next
      case m2
      with clo ba have "a \<in> mk s" by blast
      with m2 ms(2) show ?thesis by blast
    qed
  qed
qed

lemma binv_init: "binv g (ap_init g)"
proof -
  have m: "mk (ap_init g) = {}" by (auto simp: ap_init_def marked_def in_range_def)
  show ?thesis unfolding binv_def m by (simp add: tree_br_def ap_init_def)
qed

lemma bridges_local:
  assumes sg: "simple_graph g" and d: "nat (Vertices g) \<le> d"
  shows "\<exists>s. ap_roots d g (map int [0..<nat (Vertices g)]) (ap_init g) = Inr s \<and>
             ArticulationPointsAndBridges d g = Inr (ap s, br s) \<and>
             outer_inv g s \<and> mk s = vertices g \<and> binv g s"
proof -
  from sg have gi: "graph_inv g" by (simp add: simple_graph_def)
  from ArticulationPointsAndBridges_total[OF gi d] obtain s where
    s: "ap_roots d g (map int [0..<nat (Vertices g)]) (ap_init g) = Inr s"
       "ArticulationPointsAndBridges d g = Inr (ap s, br s)" "outer_inv g s" "mk s = {0..<Vertices g}"
    by blast
  have "binv g s"
    by (rule ap_roots_inv[where P = "binv g", OF binv_step[OF sg] s(1) ap_init_inv[OF gi] binv_init roots_in_range[OF gi]])
  with s show ?thesis unfolding vertices_def by blast
qed

lemma adj_rel_vertices: "graph_inv g \<Longrightarrow> adj_rel g \<subseteq> vertices g \<times> vertices g"
proof -
  assume gi: "graph_inv g"
  then have n: "int (length (AdjList g)) = Vertices g" by (simp add: graph_inv_def)
  show ?thesis using adj_rel_in_range[OF gi] n by (auto simp: vertices_def in_range_def)
qed

lemma bridge_count:
  assumes gi: "graph_inv g" and e: "(a, b) \<in> adj_rel g"
  shows "bridge g a b \<longleftrightarrow>
     component_count (vertices g) (adj_rel g) < component_count (vertices g) (without_edge g a b)"
proof -
  have fin: "finite (vertices g)" by (simp add: vertices_def)
  from adj_rel_vertices[OF gi] e have ab: "a \<in> vertices g" "b \<in> vertices g" by auto
  show ?thesis unfolding bridge_def without_edge_def
    using edge_removal_count[OF fin sym_adj_rel[OF gi] ab e] by simp
qed

text \<open>
  Claim C2.  For a graph built by \<open>ReadGraph\<close> and fuel of at least its number of
  vertices, \<open>ArticulationPointsAndBridges\<close> returns, and with \<open>s\<close> the arrays at the
  end of the run: the reported bridges are exactly the tree edges (parent of \<open>c\<close>, \<open>c\<close>)
  for which the low-link of \<open>c\<close> is strictly greater than the discovery time of its
  parent (the low-link of \<open>c\<close> and the discovery time of its parent no longer change
  after the call on \<open>c\<close> has returned, so this is the test made on the tree-edge
  return), and an edge of the graph is reported, in one of its two orientations,
  if and only if removing it strictly increases the number of connected components.
\<close>

theorem ArticulationPointsAndBridges_bridges:
  assumes "ReadGraph fs fn = Inr g" and "nat (Vertices g) \<le> d"
  shows "\<exists>s. ap_roots d g (map int [0..<nat (Vertices g)]) (ap_init g) = Inr s \<and>
           ArticulationPointsAndBridges d g = Inr (ap s, br s) \<and>
           set (br s) = {(par s c, c) | c. c \<in> vertices g \<and> par s c \<noteq> - 1 \<and> dsc s (par s c) < lw s c} \<and>
           (\<forall>a b. (a, b) \<in> adj_rel g \<longrightarrow>
              (((a, b) \<in> set (br s) \<or> (b, a) \<in> set (br s)) \<longleftrightarrow>
               component_count (vertices g) (adj_rel g)
                 < component_count (vertices g) (without_edge g a b)))"
proof -
  have sg: "simple_graph g" using ReadGraph_simple[OF assms(1)] .
  then have gi: "graph_inv g" by (simp add: simple_graph_def)
  from bridges_local[OF sg assms(2)] obtain s where
    s: "ap_roots d g (map int [0..<nat (Vertices g)]) (ap_init g) = Inr s"
       "ArticulationPointsAndBridges d g = Inr (ap s, br s)" "mk s = vertices g" "binv g s"
    by blast
  from s(4) have b1: "set (br s) = tree_br s {c \<in> vertices g. par s c \<noteq> - 1}"
    and b2: "\<forall>a \<in> vertices g. \<forall>b \<in> vertices g. (a, b) \<in> adj_rel g \<longrightarrow>
        (((a, b) \<in> set (br s) \<or> (b, a) \<in> set (br s)) \<longleftrightarrow> bridge g a b)"
    unfolding binv_def s(3) by blast+
  have t: "set (br s) = {(par s c, c) | c. c \<in> vertices g \<and> par s c \<noteq> - 1 \<and> dsc s (par s c) < lw s c}"
    unfolding b1 tree_br_def by auto
  have c: "((a, b) \<in> set (br s) \<or> (b, a) \<in> set (br s)) \<longleftrightarrow>
      component_count (vertices g) (adj_rel g) < component_count (vertices g) (without_edge g a b)"
    if e: "(a, b) \<in> adj_rel g" for a b
  proof -
    from adj_rel_vertices[OF gi] e have "a \<in> vertices g" "b \<in> vertices g" by auto
    with b2 e show ?thesis unfolding bridge_count[OF gi e, symmetric] by blast
  qed
  show ?thesis
  proof (intro exI[of _ s] conjI allI impI)
    show "ap_roots d g (map int [0..<nat (Vertices g)]) (ap_init g) = Inr s" by (rule s(1))
    show "ArticulationPointsAndBridges d g = Inr (ap s, br s)" by (rule s(2))
    show "set (br s) = {(par s c, c) | c. c \<in> vertices g \<and> par s c \<noteq> - 1 \<and> dsc s (par s c) < lw s c}"
      by (rule t)
    show "((a, b) \<in> set (br s) \<or> (b, a) \<in> set (br s)) \<longleftrightarrow>
      component_count (vertices g) (adj_rel g) < component_count (vertices g) (without_edge g a b)"
      if "(a, b) \<in> adj_rel g" for a b using c[OF that] .
  qed
qed

theorem ArticulationPointsAndBridges_bridges_witness:
  "ReadGraph (\<lambda>_. Some [4,0, 0,0,1,0,1,0,0,0, 0,0,0,0,1,0,0,0, 0,0,0,0,0,0,1,0, 0,0,0,0,0,0,0,0]) ''g.bin''
     = Inr \<lparr>Vertices = 4, AdjList = [[1, 2], [0, 2], [0, 1, 3], [2]]\<rparr> \<and>
   ArticulationPointsAndBridges 4 \<lparr>Vertices = 4, AdjList = [[1, 2], [0, 2], [0, 1, 3], [2]]\<rparr>
     = Inr ({2}, [(2, 3)]) \<and>
   component_count (vertices \<lparr>Vertices = 4, AdjList = [[1, 2], [0, 2], [0, 1, 3], [2]]\<rparr>)
       (adj_rel \<lparr>Vertices = 4, AdjList = [[1, 2], [0, 2], [0, 1, 3], [2]]\<rparr>)
     < component_count (vertices \<lparr>Vertices = 4, AdjList = [[1, 2], [0, 2], [0, 1, 3], [2]]\<rparr>)
         (without_edge \<lparr>Vertices = 4, AdjList = [[1, 2], [0, 2], [0, 1, 3], [2]]\<rparr> 2 3) \<and>
   \<not> component_count (vertices \<lparr>Vertices = 4, AdjList = [[1, 2], [0, 2], [0, 1, 3], [2]]\<rparr>)
       (adj_rel \<lparr>Vertices = 4, AdjList = [[1, 2], [0, 2], [0, 1, 3], [2]]\<rparr>)
     < component_count (vertices \<lparr>Vertices = 4, AdjList = [[1, 2], [0, 2], [0, 1, 3], [2]]\<rparr>)
         (without_edge \<lparr>Vertices = 4, AdjList = [[1, 2], [0, 2], [0, 1, 3], [2]]\<rparr> 0 1)"
proof -
  let ?fs = "\<lambda>_::string. Some [4,0, 0,0,1,0,1,0,0,0, 0,0,0,0,1,0,0,0, 0,0,0,0,0,0,1,0, 0,0,0,0,0,0,0,0 :: byte]"
  let ?g = "\<lparr>Vertices = 4, AdjList = [[1, 2], [0, 2], [0, 1, 3], [2]]\<rparr>"
  have r: "ReadGraph ?fs ''g.bin'' = Inr ?g" by code_simp
  have b: "ArticulationPointsAndBridges 4 ?g = Inr ({2}, [(2, 3)])" by code_simp
  have d: "nat (Vertices ?g) \<le> 4" by simp
  have e1: "(2, 3) \<in> adj_rel ?g" and e2: "(0, 1) \<in> adj_rel ?g" by (simp_all add: adj_rel_def in_range_def)
  from ArticulationPointsAndBridges_bridges[OF r d] obtain s :: ap_state where
    a: "ArticulationPointsAndBridges 4 ?g = Inr (ap s, br s)"
    and c: "\<forall>a b. (a, b) \<in> adj_rel ?g \<longrightarrow>
              (((a, b) \<in> set (br s) \<or> (b, a) \<in> set (br s)) \<longleftrightarrow>
               component_count (vertices ?g) (adj_rel ?g) < component_count (vertices ?g) (without_edge ?g a b))"
    by blast
  from a b have s: "br s = [(2, 3)]" by simp
  from c e1 have "((2, 3) \<in> set (br s) \<or> (3, 2) \<in> set (br s)) \<longleftrightarrow>
      component_count (vertices ?g) (adj_rel ?g) < component_count (vertices ?g) (without_edge ?g 2 3)"
    by blast
  with s have "component_count (vertices ?g) (adj_rel ?g) < component_count (vertices ?g) (without_edge ?g 2 3)"
    by simp
  moreover from c e2 have "((0, 1) \<in> set (br s) \<or> (1, 0) \<in> set (br s)) \<longleftrightarrow>
      component_count (vertices ?g) (adj_rel ?g) < component_count (vertices ?g) (without_edge ?g 0 1)"
    by blast
  with s have "\<not> component_count (vertices ?g) (adj_rel ?g) < component_count (vertices ?g) (without_edge ?g 0 1)"
    by simp
  ultimately show ?thesis using r b by blast
qed

end
